(* ===== verification/Prelude.thy ===== *)
theory Prelude
  imports Main "HOL-Library.Word"
begin

text \<open>
  Shared vocabulary of the development: the machine integers of the C++ sources, the calculus of
  bit fields packed into a 64-bit word (\<open>fld\<close> reads a field, \<open>upd_fld\<close> replaces one), and the
  result type of operations that can fail a run-time assertion.
\<close>

unbundle bit_operations_syntax

type_synonym u64 = "64 word"
type_synonym u8 = "8 word"
type_synonym host = nat

named_theorems fields \<open>word operations as reads and replacements of bit fields\<close>

section \<open>Results of fallible operations\<close>

text \<open>
  \<open>Latch_held\<close>: a latch the call has to take is held, so the call is still spinning.
  \<open>Dcheck_failed\<close> and \<open>Check_failed\<close>: a glog \<open>DCHECK\<close> or \<open>CHECK\<close> aborts the process.
  \<open>Bad_pointer\<close>: a null or dangling pointer is dereferenced.
\<close>

datatype err = Latch_held | Dcheck_failed | Check_failed | Bad_pointer

type_synonym 'a res = "err + 'a"

definition bind_res :: "'a res \<Rightarrow> ('a \<Rightarrow> 'b res) \<Rightarrow> 'b res" where
  "bind_res r f = (case r of Inl e \<Rightarrow> Inl e | Inr x \<Rightarrow> f x)"

definition check :: "bool \<Rightarrow> 'a res \<Rightarrow> 'a res" where
  "check b k = (if b then k else Inl Check_failed)"

text \<open>A \<open>DCHECK\<close> is compiled out when the build defines \<open>NDEBUG\<close>.\<close>

definition dcheck :: "bool \<Rightarrow> bool \<Rightarrow> 'a res \<Rightarrow> 'a res" where
  "dcheck ndebug b k = (if ndebug \<or> b then k else Inl Dcheck_failed)"

definition deref :: "('a \<rightharpoonup> 'b) \<Rightarrow> 'a option \<Rightarrow> 'b res" where
  "deref heap p = (case p of None \<Rightarrow> Inl Bad_pointer
     | Some a \<Rightarrow> (case heap a of None \<Rightarrow> Inl Bad_pointer | Some x \<Rightarrow> Inr x))"

lemma bind_res_Inr [simp]: "bind_res (Inr x) f = f x"
  by (simp add: bind_res_def)

lemma bind_res_Inl [simp]: "bind_res (Inl e) f = Inl e"
  by (simp add: bind_res_def)

lemma bind_res_eq_Inr: "bind_res r f = Inr y \<longleftrightarrow> (\<exists>x. r = Inr x \<and> f x = Inr y)"
  by (cases r) auto

lemma check_True [simp]: "check True k = k"
  by (simp add: check_def)

lemma check_eq_Inr: "check b k = Inr y \<longleftrightarrow> b \<and> k = Inr y"
  by (simp add: check_def)

lemma dcheck_True [simp]: "dcheck nd True k = k" "dcheck True b k = k"
  by (simp_all add: dcheck_def)

lemma dcheck_eq_Inr: "dcheck nd b k = Inr y \<longleftrightarrow> (nd \<or> b) \<and> k = Inr y"
  by (simp add: dcheck_def)

lemma deref_Some [simp]: "heap a = Some x \<Longrightarrow> deref heap (Some a) = Inr x"
  by (simp add: deref_def)

lemma deref_None [simp]: "deref heap None = Inl Bad_pointer"
  by (simp add: deref_def)

lemma deref_eq_Inr: "deref heap p = Inr x \<longleftrightarrow> (\<exists>a. p = Some a \<and> heap a = Some x)"
  by (auto simp: deref_def split: option.splits)

lemmas res_iffs = bind_res_eq_Inr check_eq_Inr dcheck_eq_Inr deref_eq_Inr

section \<open>Bit fields of a 64-bit word\<close>

definition fld :: "nat \<Rightarrow> nat \<Rightarrow> u64 \<Rightarrow> u64" where
  "fld off len w = drop_bit off w AND mask len"

lemma bit_fld: "bit (fld off len w) n \<longleftrightarrow> n < len \<and> bit w (off + n)"
  by (auto simp: fld_def bit_simps dest: bit_imp_le_length)

lemma fld_cong:
  assumes "\<And>n. off \<le> n \<Longrightarrow> n < off + len \<Longrightarrow> bit w n = bit w' n"
  shows "fld off len w = fld off len w'"
  using assms by (intro bit_word_eqI) (auto simp: bit_fld)

definition upd_fld :: "nat \<Rightarrow> nat \<Rightarrow> u64 \<Rightarrow> u64 \<Rightarrow> u64" where
  "upd_fld off len x w = (w AND NOT (push_bit off (mask len))) OR push_bit off (x AND mask len)"

lemma bit_upd_fld:
  "bit (upd_fld off len x w) n \<longleftrightarrow>
     n < 64 \<and> (if off \<le> n \<and> n < off + len then bit x (n - off) else bit w n)"
  by (auto simp: upd_fld_def bit_simps dest: bit_imp_le_length)

lemma fld_upd_same: "off + len \<le> 64 \<Longrightarrow> fld off len (upd_fld off len x w) = x AND mask len"
  by (intro bit_word_eqI) (auto simp: bit_fld bit_upd_fld bit_simps)

lemma fld_upd_other:
  "off' + len' \<le> off \<or> off + len \<le> off' \<Longrightarrow> fld off' len' (upd_fld off len x w) = fld off' len' w"
  by (intro fld_cong) (auto simp: bit_upd_fld dest: bit_imp_le_length)

lemma upd_fld_idem: "upd_fld off len x (upd_fld off len y w) = upd_fld off len x w"
  by (intro bit_word_eqI) (auto simp: bit_upd_fld)

lemma upd_fld_fld: "upd_fld off len (fld off len w) w = w"
  by (intro bit_word_eqI) (auto simp: bit_upd_fld bit_fld)

lemma clear_plus_eq_upd:
  assumes "x AND mask len = x"
  shows "(w AND NOT (push_bit off (mask len))) + push_bit off x = upd_fld off len x w"
proof -
  have "bit x n \<Longrightarrow> n < len" for n
    using assms by (metis bit_and_iff bit_mask_iff)
  then have "(w AND NOT (push_bit off (mask len))) AND push_bit off x = 0"
    by (intro bit_word_eqI) (auto simp: bit_simps)
  then show ?thesis
    by (simp add: disjunctive_add_eq_or upd_fld_def assms)
qed

lemma split_fld: "w = (w AND NOT (push_bit off (mask len))) + push_bit off (fld off len w)"
proof -
  have "fld off len w AND mask len = fld off len w"
    by (intro bit_word_eqI) (auto simp: bit_fld bit_simps)
  then have "(w AND NOT (push_bit off (mask len))) + push_bit off (fld off len w)
      = upd_fld off len (fld off len w) w"
    by (rule clear_plus_eq_upd)
  also have "\<dots> = w"
    by (intro bit_word_eqI) (auto simp: bit_upd_fld bit_fld)
  finally show ?thesis by simp
qed

lemma small_and_mask:
  assumes "unat (x::u64) < 2 ^ len"
  shows "x AND mask len = x"
proof -
  have "unat (take_bit len x) = unat x"
    using assms by (simp add: unsigned_take_bit_eq take_bit_nat_eq_self)
  then have "take_bit len x = x"
    by (simp only: word_unat_eq_iff)
  then show ?thesis
    by (simp add: take_bit_eq_mask)
qed

lemma unat_fld_less: "unat (fld off len w) < 2 ^ len"
  by (simp add: fld_def unsigned_take_bit_eq flip: take_bit_eq_mask)

lemma add_fld_eq_upd:
  assumes "unat (fld off len w) + unat c < 2 ^ len"
  shows "w + push_bit off c = upd_fld off len (fld off len w + c) w"
proof -
  have "unat (fld off len w + c) \<le> unat (fld off len w) + unat c"
    by (simp add: unat_word_ariths)
  then have "unat (fld off len w + c) < 2 ^ len"
    using assms by linarith
  then have "(w AND NOT (push_bit off (mask len))) + push_bit off (fld off len w + c)
     = upd_fld off len (fld off len w + c) w"
    by (intro clear_plus_eq_upd small_and_mask)
  then show ?thesis
    by (subst split_fld [of w off len]) (simp add: push_bit_add algebra_simps)
qed

lemma sub_fld_eq_upd:
  assumes "c \<le> fld off len w"
  shows "w - push_bit off c = upd_fld off len (fld off len w - c) w"
proof -
  have "unat (fld off len w - c) \<le> unat (fld off len w)"
    using assms by (simp add: unat_sub)
  then have "unat (fld off len w - c) < 2 ^ len"
    using unat_fld_less [of off len w] by linarith
  then have "(w AND NOT (push_bit off (mask len))) + push_bit off (fld off len w - c)
     = upd_fld off len (fld off len w - c) w"
    by (intro clear_plus_eq_upd small_and_mask)
  moreover have "push_bit off (fld off len w - c) = push_bit off (fld off len w) - push_bit off c"
    by (simp add: push_bit_eq_mult algebra_simps)
  ultimately show ?thesis
    by (subst split_fld [of w off len]) (simp add: algebra_simps)
qed

text \<open>The shapes in which the sources read and write fields: shift and mask, and single bits.\<close>

lemma and_push_mask_eq_0:
  assumes "off + len \<le> 64"
  shows "w AND push_bit off (mask len) = 0 \<longleftrightarrow> fld off len w = 0"
proof
  assume z: "w AND push_bit off (mask len) = 0"
  have "\<not> (n < len \<and> bit w (off + n))" for n
    using arg_cong [OF z, of "\<lambda>x. bit x (off + n)"] assms by (auto simp: bit_simps)
  then show "fld off len w = 0"
    by (intro bit_word_eqI) (auto simp: bit_fld)
next
  assume z: "fld off len w = 0"
  have "\<not> (off \<le> n \<and> n < off + len \<and> bit w n)" for n
    using arg_cong [OF z, of "\<lambda>x. bit x (n - off)"] by (auto simp: bit_fld)
  then show "w AND push_bit off (mask len) = 0"
    by (intro bit_word_eqI) (auto simp: bit_simps)
qed

lemma and_not_push_mask: "w AND NOT (push_bit off (mask len)) = upd_fld off len 0 w"
  by (simp add: upd_fld_def)

lemma or_bit_eq_upd: "w OR push_bit k 1 = upd_fld k (Suc 0) 1 w"
  by (intro bit_word_eqI) (auto simp: bit_upd_fld bit_simps)

lemma and_not_bit_eq_upd: "w AND NOT (push_bit k 1) = upd_fld k (Suc 0) 0 w"
  by (intro bit_word_eqI) (auto simp: bit_upd_fld bit_simps)

lemma and_bit_neq_0: "w AND push_bit k 1 \<noteq> 0 \<longleftrightarrow> bit (w::u64) k"
  by (auto simp: push_bit_eq_mult and_exp_eq_0_iff_not_bit)

lemma fld_bit: "fld k (Suc 0) w = of_bool (bit w k)"
  by (intro bit_word_eqI) (auto simp: bit_fld bit_simps)

lemma fld_0 [simp]: "fld off len 0 = 0"
  by (simp add: fld_def)

lemma mask_literals:
  "(0x1f::u64) = mask 5" "(0x3f::u64) = mask 6" "(0xffff::u64) = mask 16"
  "(0x1fffffffff::u64) = mask 37"
  by (simp_all add: mask_eq_exp_minus_1)

section \<open>The ends of a list\<close>

definition last_opt :: "'a list \<Rightarrow> 'a option" where "last_opt xs = (if xs = [] then None else Some (last xs))"
definition hd_opt :: "'a list \<Rightarrow> 'a option" where "hd_opt xs = (if xs = [] then None else Some (hd xs))"

lemma end_in_set: "last_opt xs = Some x \<Longrightarrow> x \<in> set xs" "hd_opt xs = Some x \<Longrightarrow> x \<in> set xs"
  by (auto simp: last_opt_def hd_opt_def split: if_splits)

lemma end_simps [simp]:
  "last_opt [] = None" "last_opt [x] = Some x" "last_opt (xs @ [x]) = Some x" "hd_opt [] = None" "hd_opt (x # xs) = Some x"
  by (simp_all add: last_opt_def hd_opt_def)

lemma end_None [simp]: "last_opt xs = None \<longleftrightarrow> xs = []" "hd_opt xs = None \<longleftrightarrow> xs = []"
  by (simp_all add: last_opt_def hd_opt_def)

end
