(* ===== verification/LockWord.thy ===== *)
theory LockWord
  imports Prelude
begin

text \<open>
  The two packed words that carry a row's lock in \<open>protocol/TwoPLPasha/TwoPLPashaHelper.h\<close>:
  the \<open>tid\<close> word of a row that lives in its partition (write lock bit, five reader bits, 58-bit
  version) and the \<open>atomic_word\<close> of \<open>TwoPLPashaMetadataShared\<close>, which carries the latch, the
  software cache-coherence bits, the reader count, the write lock, the migration flags and the
  offset of the row's data in CXL memory. The locale \<open>rw_lock\<close> states what the rest of the
  protocol relies on of a reader/writer lock; both words satisfy it.
\<close>

section \<open>The tid word of a row in its partition\<close>

abbreviation (input) LOCK_BIT_OFFSET :: nat where "LOCK_BIT_OFFSET \<equiv> 58"
abbreviation (input) LOCK_BIT_MASK :: u64 where "LOCK_BIT_MASK \<equiv> 0x3f"
abbreviation (input) READ_LOCK_BIT_OFFSET :: nat where "READ_LOCK_BIT_OFFSET \<equiv> 58"
abbreviation (input) READ_LOCK_BIT_MASK :: u64 where "READ_LOCK_BIT_MASK \<equiv> 0x1f"
abbreviation (input) WRITE_LOCK_BIT_OFFSET :: nat where "WRITE_LOCK_BIT_OFFSET \<equiv> 63"
abbreviation (input) WRITE_LOCK_BIT_MASK :: u64 where "WRITE_LOCK_BIT_MASK \<equiv> 1"

definition is_read_locked :: "u64 \<Rightarrow> bool" where
  "is_read_locked value \<longleftrightarrow> value AND push_bit READ_LOCK_BIT_OFFSET READ_LOCK_BIT_MASK \<noteq> 0"

definition is_write_locked :: "u64 \<Rightarrow> bool" where
  "is_write_locked value \<longleftrightarrow> value AND push_bit WRITE_LOCK_BIT_OFFSET WRITE_LOCK_BIT_MASK \<noteq> 0"

definition read_lock_num :: "u64 \<Rightarrow> u64" where
  "read_lock_num value = drop_bit READ_LOCK_BIT_OFFSET value AND READ_LOCK_BIT_MASK"

definition set_read_lock_num :: "u64 \<Rightarrow> u64 \<Rightarrow> u64" where
  "set_read_lock_num value reader_count =
     (value AND NOT (push_bit READ_LOCK_BIT_OFFSET READ_LOCK_BIT_MASK))
       + push_bit READ_LOCK_BIT_OFFSET reader_count"

definition read_lock_max :: u64 where
  "read_lock_max = READ_LOCK_BIT_MASK"

definition set_write_lock_bit :: "u64 \<Rightarrow> u64" where
  "set_write_lock_bit value = value OR push_bit WRITE_LOCK_BIT_OFFSET WRITE_LOCK_BIT_MASK"

definition clear_write_lock_bit :: "u64 \<Rightarrow> u64" where
  "clear_write_lock_bit value = value AND NOT (push_bit WRITE_LOCK_BIT_OFFSET WRITE_LOCK_BIT_MASK)"

definition remove_lock_bit :: "u64 \<Rightarrow> u64" where
  "remove_lock_bit value = value AND NOT (push_bit LOCK_BIT_OFFSET LOCK_BIT_MASK)"

definition remove_read_lock_bit :: "u64 \<Rightarrow> u64" where
  "remove_read_lock_bit value = value AND NOT (push_bit READ_LOCK_BIT_OFFSET READ_LOCK_BIT_MASK)"

definition remove_write_lock_bit :: "u64 \<Rightarrow> u64" where
  "remove_write_lock_bit value = value AND NOT (push_bit WRITE_LOCK_BIT_OFFSET WRITE_LOCK_BIT_MASK)"

text \<open>
  The lock steps the helper's handlers take inline on the \<open>tid\<close> word of an unmigrated row:
  \<open>None\<close> when the lock is refused.
\<close>

definition tid_try_read :: "u64 \<Rightarrow> u64 option" where
  "tid_try_read old_value =
     (if is_write_locked old_value \<or> read_lock_num old_value = read_lock_max then None
      else Some (old_value + push_bit READ_LOCK_BIT_OFFSET 1))"

definition tid_try_write :: "u64 \<Rightarrow> u64 option" where
  "tid_try_write old_value =
     (if is_read_locked old_value \<or> is_write_locked old_value then None
      else Some (old_value + push_bit WRITE_LOCK_BIT_OFFSET WRITE_LOCK_BIT_MASK))"

definition tid_release_read :: "u64 \<Rightarrow> u64" where
  "tid_release_read old_value = old_value - push_bit READ_LOCK_BIT_OFFSET 1"

definition tid_release_write :: "u64 \<Rightarrow> u64" where
  "tid_release_write old_value = old_value - push_bit WRITE_LOCK_BIT_OFFSET 1"

section \<open>The atomic word of a migrated row\<close>

abbreviation (input) LATCH_BIT_OFFSET :: nat where "LATCH_BIT_OFFSET \<equiv> 63"
abbreviation (input) SCC_DATA_OFFSET :: nat where "SCC_DATA_OFFSET \<equiv> 0"
abbreviation (input) SCC_DATA_MASK :: u64 where "SCC_DATA_MASK \<equiv> 0x1fffffffff"
abbreviation (input) SCC_BITS_OFFSET :: nat where "SCC_BITS_OFFSET \<equiv> 47"
abbreviation (input) SCC_BITS_MASK :: u64 where "SCC_BITS_MASK \<equiv> 0xffff"
abbreviation (input) READ_LOCK_BITS_OFFSET :: nat where "READ_LOCK_BITS_OFFSET \<equiv> 42"
abbreviation (input) READ_LOCK_BITS_MASK :: u64 where "READ_LOCK_BITS_MASK \<equiv> 0x1f"
abbreviation (input) SHARED_WRITE_LOCK_BIT_OFFSET :: nat where "SHARED_WRITE_LOCK_BIT_OFFSET \<equiv> 41"
abbreviation (input) is_data_modified_since_moved_in_bit_index :: nat where
  "is_data_modified_since_moved_in_bit_index \<equiv> 40"
abbreviation (input) scc_bits_base_index :: nat where "scc_bits_base_index \<equiv> 47"
abbreviation (input) is_next_key_real_bit_index :: nat where "is_next_key_real_bit_index \<equiv> 39"
abbreviation (input) is_prev_key_real_bit_index :: nat where "is_prev_key_real_bit_index \<equiv> 38"
abbreviation (input) second_chance_bit_index :: nat where "second_chance_bit_index \<equiv> 37"

definition sm_new :: "u64 \<Rightarrow> u64" where
  "sm_new scc_data_cxl_offset = push_bit SCC_DATA_OFFSET scc_data_cxl_offset"

text \<open>One turn of the spin loop of \<open>lock()\<close>: \<open>None\<close> is a retry.\<close>

definition sm_lock :: "u64 \<Rightarrow> u64 option" where
  "sm_lock v =
     (if v AND push_bit LATCH_BIT_OFFSET 1 = 0 then Some (v OR push_bit LATCH_BIT_OFFSET 1) else None)"

definition sm_unlock :: "u64 \<Rightarrow> u64" where
  "sm_unlock v = v AND NOT (push_bit LATCH_BIT_OFFSET 1)"

definition sm_get_scc_data :: "u64 \<Rightarrow> u64" where
  "sm_get_scc_data v = v AND push_bit SCC_DATA_OFFSET SCC_DATA_MASK"

definition sm_set_bit :: "nat \<Rightarrow> u64 \<Rightarrow> u64" where
  "sm_set_bit bit_index v = v OR push_bit bit_index 1"

definition sm_clear_bit :: "nat \<Rightarrow> u64 \<Rightarrow> u64" where
  "sm_clear_bit bit_index v = v AND NOT (push_bit bit_index 1)"

definition sm_is_bit_set :: "nat \<Rightarrow> u64 \<Rightarrow> bool" where
  "sm_is_bit_set bit_index v \<longleftrightarrow> v AND push_bit bit_index 1 \<noteq> 0"

definition sm_get_reader_count :: "u64 \<Rightarrow> u64" where
  "sm_get_reader_count v = drop_bit READ_LOCK_BITS_OFFSET v AND READ_LOCK_BITS_MASK"

definition sm_set_reader_count :: "u64 \<Rightarrow> u64 \<Rightarrow> u64" where
  "sm_set_reader_count reader_count v =
     (v AND NOT (push_bit READ_LOCK_BITS_OFFSET READ_LOCK_BITS_MASK))
       + push_bit READ_LOCK_BITS_OFFSET reader_count"

definition sm_increase_reader_count :: "u64 \<Rightarrow> u64" where
  "sm_increase_reader_count v = v + push_bit READ_LOCK_BITS_OFFSET 1"

definition sm_decrease_reader_count :: "u64 \<Rightarrow> u64" where
  "sm_decrease_reader_count v = v - push_bit READ_LOCK_BITS_OFFSET 1"

definition sm_get_reader_count_max :: u64 where
  "sm_get_reader_count_max = READ_LOCK_BITS_MASK"

definition sm_is_write_locked :: "u64 \<Rightarrow> bool" where
  "sm_is_write_locked = sm_is_bit_set SHARED_WRITE_LOCK_BIT_OFFSET"

definition sm_set_write_locked :: "u64 \<Rightarrow> u64" where
  "sm_set_write_locked = sm_set_bit SHARED_WRITE_LOCK_BIT_OFFSET"

definition sm_clear_write_locked :: "u64 \<Rightarrow> u64" where
  "sm_clear_write_locked = sm_clear_bit SHARED_WRITE_LOCK_BIT_OFFSET"

definition sm_is_data_modified_since_moved_in :: "u64 \<Rightarrow> bool" where
  "sm_is_data_modified_since_moved_in = sm_is_bit_set is_data_modified_since_moved_in_bit_index"

definition sm_set_is_data_modified_since_moved_in :: "u64 \<Rightarrow> u64" where
  "sm_set_is_data_modified_since_moved_in = sm_set_bit is_data_modified_since_moved_in_bit_index"

definition sm_clear_is_data_modified_since_moved_in :: "u64 \<Rightarrow> u64" where
  "sm_clear_is_data_modified_since_moved_in = sm_clear_bit is_data_modified_since_moved_in_bit_index"

definition sm_get_next_key_real_bit :: "u64 \<Rightarrow> bool" where
  "sm_get_next_key_real_bit = sm_is_bit_set is_next_key_real_bit_index"

definition sm_set_next_key_real_bit :: "u64 \<Rightarrow> u64" where
  "sm_set_next_key_real_bit = sm_set_bit is_next_key_real_bit_index"

definition sm_clear_next_key_real_bit :: "u64 \<Rightarrow> u64" where
  "sm_clear_next_key_real_bit = sm_clear_bit is_next_key_real_bit_index"

definition sm_get_prev_key_real_bit :: "u64 \<Rightarrow> bool" where
  "sm_get_prev_key_real_bit = sm_is_bit_set is_prev_key_real_bit_index"

definition sm_set_prev_key_real_bit :: "u64 \<Rightarrow> u64" where
  "sm_set_prev_key_real_bit = sm_set_bit is_prev_key_real_bit_index"

definition sm_clear_prev_key_real_bit :: "u64 \<Rightarrow> u64" where
  "sm_clear_prev_key_real_bit = sm_clear_bit is_prev_key_real_bit_index"

definition sm_clear_all_scc_bits :: "u64 \<Rightarrow> u64" where
  "sm_clear_all_scc_bits v = v AND NOT (push_bit SCC_BITS_OFFSET SCC_BITS_MASK)"

definition sm_set_scc_bit :: "host \<Rightarrow> u64 \<Rightarrow> u64" where
  "sm_set_scc_bit host_id = sm_set_bit (host_id + SCC_BITS_OFFSET)"

text \<open>The inline lock steps on a latched atomic word.\<close>

definition sm_try_read :: "u64 \<Rightarrow> u64 option" where
  "sm_try_read v =
     (if sm_is_write_locked v \<or> sm_get_reader_count v = sm_get_reader_count_max then None
      else Some (sm_increase_reader_count v))"

definition sm_try_write :: "u64 \<Rightarrow> u64 option" where
  "sm_try_write v =
     (if sm_get_reader_count v > 0 \<or> sm_is_write_locked v then None
      else Some (sm_set_write_locked v))"

text \<open>For evaluating the operations on literals.\<close>

lemmas word_exec = is_read_locked_def is_write_locked_def read_lock_num_def set_read_lock_num_def read_lock_max_def
  set_write_lock_bit_def clear_write_lock_bit_def remove_lock_bit_def tid_try_read_def tid_try_write_def
  tid_release_read_def tid_release_write_def sm_new_def sm_lock_def sm_unlock_def sm_get_scc_data_def
  sm_set_bit_def sm_clear_bit_def sm_is_bit_set_def sm_get_reader_count_def sm_set_reader_count_def
  sm_increase_reader_count_def sm_decrease_reader_count_def sm_get_reader_count_max_def sm_is_write_locked_def
  sm_set_write_locked_def sm_clear_write_locked_def sm_is_data_modified_since_moved_in_def
  sm_set_is_data_modified_since_moved_in_def sm_clear_is_data_modified_since_moved_in_def
  sm_get_next_key_real_bit_def sm_set_next_key_real_bit_def sm_clear_next_key_real_bit_def
  sm_get_prev_key_real_bit_def sm_set_prev_key_real_bit_def sm_clear_prev_key_real_bit_def
  sm_clear_all_scc_bits_def sm_set_scc_bit_def sm_try_read_def sm_try_write_def

section \<open>Both words as bit fields\<close>

lemma tid_reads [fields]:
  "read_lock_num v = fld 58 5 v" "is_read_locked v \<longleftrightarrow> fld 58 5 v \<noteq> 0" "is_write_locked v \<longleftrightarrow> bit v 63"
  by (simp_all only: read_lock_num_def is_read_locked_def is_write_locked_def mask_literals fld_def
      and_bit_neq_0) (simp add: and_push_mask_eq_0 flip: fld_def)

lemma tid_writes [fields]:
  "set_write_lock_bit v = upd_fld 63 1 1 v" "clear_write_lock_bit v = upd_fld 63 1 0 v"
  "remove_lock_bit v = upd_fld 58 6 0 v" "remove_read_lock_bit v = upd_fld 58 5 0 v"
  "remove_write_lock_bit v = upd_fld 63 1 0 v"
  by (simp_all only: set_write_lock_bit_def clear_write_lock_bit_def remove_lock_bit_def
      remove_read_lock_bit_def remove_write_lock_bit_def mask_literals and_not_push_mask
      or_bit_eq_upd and_not_bit_eq_upd One_nat_def)

lemma set_read_lock_num_fields [fields]:
  "unat c < 32 \<Longrightarrow> set_read_lock_num v c = upd_fld 58 5 c v"
  unfolding set_read_lock_num_def mask_literals
  by (intro clear_plus_eq_upd small_and_mask) simp

lemma sm_reads [fields]:
  "sm_get_reader_count v = fld 42 5 v" "sm_is_bit_set k v \<longleftrightarrow> bit v k"
  "sm_is_write_locked v \<longleftrightarrow> bit v 41" "sm_is_data_modified_since_moved_in v \<longleftrightarrow> bit v 40"
  "sm_get_next_key_real_bit v \<longleftrightarrow> bit v 39" "sm_get_prev_key_real_bit v \<longleftrightarrow> bit v 38"
  "sm_get_scc_data v = fld 0 37 v"
  by (simp_all only: sm_get_reader_count_def sm_is_bit_set_def sm_is_write_locked_def
      sm_is_data_modified_since_moved_in_def sm_get_next_key_real_bit_def sm_get_prev_key_real_bit_def
      sm_get_scc_data_def mask_literals and_bit_neq_0 fld_def push_bit_0_id drop_bit_0 id_apply)

lemma sm_writes [fields]:
  "sm_set_bit k v = upd_fld k 1 1 v" "sm_clear_bit k v = upd_fld k 1 0 v"
  "sm_set_write_locked v = upd_fld 41 1 1 v" "sm_clear_write_locked v = upd_fld 41 1 0 v"
  "sm_set_is_data_modified_since_moved_in v = upd_fld 40 1 1 v"
  "sm_clear_is_data_modified_since_moved_in v = upd_fld 40 1 0 v"
  "sm_set_next_key_real_bit v = upd_fld 39 1 1 v" "sm_clear_next_key_real_bit v = upd_fld 39 1 0 v"
  "sm_set_prev_key_real_bit v = upd_fld 38 1 1 v" "sm_clear_prev_key_real_bit v = upd_fld 38 1 0 v"
  "sm_clear_all_scc_bits v = upd_fld 47 16 0 v" "sm_set_scc_bit h v = upd_fld (h + 47) 1 1 v"
  "sm_unlock v = upd_fld 63 1 0 v"
  by (simp_all only: sm_set_bit_def sm_clear_bit_def sm_set_write_locked_def sm_clear_write_locked_def
      sm_set_is_data_modified_since_moved_in_def sm_clear_is_data_modified_since_moved_in_def
      sm_set_next_key_real_bit_def sm_clear_next_key_real_bit_def sm_set_prev_key_real_bit_def
      sm_clear_prev_key_real_bit_def sm_clear_all_scc_bits_def sm_set_scc_bit_def sm_unlock_def
      mask_literals or_bit_eq_upd and_not_bit_eq_upd and_not_push_mask One_nat_def)

lemma sm_set_reader_count_fields [fields]:
  "unat c < 32 \<Longrightarrow> sm_set_reader_count c v = upd_fld 42 5 c v"
  unfolding sm_set_reader_count_def mask_literals
  by (intro clear_plus_eq_upd small_and_mask) simp

lemma sm_lock_fields [fields]:
  "sm_lock v = (if bit v 63 then None else Some (upd_fld 63 1 1 v))"
  using and_bit_neq_0 [of v 63] by (simp only: sm_lock_def or_bit_eq_upd One_nat_def) auto

lemma unat_less_mask5: "fld k 5 v \<noteq> 0x1f \<Longrightarrow> unat (fld k 5 v) < 31"
  using unat_fld_less [of k 5 v] by (auto simp: word_unat_eq_iff)

lemma tid_try_read_fields [fields]:
  "tid_try_read v = (if bit v 63 \<or> fld 58 5 v = 31 then None else Some (upd_fld 58 5 (fld 58 5 v + 1) v))"
  using add_fld_eq_upd [of 58 5 v 1] unat_less_mask5 [of 58 v]
  by (simp only: tid_try_read_def read_lock_max_def tid_reads) auto

lemma tid_try_write_fields [fields]:
  "tid_try_write v = (if fld 58 5 v \<noteq> 0 \<or> bit v 63 then None else Some (upd_fld 63 1 1 v))"
  using add_fld_eq_upd [of 63 1 v 1]
  by (simp only: tid_try_write_def tid_reads) (auto simp: fld_bit)

lemma fld_ge_1: "fld k len v \<noteq> 0 \<Longrightarrow> 1 \<le> fld k len v"
  by (simp add: word_le_nat_alt word_unat_eq_iff)

lemma tid_release_read_fields [fields]:
  "fld 58 5 v \<noteq> 0 \<Longrightarrow> tid_release_read v = upd_fld 58 5 (fld 58 5 v - 1) v"
  unfolding tid_release_read_def by (intro sub_fld_eq_upd fld_ge_1)

lemma tid_release_write_fields [fields]:
  "bit v 63 \<Longrightarrow> tid_release_write v = upd_fld 63 1 0 v"
  unfolding tid_release_write_def using sub_fld_eq_upd [of 1 63 1 v] by (simp add: fld_bit)

lemma sm_try_read_fields [fields]:
  "sm_try_read v = (if bit v 41 \<or> fld 42 5 v = 31 then None else Some (upd_fld 42 5 (fld 42 5 v + 1) v))"
  using add_fld_eq_upd [of 42 5 v 1] unat_less_mask5 [of 42 v]
  by (simp only: sm_try_read_def sm_get_reader_count_max_def sm_increase_reader_count_def sm_reads) auto

lemma sm_try_write_fields [fields]:
  "sm_try_write v = (if fld 42 5 v \<noteq> 0 \<or> bit v 41 then None else Some (upd_fld 41 1 1 v))"
  by (auto simp: sm_try_write_def sm_reads sm_writes word_neq_0_conv)

lemma sm_decrease_reader_count_fields [fields]:
  "fld 42 5 v \<noteq> 0 \<Longrightarrow> sm_decrease_reader_count v = upd_fld 42 5 (fld 42 5 v - 1) v"
  unfolding sm_decrease_reader_count_def by (intro sub_fld_eq_upd fld_ge_1)

lemmas field_calculus = fields fld_upd_same fld_upd_other bit_upd_fld fld_bit

section \<open>The contract of a reader/writer lock word\<close>

text \<open>
  \<open>readers\<close> and \<open>writer\<close> read the lock out of a word; \<open>rest\<close> is everything else the word
  carries, which no lock step may touch.
\<close>

locale rw_lock =
  fixes readers :: "'s \<Rightarrow> nat" and writer :: "'s \<Rightarrow> bool" and rest :: "'s \<Rightarrow> 'r"
    and try_read :: "'s \<Rightarrow> 's option" and try_write :: "'s \<Rightarrow> 's option"
    and release_read :: "'s \<Rightarrow> 's" and release_write :: "'s \<Rightarrow> 's"
  assumes readers_le: "readers s \<le> 31"
    and try_read_None: "try_read s = None \<longleftrightarrow> writer s \<or> readers s = 31"
    and try_read_Some: "try_read s = Some t \<Longrightarrow>
      readers t = Suc (readers s) \<and> writer t = writer s \<and> rest t = rest s"
    and try_write_None: "try_write s = None \<longleftrightarrow> writer s \<or> 0 < readers s"
    and try_write_Some: "try_write s = Some t \<Longrightarrow>
      readers t = readers s \<and> writer t \<and> rest t = rest s"
    and release_read: "0 < readers s \<Longrightarrow> readers (release_read s) = readers s - 1 \<and>
      writer (release_read s) = writer s \<and> rest (release_read s) = rest s"
    and release_write: "writer s \<Longrightarrow> readers (release_write s) = readers s \<and>
      \<not> writer (release_write s) \<and> rest (release_write s) = rest s"
begin

lemma try_read_exclusive: "try_read s = Some t \<Longrightarrow> \<not> writer t"
  using try_read_None [of s] try_read_Some [of s t] by simp

lemma try_write_exclusive: "try_write s = Some t \<Longrightarrow> readers t = 0 \<and> \<not> writer s"
  using try_write_None [of s] try_write_Some [of s t] by simp

lemma read_roundtrip:
  "try_read s = Some t \<Longrightarrow> readers (release_read t) = readers s \<and>
     writer (release_read t) = writer s \<and> rest (release_read t) = rest s"
  using try_read_Some [of s t] release_read [of t] by simp

lemma write_roundtrip:
  "try_write s = Some t \<Longrightarrow> readers (release_write t) = readers s \<and>
     writer (release_write t) = writer s \<and> rest (release_write t) = rest s"
  using try_write_Some [of s t] release_write [of t] try_write_None [of s] by simp

end

definition tid_readers :: "u64 \<Rightarrow> nat" where
  "tid_readers v = unat (read_lock_num v)"

definition sm_readers :: "u64 \<Rightarrow> nat" where
  "sm_readers v = unat (sm_get_reader_count v)"

text \<open>The atomic word without its lock: the latch, the coherence bits, the flags and the offset.\<close>

definition sm_rest :: "u64 \<Rightarrow> u64" where
  "sm_rest v = sm_set_reader_count 0 (sm_clear_write_locked v)"

lemma unat_fld_inc: "fld k 5 v \<noteq> 31 \<Longrightarrow> unat ((fld k 5 v + 1) AND mask 5) = Suc (unat (fld k 5 v))"
  using unat_less_mask5 [of k v] small_and_mask [of "fld k 5 v + 1" 5]
  by (simp add: unat_word_ariths)

lemma unat_fld_dec: "fld k 5 v \<noteq> 0 \<Longrightarrow> unat ((fld k 5 v - 1) AND mask 5) = unat (fld k 5 v) - 1"
  using unat_fld_less [of k 5 v] fld_ge_1 [of k 5 v] small_and_mask [of "fld k 5 v - 1" 5]
  by (simp add: unat_sub)

lemma upd_fld_outer:
  "off \<le> off' \<Longrightarrow> off' + len' \<le> off + len \<Longrightarrow>
     upd_fld off len x (upd_fld off' len' y w) = upd_fld off len x w"
  by (intro bit_word_eqI) (auto simp: bit_upd_fld)

lemma sm_rest_fields: "sm_rest v = upd_fld 41 6 0 v"
  by (intro bit_word_eqI) (auto simp: sm_rest_def fields bit_upd_fld)

interpretation tidl: rw_lock tid_readers is_write_locked remove_lock_bit tid_try_read tid_try_write
    tid_release_read tid_release_write
proof (unfold_locales, goal_cases)
  case (1 s)
  then show ?case using unat_fld_less [of 58 5 s] by (simp add: tid_readers_def fields)
next
  case (2 s)
  then show ?case by (auto simp: tid_readers_def fields word_unat_eq_iff)
next
  case (3 s t)
  then show ?case
    by (auto simp: tid_readers_def field_calculus unat_fld_inc upd_fld_outer split: if_splits)
next
  case (4 s)
  then show ?case by (auto simp: tid_readers_def fields unat_gt_0)
next
  case (5 s t)
  then show ?case by (auto simp: tid_readers_def field_calculus upd_fld_outer split: if_splits)
next
  case (6 s)
  then show ?case
    by (simp add: tid_readers_def field_calculus unat_fld_dec upd_fld_outer unat_gt_0)
next
  case (7 s)
  then show ?case by (simp add: tid_readers_def field_calculus upd_fld_outer)
qed

interpretation sml: rw_lock sm_readers sm_is_write_locked sm_rest sm_try_read sm_try_write
    sm_decrease_reader_count sm_clear_write_locked
proof (unfold_locales, goal_cases)
  case (1 s)
  then show ?case using unat_fld_less [of 42 5 s] by (simp add: sm_readers_def fields)
next
  case (2 s)
  then show ?case by (auto simp: sm_readers_def fields word_unat_eq_iff)
next
  case (3 s t)
  then show ?case
    by (auto simp: sm_readers_def sm_rest_fields field_calculus unat_fld_inc upd_fld_outer
        split: if_splits)
next
  case (4 s)
  then show ?case by (auto simp: sm_readers_def fields unat_gt_0)
next
  case (5 s t)
  then show ?case
    by (auto simp: sm_readers_def sm_rest_fields field_calculus upd_fld_outer split: if_splits)
next
  case (6 s)
  then show ?case
    by (simp add: sm_readers_def sm_rest_fields field_calculus unat_fld_dec upd_fld_outer unat_gt_0)
next
  case (7 s)
  then show ?case by (simp add: sm_readers_def sm_rest_fields field_calculus upd_fld_outer)
qed

end
