(* ===== verification/SCC.thy ===== *)
theory SCC
  imports LockWord
begin

text \<open>
  The software cache-coherence managers of \<open>protocol/Pasha/SCC*.h\<close> and
  \<open>protocol/TwoPLPasha/TwoPLPashaSCC*.h\<close>. CXL memory is not cache-coherent across hosts: each host
  reads and writes its own cached copy of a line, and only \<open>clflush\<close> (write back and drop) and
  \<open>clwb\<close> (write back and keep) move a line between a cache and memory on purpose. The managers
  decide, from bits kept next to the row, when a host has to flush before it reads. The locale
  \<open>coherence_manager\<close> is their contract; under it every read returns the latest written bytes, whatever
  lines the hardware evicts or prefetches in between.
\<close>

section \<open>Managers and their choice\<close>

datatype scc_manager =
    SCCNonTemporal | SCCNoOP | SCCWriteThrough
  | TwoPLPashaSCCNonTemporal | TwoPLPashaSCCWriteThrough | TwoPLPashaSCCWriteThroughNoSharedRead

text \<open>\<open>Inr None\<close> is the null pointer returned for a protocol without a manager.\<close>

definition create_scc_manager :: "string \<Rightarrow> string \<Rightarrow> scc_manager option res" where
  "create_scc_manager protocol scc_mechanism =
     (if protocol = ''SundialPasha'' then
        if scc_mechanism = ''NonTemporal'' then Inr (Some SCCNonTemporal)
        else if scc_mechanism = ''NoOP'' then Inr (Some SCCNoOP)
        else if scc_mechanism = ''WriteThrough'' then Inr (Some SCCWriteThrough)
        else Inl Check_failed
      else if protocol = ''TwoPLPasha'' then
        if scc_mechanism = ''NonTemporal'' then Inr (Some TwoPLPashaSCCNonTemporal)
        else if scc_mechanism = ''NoOP'' then Inr (Some SCCNoOP)
        else if scc_mechanism = ''WriteThrough'' then Inr (Some TwoPLPashaSCCWriteThrough)
        else if scc_mechanism = ''WriteThroughNoSharedRead''
          then Inr (Some TwoPLPashaSCCWriteThroughNoSharedRead)
        else Inl Check_failed
      else Inr None)"

section \<open>The managers of TwoPLPasha, on the atomic word\<close>

text \<open>
  \<open>do_read\<close> and \<open>do_write\<close> of these managers are plain copies; what differs is \<open>prepare_read\<close>,
  which returns the new word and whether the object's lines were flushed, and \<open>finish_write\<close>.
  The Sundial managers inherit the empty defaults of \<open>SCCManager\<close> for both.
\<close>

definition pwt_init_scc_metadata :: "host \<Rightarrow> u64 \<Rightarrow> u64" where
  "pwt_init_scc_metadata cur_host_id w = sm_set_scc_bit cur_host_id (sm_clear_all_scc_bits w)"

definition pwt_prepare_read :: "host \<Rightarrow> u64 \<Rightarrow> u64 \<times> bool" where
  "pwt_prepare_read cur_host_id w =
     (let cur_host_bit_index = cur_host_id + scc_bits_base_index in
      if \<not> sm_is_bit_set cur_host_bit_index w then (sm_set_bit cur_host_bit_index w, True)
      else (w, False))"

definition pwt_finish_write :: "host \<Rightarrow> u64 \<Rightarrow> (u64 \<times> bool) res" where
  "pwt_finish_write cur_host_id w =
     (let cur_host_bit_index = cur_host_id + scc_bits_base_index in
      check (sm_is_bit_set cur_host_bit_index w)
        (Inr (sm_set_scc_bit cur_host_id (sm_clear_all_scc_bits w), True)))"

definition pns_init_scc_metadata :: "host \<Rightarrow> u64 \<Rightarrow> u64" where
  "pns_init_scc_metadata cur_host_id w = sm_set_scc_bit cur_host_id (sm_clear_all_scc_bits w)"

definition pns_prepare_read :: "host \<Rightarrow> u64 \<Rightarrow> u64 \<times> bool" where
  "pns_prepare_read cur_host_id w =
     (let cur_host_bit_index = cur_host_id + scc_bits_base_index in
      if \<not> sm_is_bit_set cur_host_bit_index w
      then (sm_set_scc_bit cur_host_id (sm_clear_all_scc_bits w), True)
      else (w, False))"

definition pns_finish_write :: "host \<Rightarrow> u64 \<Rightarrow> (u64 \<times> bool) res" where
  "pns_finish_write cur_host_id w = Inr (sm_set_scc_bit cur_host_id (sm_clear_all_scc_bits w), True)"

definition pnt_prepare_read :: "host \<Rightarrow> u64 \<Rightarrow> u64 \<times> bool" where
  "pnt_prepare_read cur_host_id w = (w, True)"

definition pnt_finish_write :: "host \<Rightarrow> u64 \<Rightarrow> (u64 \<times> bool) res" where
  "pnt_finish_write cur_host_id w = Inr (w, True)"

text \<open>The virtual calls; a manager without an override does nothing.\<close>

definition init_scc_metadata :: "scc_manager \<Rightarrow> host \<Rightarrow> u64 \<Rightarrow> u64" where
  "init_scc_metadata m =
     (case m of
        TwoPLPashaSCCWriteThrough \<Rightarrow> pwt_init_scc_metadata
      | TwoPLPashaSCCWriteThroughNoSharedRead \<Rightarrow> pns_init_scc_metadata
      | _ \<Rightarrow> (\<lambda>_ w. w))"

definition prepare_read :: "scc_manager \<Rightarrow> host \<Rightarrow> u64 \<Rightarrow> u64 \<times> bool" where
  "prepare_read m =
     (case m of
        TwoPLPashaSCCWriteThrough \<Rightarrow> pwt_prepare_read
      | TwoPLPashaSCCWriteThroughNoSharedRead \<Rightarrow> pns_prepare_read
      | TwoPLPashaSCCNonTemporal \<Rightarrow> pnt_prepare_read
      | _ \<Rightarrow> (\<lambda>_ w. (w, False)))"

text \<open>
  Called with a null metadata pointer, the two write-through managers dereference it; the others
  never look at it.
\<close>

definition prepare_read_null :: "scc_manager \<Rightarrow> bool res" where
  "prepare_read_null m =
     (case m of
        TwoPLPashaSCCWriteThrough \<Rightarrow> Inl Bad_pointer
      | TwoPLPashaSCCWriteThroughNoSharedRead \<Rightarrow> Inl Bad_pointer
      | TwoPLPashaSCCNonTemporal \<Rightarrow> Inr True
      | _ \<Rightarrow> Inr False)"

text \<open>The new word and whether the lines were written back.\<close>

definition finish_write :: "scc_manager \<Rightarrow> host \<Rightarrow> u64 \<Rightarrow> (u64 \<times> bool) res" where
  "finish_write m =
     (case m of
        TwoPLPashaSCCWriteThrough \<Rightarrow> pwt_finish_write
      | TwoPLPashaSCCWriteThroughNoSharedRead \<Rightarrow> pns_finish_write
      | TwoPLPashaSCCNonTemporal \<Rightarrow> pnt_finish_write
      | _ \<Rightarrow> (\<lambda>_ w. Inr (w, False)))"

lemmas manager_defs =
  init_scc_metadata_def prepare_read_def finish_write_def
  pwt_init_scc_metadata_def pwt_prepare_read_def pwt_finish_write_def
  pns_init_scc_metadata_def pns_prepare_read_def pns_finish_write_def
  pnt_prepare_read_def pnt_finish_write_def

section \<open>The managers of SundialPasha, on a 16-bit bitmap\<close>

type_synonym u16 = "16 word"

definition wt_set_bit :: "u16 \<Rightarrow> nat \<Rightarrow> u16 res" where
  "wt_set_bit bitmap bit_index = check (bit_index < 16) (Inr (bitmap OR push_bit bit_index 1))"

definition wt_clear_bit :: "u16 \<Rightarrow> nat \<Rightarrow> u16 res" where
  "wt_clear_bit bitmap bit_index = check (bit_index < 16) (Inr (bitmap AND NOT (push_bit bit_index 1)))"

definition wt_clear_all_bits :: "u16 \<Rightarrow> u16" where
  "wt_clear_all_bits bitmap = 0"

definition wt_is_bit_set :: "u16 \<Rightarrow> nat \<Rightarrow> bool res" where
  "wt_is_bit_set bitmap bit_index = check (bit_index < 16) (Inr (bitmap AND push_bit bit_index 1 \<noteq> 0))"

definition wt_init_scc_metadata :: "host \<Rightarrow> u16 \<Rightarrow> u16 res" where
  "wt_init_scc_metadata cur_host_id meta = wt_set_bit (wt_clear_all_bits meta) cur_host_id"

text \<open>The metadata part of \<open>do_read\<close> (flush when the bit is clear) and \<open>do_write\<close>.\<close>

definition wt_do_read :: "host \<Rightarrow> u16 \<Rightarrow> (u16 \<times> bool) res" where
  "wt_do_read cur_host_id meta =
     bind_res (wt_is_bit_set meta cur_host_id) (\<lambda>b.
       if \<not> b then bind_res (wt_set_bit meta cur_host_id) (\<lambda>meta'. Inr (meta', True))
       else Inr (meta, False))"

definition wt_do_write :: "host \<Rightarrow> u16 \<Rightarrow> (u16 \<times> bool) res" where
  "wt_do_write cur_host_id meta =
     bind_res (wt_is_bit_set meta cur_host_id) (\<lambda>b.
       check b (bind_res (wt_set_bit (wt_clear_all_bits meta) cur_host_id) (\<lambda>meta'. Inr (meta', True))))"

section \<open>Cache lines\<close>

abbreviation (input) cacheline_size :: nat where "cacheline_size \<equiv> 64"

text \<open>
  The loop of \<open>clflush\<close> and \<open>clwb\<close>: the line addresses from \<open>addr & ~63\<close> in steps of 64 while
  below \<open>addr + len\<close>. Addresses are below \<open>2 ^ 47\<close>, so the loop variable does not wrap.
\<close>

function flush_loop :: "nat \<Rightarrow> nat \<Rightarrow> nat list" where
  "flush_loop ptr stop = (if ptr < stop then ptr # flush_loop (ptr + cacheline_size) stop else [])"
  by pat_completeness auto
termination
  by (relation "measure (\<lambda>(ptr, stop). stop - ptr)") auto

declare flush_loop.simps [simp del]

definition flush_lines :: "nat \<Rightarrow> nat \<Rightarrow> nat list" where
  "flush_lines addr len = map (\<lambda>ptr. ptr div cacheline_size)
     (flush_loop (addr - addr mod cacheline_size) (addr + len))"

text \<open>
  A machine of hosts with private caches over one memory. \<open>cmem\<close> is the memory by byte address;
  \<open>cache h l\<close> is the copy of line \<open>l\<close> that host \<open>h\<close> holds, with its dirty bit.
\<close>

record machine =
  cmem :: "nat \<Rightarrow> u8"
  cache :: "host \<Rightarrow> nat \<Rightarrow> (bool \<times> (nat \<Rightarrow> u8)) option"

definition seen :: "machine \<Rightarrow> host \<Rightarrow> nat \<Rightarrow> u8" where
  "seen M h a = (case cache M h (a div cacheline_size) of None \<Rightarrow> cmem M a | Some (_, copy) \<Rightarrow> copy a)"

definition write_back :: "machine \<Rightarrow> host \<Rightarrow> nat \<Rightarrow> nat \<Rightarrow> u8" where
  "write_back M h l = (case cache M h l of
      Some (True, copy) \<Rightarrow> (\<lambda>a. if a div cacheline_size = l then copy a else cmem M a)
    | _ \<Rightarrow> cmem M)"

definition clflush_line :: "host \<Rightarrow> nat \<Rightarrow> machine \<Rightarrow> machine" where
  "clflush_line h l M = M\<lparr>cmem := write_back M h l, cache := (cache M)(h := (cache M h)(l := None))\<rparr>"

definition clwb_line :: "host \<Rightarrow> nat \<Rightarrow> machine \<Rightarrow> machine" where
  "clwb_line h l M = M\<lparr>cmem := write_back M h l,
     cache := (cache M)(h := (cache M h)(l := map_option (\<lambda>(_, copy). (False, copy)) (cache M h l)))\<rparr>"

definition fill_line :: "host \<Rightarrow> nat \<Rightarrow> machine \<Rightarrow> machine" where
  "fill_line h l M = (case cache M h l of
      None \<Rightarrow> M\<lparr>cache := (cache M)(h := (cache M h)(l \<mapsto> (False, cmem M)))\<rparr>
    | Some _ \<Rightarrow> M)"

definition store_byte :: "host \<Rightarrow> nat \<Rightarrow> u8 \<Rightarrow> machine \<Rightarrow> machine" where
  "store_byte h a v M =
     (let M1 = fill_line h (a div cacheline_size) M in
      M1\<lparr>cache := (cache M1)(h := (cache M1 h)(a div cacheline_size :=
        map_option (\<lambda>(_, copy). (True, copy(a := v))) (cache M1 h (a div cacheline_size))))\<rparr>)"

definition clflush :: "host \<Rightarrow> nat \<Rightarrow> nat \<Rightarrow> machine \<Rightarrow> machine" where
  "clflush h addr len M = fold (clflush_line h) (flush_lines addr len) M"

definition clwb :: "host \<Rightarrow> nat \<Rightarrow> nat \<Rightarrow> machine \<Rightarrow> machine" where
  "clwb h addr len M = fold (clwb_line h) (flush_lines addr len) M"

text \<open>\<open>memcpy\<close> out of and into shared memory, through the host's cache.\<close>

definition load_bytes :: "host \<Rightarrow> nat \<Rightarrow> nat \<Rightarrow> machine \<Rightarrow> u8 list" where
  "load_bytes h src n M = map (seen M h) [src..<src + n]"

fun store_bytes :: "host \<Rightarrow> nat \<Rightarrow> u8 list \<Rightarrow> machine \<Rightarrow> machine" where
  "store_bytes h dst [] M = M"
| "store_bytes h dst (v # vs) M = store_bytes h (Suc dst) vs (store_byte h dst v M)"

text \<open>\<open>do_read\<close> and \<open>do_write\<close> of the managers whose coherence happens in them.\<close>

definition snt_do_read :: "host \<Rightarrow> nat \<Rightarrow> nat \<Rightarrow> machine \<Rightarrow> u8 list \<times> machine" where
  "snt_do_read h src n M = (let M' = clflush h src n M in (load_bytes h src n M', M'))"

definition snt_do_write :: "host \<Rightarrow> nat \<Rightarrow> u8 list \<Rightarrow> machine \<Rightarrow> machine" where
  "snt_do_write h dst bs M = clwb h dst (length bs) (store_bytes h dst bs M)"

definition noop_do_read :: "host \<Rightarrow> nat \<Rightarrow> nat \<Rightarrow> machine \<Rightarrow> u8 list" where
  "noop_do_read h src n M = load_bytes h src n M"

definition noop_do_write :: "host \<Rightarrow> nat \<Rightarrow> u8 list \<Rightarrow> machine \<Rightarrow> machine" where
  "noop_do_write h dst bs M = store_bytes h dst bs M"

section \<open>Lines of a range\<close>

lemma set_flush_loop:
  "set (flush_loop (64 * k) stop) = {64 * l | l. k \<le> l \<and> 64 * l < stop}"
proof (induction "64 * k" stop arbitrary: k rule: flush_loop.induct)
  case (1 stop)
  show ?case
  proof (cases "64 * k < stop")
    case True
    with "1" [of "Suc k"] have "set (flush_loop (64 * k + 64) stop) = {64 * l | l. Suc k \<le> l \<and> 64 * l < stop}"
      by (simp add: algebra_simps)
    with True show ?thesis
      by (subst flush_loop.simps) (auto simp: Suc_le_eq order_le_less)
  next
    case False
    then show ?thesis by (subst flush_loop.simps) auto
  qed
qed

lemma set_flush_lines: "set (flush_lines addr len) = {l. addr div 64 \<le> l \<and> 64 * l < addr + len}"
proof -
  have "addr - addr mod 64 = 64 * (addr div 64)"
    by (metis minus_mod_eq_mult_div)
  moreover have "(\<lambda>ptr. ptr div 64) ` {64 * l | l. P l} = {l :: nat. P l}" for P
    by force
  ultimately show ?thesis
    by (simp add: flush_lines_def set_flush_loop)
qed

lemma line_of_range:
  "addr \<le> a \<Longrightarrow> a < addr + len \<Longrightarrow> a div 64 \<in> set (flush_lines addr len)"
  by (auto simp: set_flush_lines div_le_mono)

section \<open>Hosts sharing one object\<close>

text \<open>
  One object of \<open>size\<close> bytes at \<open>base\<close>, whose row lock admits one writer at a time.
  \<open>latest\<close> records the bytes last stored; \<open>writing\<close> is the host between taking the write lock
  and \<open>finish_write\<close>. \<open>prep\<close> and \<open>fin\<close> are a manager's operations on the metadata, \<open>fsize\<close>
  the number of bytes \<open>finish_write\<close> is asked to write back.
\<close>

record 'm scc_sys =
  mach :: machine
  meta :: 'm
  writing :: "host option"
  latest :: "nat \<Rightarrow> u8"

definition run_prep :: "'m \<Rightarrow> bool \<Rightarrow> nat \<Rightarrow> nat \<Rightarrow> host \<Rightarrow> 'm scc_sys \<Rightarrow> 'm scc_sys" where
  "run_prep w flush base osize h s =
     s\<lparr>meta := w, mach := (if flush then clflush h base osize (mach s) else mach s)\<rparr>"

text \<open>
  \<open>keep\<close> relates metadata that differ in what the manager does not own (latch, locks, flags).
  The metadata hold a bit for each of 16 hosts.
\<close>

abbreviation (input) max_hosts :: nat where "max_hosts \<equiv> 16"

inductive scc_step ::
  "(host \<Rightarrow> 'm \<Rightarrow> ('m \<times> bool) res) \<Rightarrow> (host \<Rightarrow> 'm \<Rightarrow> ('m \<times> bool) res) \<Rightarrow> ('m \<Rightarrow> 'm \<Rightarrow> bool) \<Rightarrow>
     nat \<Rightarrow> nat \<Rightarrow> nat \<Rightarrow> 'm scc_sys \<Rightarrow> 'm scc_sys \<Rightarrow> bool"
  for prep fin keep base osize fsize where
  prepare: "h < max_hosts \<Longrightarrow> prep h (meta s) = Inr (w, fl) \<Longrightarrow>
    scc_step prep fin keep base osize fsize s (run_prep w fl base osize h s)"
| begin_write: "h < max_hosts \<Longrightarrow> writing s = None \<Longrightarrow> prep h (meta s) = Inr (w, fl) \<Longrightarrow>
    scc_step prep fin keep base osize fsize s ((run_prep w fl base osize h s)\<lparr>writing := Some h\<rparr>)"
| store: "writing s = Some h \<Longrightarrow> base \<le> a \<Longrightarrow> a < base + osize \<Longrightarrow>
    scc_step prep fin keep base osize fsize s
      (s\<lparr>mach := store_byte h a v (mach s), latest := (latest s)(a := v)\<rparr>)"
| finish: "writing s = Some h \<Longrightarrow> fin h (meta s) = Inr (w, wb) \<Longrightarrow>
    scc_step prep fin keep base osize fsize s
      (s\<lparr>meta := w, writing := None, mach := (if wb then clwb h base fsize (mach s) else mach s)\<rparr>)"
| other_meta: "keep (meta s) w \<Longrightarrow> scc_step prep fin keep base osize fsize s (s\<lparr>meta := w\<rparr>)"
| evict: "scc_step prep fin keep base osize fsize s (s\<lparr>mach := clflush_line h l (mach s)\<rparr>)"
| fetch: "scc_step prep fin keep base osize fsize s (s\<lparr>mach := fill_line h l (mach s)\<rparr>)"

text \<open>
  At the start nobody holds the object's lines: \<open>latest\<close> is what memory holds, and the
  metadata is as \<open>init_scc_metadata\<close> leaves it.
\<close>

inductive scc_reach ::
  "(host \<Rightarrow> 'm \<Rightarrow> ('m \<times> bool) res) \<Rightarrow> (host \<Rightarrow> 'm \<Rightarrow> ('m \<times> bool) res) \<Rightarrow> ('m \<Rightarrow> 'm \<Rightarrow> bool) \<Rightarrow>
     nat \<Rightarrow> nat \<Rightarrow> nat \<Rightarrow> 'm \<Rightarrow> 'm scc_sys \<Rightarrow> bool"
  for prep fin keep base osize fsize w0 where
  start: "scc_reach prep fin keep base osize fsize w0
     \<lparr>mach = \<lparr>cmem = mem, cache = (\<lambda>_ _. None)\<rparr>, meta = w0, writing = None, latest = mem\<rparr>"
| step: "scc_reach prep fin keep base osize fsize w0 s \<Longrightarrow>
     scc_step prep fin keep base osize fsize s t \<Longrightarrow> scc_reach prep fin keep base osize fsize w0 t"

lemma scc_reach_mono_keep:
  assumes "scc_reach prep fin keep base osize fsize w0 s" "\<And>w w'. keep w w' \<Longrightarrow> keep' w w'"
  shows "scc_reach prep fin keep' base osize fsize w0 s"
  using assms(1)
proof (induction rule: scc_reach.induct)
  case (step s t)
  have "scc_step prep fin keep' base osize fsize s t"
    using step.hyps(2) assms(2) by (induction rule: scc_step.induct) (blast intro: scc_step.intros)+
  with step.IH show ?case by (rule scc_reach.step)
qed (rule scc_reach.start)

definition dirty :: "machine \<Rightarrow> host \<Rightarrow> nat \<Rightarrow> bool" where
  "dirty M h l \<longleftrightarrow> (\<exists>copy. cache M h l = Some (True, copy))"

definition scc_inv :: "('m \<Rightarrow> host \<Rightarrow> bool) \<Rightarrow> nat \<Rightarrow> nat \<Rightarrow> 'm scc_sys \<Rightarrow> bool" where
  "scc_inv trusts base osize s \<longleftrightarrow>
     (\<forall>h l. dirty (mach s) h l \<longrightarrow> writing s = Some h \<and> l \<in> set (flush_lines base osize)) \<and>
     (\<forall>h a. base \<le> a \<and> a < base + osize \<and>
        (writing s = Some h \<or> writing s = None \<and> trusts (meta s) h) \<longrightarrow> seen (mach s) h a = latest s a) \<and>
     (\<forall>a. base \<le> a \<and> a < base + osize \<longrightarrow>
        cmem (mach s) a = latest s a \<or> (\<exists>h. writing s = Some h \<and> dirty (mach s) h (a div 64)))"

section \<open>Line operations and the invariant\<close>

lemma seen_clflush_same:
  "seen (clflush_line h l M) h a = (if a div 64 = l \<and> \<not> dirty M h l then cmem M a else seen M h a)"
  by (auto simp: seen_def clflush_line_def write_back_def dirty_def split: option.splits bool.splits)

lemma cmem_clflush: "cmem (clflush_line h l M) a = (if dirty M h l \<and> a div 64 = l then seen M h a else cmem M a)"
  by (auto simp: clflush_line_def write_back_def dirty_def seen_def split: option.splits bool.splits)

lemma cmem_clwb: "cmem (clwb_line h l M) a = (if dirty M h l \<and> a div 64 = l then seen M h a else cmem M a)"
  by (auto simp: clwb_line_def write_back_def dirty_def seen_def split: option.splits bool.splits)

lemma cache_line_op:
  "cache (clflush_line h l M) g k = (if g = h \<and> k = l then None else cache M g k)"
  "cache (clwb_line h l M) g k = (if g = h \<and> k = l then map_option (\<lambda>(_, c). (False, c)) (cache M h l)
     else cache M g k)"
  by (simp_all add: clflush_line_def clwb_line_def)

lemma dirty_line_op:
  "dirty (clflush_line h l M) g k \<longleftrightarrow> dirty M g k \<and> \<not> (g = h \<and> k = l)"
  "dirty (clwb_line h l M) g k \<longleftrightarrow> dirty M g k \<and> \<not> (g = h \<and> k = l)"
  "dirty (fill_line h l M) g k \<longleftrightarrow> dirty M g k"
  by (auto simp: dirty_def cache_line_op fill_line_def split: option.splits)

lemma seen_clwb_same: "seen (clwb_line h l M) h a = seen M h a"
  by (auto simp: seen_def cache_line_op cmem_clwb dirty_def split: option.splits)

lemma seen_fill: "seen (fill_line h l M) g a = seen M g a"
  by (auto simp: seen_def fill_line_def split: option.splits)

lemma cmem_fill [simp]: "cmem (fill_line h l M) = cmem M"
  by (simp add: fill_line_def split: option.splits)

lemma seen_other_clean:
  "g \<noteq> h \<Longrightarrow> \<not> dirty M h l \<Longrightarrow> seen (clflush_line h l M) g a = seen M g a"
  by (simp add: seen_def cache_line_op cmem_clflush split: option.split)

lemma seen_store: "seen (store_byte h a v M) h = (seen M h)(a := v)"
  by (auto simp: fun_eq_iff seen_def store_byte_def fill_line_def Let_def split: option.splits)

lemma dirty_store: "dirty (store_byte h a v M) g k \<longleftrightarrow> dirty M g k \<or> g = h \<and> k = a div 64"
  by (auto simp: dirty_def store_byte_def fill_line_def Let_def split: option.splits)

lemma cmem_store [simp]: "cmem (store_byte h a v M) = cmem M"
  by (simp add: store_byte_def Let_def)

lemma scc_invI:
  assumes "\<And>h l. dirty (mach s) h l \<Longrightarrow> writing s = Some h \<and> l \<in> set (flush_lines base osize)"
    and "\<And>h a. base \<le> a \<Longrightarrow> a < base + osize \<Longrightarrow>
        writing s = Some h \<or> writing s = None \<and> trusts (meta s) h \<Longrightarrow> seen (mach s) h a = latest s a"
    and "\<And>a. base \<le> a \<Longrightarrow> a < base + osize \<Longrightarrow>
        cmem (mach s) a \<noteq> latest s a \<Longrightarrow> \<exists>h. writing s = Some h \<and> dirty (mach s) h (a div 64)"
  shows "scc_inv trusts base osize s"
  using assms unfolding scc_inv_def by blast

lemma scc_invD:
  assumes "scc_inv trusts base osize s"
  shows "dirty (mach s) h l \<Longrightarrow> writing s = Some h \<and> l \<in> set (flush_lines base osize)"
    and "base \<le> a \<Longrightarrow> a < base + osize \<Longrightarrow>
        writing s = Some h \<or> writing s = None \<and> trusts (meta s) h \<Longrightarrow> seen (mach s) h a = latest s a"
    and "base \<le> a \<Longrightarrow> a < base + osize \<Longrightarrow>
        cmem (mach s) a \<noteq> latest s a \<Longrightarrow> \<exists>h. writing s = Some h \<and> dirty (mach s) h (a div 64)"
  using assms unfolding scc_inv_def by blast+

lemma inv_clflush_line:
  assumes inv: "scc_inv trusts base osize s"
  shows "scc_inv trusts base osize (s\<lparr>mach := clflush_line h l (mach s)\<rparr>)"
proof (rule scc_invI, simp_all add: dirty_line_op)
  show "writing s = Some g \<and> k \<in> set (flush_lines base osize)"
    if "dirty (mach s) g k \<and> (g = h \<longrightarrow> k \<noteq> l)" for g k
    using scc_invD(1) [OF inv] that by blast
next
  fix g a
  assume a: "base \<le> a" "a < base + osize" and g: "writing s = Some g \<or> writing s = None \<and> trusts (meta s) g"
  have "seen (mach s) g a = latest s a"
    using scc_invD(2) [OF inv a g] .
  moreover have "g = h \<Longrightarrow> \<not> dirty (mach s) h (a div 64) \<Longrightarrow> cmem (mach s) a = latest s a"
    using scc_invD(3) [OF inv a] g by fastforce
  moreover have "g \<noteq> h \<Longrightarrow> \<not> dirty (mach s) h l"
    using scc_invD(1) [OF inv, of h l] g by auto
  ultimately show "seen (clflush_line h l (mach s)) g a = latest s a"
    by (cases "g = h") (auto simp: seen_clflush_same seen_other_clean)
next
  fix a
  assume a: "base \<le> a" "a < base + osize" and ne: "cmem (clflush_line h l (mach s)) a \<noteq> latest s a"
  show "\<exists>g. writing s = Some g \<and> dirty (mach s) g (a div 64) \<and> (g = h \<longrightarrow> a div 64 \<noteq> l)"
  proof (cases "dirty (mach s) h l \<and> a div 64 = l")
    case True
    then have "seen (mach s) h a = latest s a"
      using scc_invD(1,2) [OF inv] a by blast
    with True ne show ?thesis by (simp add: cmem_clflush)
  next
    case False
    then have "cmem (mach s) a \<noteq> latest s a"
      using ne by (auto simp: cmem_clflush)
    with False show ?thesis
      using scc_invD(3) [OF inv a] by auto
  qed
qed

lemma inv_fill_line:
  "scc_inv trusts base osize s \<Longrightarrow> scc_inv trusts base osize (s\<lparr>mach := fill_line h l (mach s)\<rparr>)"
  by (simp add: scc_inv_def dirty_line_op seen_fill)

lemma inv_clflush:
  assumes "scc_inv trusts base osize s"
  shows "scc_inv trusts base osize (s\<lparr>mach := clflush h addr len (mach s)\<rparr>)"
proof -
  have "scc_inv trusts base osize (s\<lparr>mach := fold (clflush_line h) ls (mach s)\<rparr>)" for ls
    using assms
  proof (induction ls arbitrary: s)
    case (Cons l ls)
    show ?case
      using Cons.IH [OF inv_clflush_line [OF Cons.prems]] by simp
  qed simp
  then show ?thesis by (simp add: clflush_def)
qed

lemma cache_clflush:
  "cache (clflush h addr len M) h l = (if l \<in> set (flush_lines addr len) then None else cache M h l)"
proof -
  have "cache (fold (clflush_line h) ls M) h l = (if l \<in> set ls then None else cache M h l)" for ls
    by (induction ls arbitrary: M) (auto simp: cache_line_op)
  then show ?thesis by (simp add: clflush_def)
qed

lemma cmem_clflush_range:
  "cmem (clflush h addr len M) a =
     (if dirty M h (a div 64) \<and> a div 64 \<in> set (flush_lines addr len) then seen M h a else cmem M a)"
proof -
  have "cmem (fold (clflush_line h) ls M) a =
      (if dirty M h (a div 64) \<and> a div 64 \<in> set ls then seen M h a else cmem M a)" for ls
    by (induction ls arbitrary: M) (auto simp: dirty_line_op cmem_clflush seen_clflush_same)
  then show ?thesis by (simp add: clflush_def)
qed

lemma seen_flushed:
  "addr \<le> a \<Longrightarrow> a < addr + len \<Longrightarrow> \<not> dirty M h (a div 64) \<Longrightarrow> seen (clflush h addr len M) h a = cmem M a"
  using line_of_range [of addr a len] by (simp add: seen_def cache_clflush cmem_clflush_range)

lemma cache_clwb_other: "g \<noteq> h \<Longrightarrow> cache (clwb h addr len M) g = cache M g"
proof -
  assume "g \<noteq> h"
  then have "cache (fold (clwb_line h) ls M) g = cache M g" for ls
    by (induction ls arbitrary: M) (simp_all add: cache_line_op fun_eq_iff)
  then show ?thesis by (simp add: clwb_def)
qed

lemma cache_store_other: "g \<noteq> h \<Longrightarrow> cache (store_byte h a v M) g = cache M g"
  by (simp add: store_byte_def fill_line_def Let_def split: option.split)

lemma dirty_clwb:
  "dirty (clwb h addr len M) g k \<longleftrightarrow> dirty M g k \<and> \<not> (g = h \<and> k \<in> set (flush_lines addr len))"
proof -
  have "dirty (fold (clwb_line h) ls M) g k \<longleftrightarrow> dirty M g k \<and> \<not> (g = h \<and> k \<in> set ls)" for ls
    by (induction ls arbitrary: M) (auto simp: dirty_line_op)
  then show ?thesis by (simp add: clwb_def)
qed

lemma seen_clwb [simp]: "seen (clwb h addr len M) h a = seen M h a"
proof -
  have "seen (fold (clwb_line h) ls M) h a = seen M h a" for ls
    by (induction ls arbitrary: M) (simp_all add: seen_clwb_same)
  then show ?thesis by (simp add: clwb_def)
qed

lemma cmem_clwb_range:
  "cmem (clwb h addr len M) a =
     (if dirty M h (a div 64) \<and> a div 64 \<in> set (flush_lines addr len) then seen M h a else cmem M a)"
proof -
  have "cmem (fold (clwb_line h) ls M) a =
      (if dirty M h (a div 64) \<and> a div 64 \<in> set ls then seen M h a else cmem M a)" for ls
    by (induction ls arbitrary: M) (auto simp: dirty_line_op cmem_clwb seen_clwb_same)
  then show ?thesis by (simp add: clwb_def)
qed

lemma store_bytes_simps:
  "cmem (store_bytes h dst bs M) = cmem M"
  "g \<noteq> h \<Longrightarrow> cache (store_bytes h dst bs M) g = cache M g"
  by (induction bs arbitrary: dst M) (simp_all add: cache_store_other)

lemma dirty_store_bytes_other: "g \<noteq> h \<Longrightarrow> dirty (store_bytes h dst bs M) g k = dirty M g k"
  by (simp add: dirty_def store_bytes_simps)

lemma seen_store_bytes:
  "seen (store_bytes h dst bs M) h a =
     (if dst \<le> a \<and> a < dst + length bs then bs ! (a - dst) else seen M h a)"
  by (induction bs arbitrary: dst M) (auto simp: seen_store nth_Cons' Suc_diff_le)

lemma dirty_store_bytes:
  "dst \<le> a \<Longrightarrow> a < dst + length bs \<Longrightarrow> dirty (store_bytes h dst bs M) h (a div 64)"
proof (induction bs arbitrary: dst M)
  case (Cons v bs)
  have mono: "dirty M h k \<Longrightarrow> dirty (store_bytes h dst bs M) h k" for dst k M
    by (induction bs arbitrary: dst M) (simp_all add: dirty_store)
  show ?case
    using Cons by (cases "a = dst") (simp_all add: mono dirty_store)
qed simp

lemma flush_lines_mono: "osize \<le> fsize \<Longrightarrow> set (flush_lines base osize) \<subseteq> set (flush_lines base fsize)"
  by (auto simp: set_flush_lines)

lemma inv_store:
  assumes "scc_inv trusts base osize s" "writing s = Some h" "base \<le> a" "a < base + osize"
  shows "scc_inv trusts base osize (s\<lparr>mach := store_byte h a v (mach s), latest := (latest s)(a := v)\<rparr>)"
  using assms line_of_range [of base a osize]
  by (simp add: scc_inv_def dirty_store seen_store) blast

text \<open>
  After \<open>clwb\<close> over the whole object memory holds the latest bytes; a host that has none of the
  object's lines, or that is the writer itself, then sees them.
\<close>

lemma inv_finish:
  assumes inv: "scc_inv trusts base osize s" and w: "writing s = Some h" and "osize \<le> fsize"
    and trust: "\<And>g. trusts w' g \<Longrightarrow> g = h"
  shows "scc_inv trusts base osize (s\<lparr>meta := w', writing := None, mach := clwb h base fsize (mach s)\<rparr>)"
proof -
  have sub: "l \<in> set (flush_lines base fsize)" if "l \<in> set (flush_lines base osize)" for l
    using flush_lines_mono [OF \<open>osize \<le> fsize\<close>] that by auto
  have clean: "\<not> dirty (clwb h base fsize (mach s)) g l" for g l
  proof
    assume d: "dirty (clwb h base fsize (mach s)) g l"
    then have "writing s = Some g \<and> l \<in> set (flush_lines base osize)"
      using scc_invD(1) [OF inv, of g l] by (simp add: dirty_clwb)
    with d w sub show False by (simp add: dirty_clwb)
  qed
  have "cmem (clwb h base fsize (mach s)) a = latest s a" if "base \<le> a" "a < base + osize" for a
    using scc_invD(2) [OF inv that, of h] scc_invD(3) [OF inv that] w sub [OF line_of_range [OF that]]
    by (cases "dirty (mach s) h (a div 64)") (auto simp: cmem_clwb_range)
  moreover have "seen (clwb h base fsize (mach s)) g a = latest s a"
    if "base \<le> a" "a < base + osize" "trusts w' g" for g a
    using scc_invD(2) [OF inv that(1,2)] w trust [OF that(3)] by simp
  ultimately show ?thesis
    using clean by (simp add: scc_inv_def)
qed


section \<open>The contract of a manager\<close>

text \<open>
  \<open>trusts w h\<close>: with metadata \<open>w\<close>, \<open>prepare_read\<close> on host \<open>h\<close> does not flush. A manager is
  correct when it flushes for every host it does not trust, starts to trust nobody but the host
  that has just flushed, and after a write trusts nobody but the writer, whose lines it has
  written back. A manager that lets the word carry other data says which words are well formed.
\<close>

locale coherence_manager =
  fixes prep :: "host \<Rightarrow> 'm \<Rightarrow> ('m \<times> bool) res"
    and fin :: "host \<Rightarrow> 'm \<Rightarrow> ('m \<times> bool) res"
    and keep :: "'m \<Rightarrow> 'm \<Rightarrow> bool"
    and trusts :: "'m \<Rightarrow> host \<Rightarrow> bool"
  assumes flush_unless_trusted: "h < max_hosts \<Longrightarrow> prep h w = Inr (w', False) \<Longrightarrow> trusts w h"
    and prep_trusts: "prep h w = Inr (w', fl) \<Longrightarrow> trusts w' g \<Longrightarrow> trusts w g \<or> g = h"
    and fin_writes_back: "fin h w = Inr (w', wb) \<Longrightarrow> wb"
    and fin_trusts: "fin h w = Inr (w', wb) \<Longrightarrow> trusts w' g \<Longrightarrow> g = h"
    and keep_trusts: "keep w w' \<Longrightarrow> trusts w' g \<Longrightarrow> trusts w g"
begin

lemma inv_other_meta:
  assumes "scc_inv trusts base osize s" "keep (meta s) w"
  shows "scc_inv trusts base osize (s\<lparr>meta := w\<rparr>)"
  using assms keep_trusts [OF assms(2)] by (auto simp: scc_inv_def)

lemma inv_prep:
  assumes inv: "scc_inv trusts base osize s" and p: "prep h (meta s) = Inr (w, fl)" and h: "h < max_hosts"
  shows "scc_inv trusts base osize (run_prep w fl base osize h s)"
    and "writing s = None \<Longrightarrow> base \<le> a \<Longrightarrow> a < base + osize \<Longrightarrow>
      seen (mach (run_prep w fl base osize h s)) h a = latest s a"
proof -
  define t where "t = (if fl then s\<lparr>mach := clflush h base osize (mach s)\<rparr> else s)"
  have t: "run_prep w fl base osize h s = t\<lparr>meta := w\<rparr>"
    by (simp add: run_prep_def t_def)
  have inv_t: "scc_inv trusts base osize t"
    using inv by (simp add: t_def inv_clflush)
  have same: "writing t = writing s" "latest t = latest s" "meta t = meta s"
    by (simp_all add: t_def)
  have new: "seen (mach t) h b = latest s b" if "writing s = None" "base \<le> b" "b < base + osize" for b
  proof (cases fl)
    case True
    then have "seen (mach t) h b = cmem (mach t) b"
      using line_of_range [OF that(2,3)] by (simp add: t_def seen_def cache_clflush)
    then show ?thesis
      using scc_invD(3) [OF inv_t that(2,3)] that same by fastforce
  next
    case False
    then show ?thesis
      using p flush_unless_trusted [OF h] scc_invD(2) [OF inv that(2,3)] that by (auto simp: t_def)
  qed
  show "writing s = None \<Longrightarrow> base \<le> a \<Longrightarrow> a < base + osize \<Longrightarrow>
      seen (mach (run_prep w fl base osize h s)) h a = latest s a"
    using new by (simp add: t)
  show "scc_inv trusts base osize (run_prep w fl base osize h s)"
    unfolding t
  proof (rule scc_invI, simp_all)
    show "writing t = Some g \<and> l \<in> set (flush_lines base osize)" if "dirty (mach t) g l" for g l
      using scc_invD(1) [OF inv_t that] .
    show "seen (mach t) g b = latest t b"
      if "base \<le> b" "b < base + osize" "writing t = Some g \<or> writing t = None \<and> trusts w g" for g b
      using that new prep_trusts [OF p] scc_invD(2) [OF inv_t that(1,2)] same by metis
    show "\<exists>g. writing t = Some g \<and> dirty (mach t) g (b div 64)"
      if "base \<le> b" "b < base + osize" "cmem (mach t) b \<noteq> latest t b" for b
      using scc_invD(3) [OF inv_t that] .
  qed
qed

lemma inv_start_writing:
  assumes "scc_inv trusts base osize s" "prep h (meta s) = Inr (w, fl)" "h < max_hosts" "writing s = None"
  shows "scc_inv trusts base osize ((run_prep w fl base osize h s)\<lparr>writing := Some h\<rparr>)"
proof -
  define r where "r = run_prep w fl base osize h s"
  have none: "writing r = None" and same: "latest r = latest s"
    using assms(4) by (simp_all add: run_prep_def r_def)
  have inv: "scc_inv trusts base osize r"
    using inv_prep(1) [OF assms(1-3)] by (simp add: r_def)
  show ?thesis
    unfolding r_def [symmetric]
  proof (rule scc_invI)
    show "writing (r\<lparr>writing := Some h\<rparr>) = Some g \<and> l \<in> set (flush_lines base osize)"
      if "dirty (mach (r\<lparr>writing := Some h\<rparr>)) g l" for g l
      using scc_invD(1) [OF inv, of g l] that none by simp
    show "seen (mach (r\<lparr>writing := Some h\<rparr>)) g a = latest (r\<lparr>writing := Some h\<rparr>) a"
      if "base \<le> a" "a < base + osize"
        "writing (r\<lparr>writing := Some h\<rparr>) = Some g \<or>
         writing (r\<lparr>writing := Some h\<rparr>) = None \<and> trusts (meta (r\<lparr>writing := Some h\<rparr>)) g" for g a
      using inv_prep(2) [OF assms that(1,2)] that(3) same by (simp add: r_def)
    show "\<exists>g. writing (r\<lparr>writing := Some h\<rparr>) = Some g \<and> dirty (mach (r\<lparr>writing := Some h\<rparr>)) g (a div 64)"
      if "base \<le> a" "a < base + osize"
        "cmem (mach (r\<lparr>writing := Some h\<rparr>)) a \<noteq> latest (r\<lparr>writing := Some h\<rparr>) a" for a
      using scc_invD(3) [OF inv that(1,2)] that(3) none by simp
  qed
qed

lemma inv_step:
  assumes "scc_step prep fin keep base osize fsize s t" "scc_inv trusts base osize s" "osize \<le> fsize"
  shows "scc_inv trusts base osize t"
  using assms
proof (induction rule: scc_step.induct)
  case (finish s h w wb)
  then show ?case
    using inv_finish [of trusts base osize s h fsize w] fin_writes_back [OF finish(2)]
      fin_trusts [OF finish(2)] by simp
qed (simp_all add: inv_prep inv_start_writing inv_store inv_clflush_line inv_fill_line inv_other_meta)

lemma inv_reach:
  assumes "scc_reach prep fin keep base osize fsize w0 s" "osize \<le> fsize"
  shows "scc_inv trusts base osize s"
  using assms
proof (induction rule: scc_reach.induct)
  case (start mem)
  show ?case by (rule scc_invI) (simp_all add: dirty_def seen_def)
qed (blast intro: inv_step)

lemma read_latest:
  assumes "scc_reach prep fin keep base osize fsize w0 s" "osize \<le> fsize" "writing s = None"
    "h < max_hosts" "prep h (meta s) = Inr (w, fl)" "base \<le> a" "a < base + osize"
  shows "seen (mach (run_prep w fl base osize h s)) h a = latest s a"
  using inv_prep(2) [OF inv_reach [OF assms(1,2)] assms(5,4,3,6,7)] .

end

section \<open>The managers keep the contract\<close>

definition host_bit :: "u64 \<Rightarrow> host \<Rightarrow> bool" where
  "host_bit w h \<longleftrightarrow> h < 16 \<and> bit w (h + 47)"

definition keep_scc_bits :: "u64 \<Rightarrow> u64 \<Rightarrow> bool" where
  "keep_scc_bits w w' \<longleftrightarrow> fld 47 16 w' = fld 47 16 w"

lemma bit_of_fld: "k < len \<Longrightarrow> bit (fld off len w) k \<longleftrightarrow> bit w (k + off)"
  by (simp add: bit_fld add.commute)

lemma keep_host_bit: "keep_scc_bits w w' \<Longrightarrow> host_bit w' g = host_bit w g"
  unfolding keep_scc_bits_def host_bit_def by (metis bit_of_fld)

lemma host_bit_reads: "h < 16 \<Longrightarrow> sm_is_bit_set (h + 47) w \<longleftrightarrow> host_bit w h"
  by (simp add: host_bit_def fields)

lemma host_bit_writes:
  "host_bit (sm_set_bit (h + 47) w) g \<longleftrightarrow> host_bit w g \<or> g < 16 \<and> g = h"
  "host_bit (sm_set_scc_bit h (sm_clear_all_scc_bits w)) g \<longleftrightarrow> g < 16 \<and> g = h"
  by (auto simp: host_bit_def sm_set_bit_def sm_set_scc_bit_def fields bit_upd_fld bit_simps)

interpretation wt: coherence_manager "\<lambda>h w. Inr (prepare_read TwoPLPashaSCCWriteThrough h w)"
  "finish_write TwoPLPashaSCCWriteThrough" keep_scc_bits host_bit
proof
qed (auto simp: manager_defs host_bit_reads host_bit_writes keep_host_bit
      res_iffs Let_def split: if_splits)

interpretation wtns: coherence_manager "\<lambda>h w. Inr (prepare_read TwoPLPashaSCCWriteThroughNoSharedRead h w)"
  "finish_write TwoPLPashaSCCWriteThroughNoSharedRead" keep_scc_bits host_bit
proof
qed (auto simp: manager_defs host_bit_reads host_bit_writes keep_host_bit
      res_iffs Let_def split: if_splits)

interpretation nt: coherence_manager "\<lambda>h w. Inr (prepare_read TwoPLPashaSCCNonTemporal h w)"
  "finish_write TwoPLPashaSCCNonTemporal" "\<lambda>_ _. True" "\<lambda>_ _. False"
proof
qed (auto simp: manager_defs)

lemma wt_bits:
  "wt_is_bit_set m h = check (h < 16) (Inr (bit m h))"
  "h < 16 \<Longrightarrow> wt_set_bit m h = Inr (m OR push_bit h 1)"
  by (auto simp: wt_is_bit_set_def wt_set_bit_def check_def push_bit_eq_mult and_exp_eq_0_iff_not_bit)

interpretation swt: coherence_manager wt_do_read wt_do_write "(=)" "\<lambda>m h. h < 16 \<and> bit m h"
proof
qed (auto simp: wt_do_read_def wt_do_write_def wt_bits wt_set_bit_def wt_clear_all_bits_def res_iffs
      bit_simps split: if_splits)

section \<open>Properties\<close>

text \<open>
  C1: With any of the three coherent managers of TwoPLPasha, whatever the hosts have read, written
  and flushed and whatever lines the hardware has evicted or fetched, a host that runs
  \<open>prepare_read\<close> while nobody is writing sees the bytes last written to the object, provided
  \<open>finish_write\<close> is asked to write back the whole object.
\<close>

theorem prepare_read_latest:
  assumes "m \<in> {TwoPLPashaSCCWriteThrough, TwoPLPashaSCCWriteThroughNoSharedRead, TwoPLPashaSCCNonTemporal}"
    and "scc_reach (\<lambda>h w. Inr (prepare_read m h w)) (finish_write m) keep_scc_bits base osize fsize w0 s"
    and "osize \<le> fsize" "writing s = None" "h < max_hosts"
    and "prepare_read m h (meta s) = (w, fl)" "base \<le> a" "a < base + osize"
  shows "seen (mach (run_prep w fl base osize h s)) h a = latest s a"
proof -
  consider "m = TwoPLPashaSCCWriteThrough" | "m = TwoPLPashaSCCWriteThroughNoSharedRead"
    | "m = TwoPLPashaSCCNonTemporal" using assms(1) by blast
  then show ?thesis
  proof cases
    case 1
    show ?thesis
      using wt.read_latest [OF assms(2) [unfolded 1] assms(3-5)] assms(6-8) 1 by simp
  next
    case 2
    show ?thesis
      using wtns.read_latest [OF assms(2) [unfolded 2] assms(3-5)] assms(6-8) 2 by simp
  next
    case 3
    show ?thesis
      using nt.read_latest [OF scc_reach_mono_keep [OF assms(2) [unfolded 3], of "\<lambda>_ _. True"] assms(3-5)]
        assms(6-8) 3 by simp
  qed
qed

text \<open>
  A run of the write-through manager: host 0, whose bit \<open>init_scc_metadata\<close> has set, writes byte
  \<open>a\<close> of the object and finishes with \<open>fsize\<close> bytes to write back.
\<close>

definition wt_word :: u64 where
  "wt_word = init_scc_metadata TwoPLPashaSCCWriteThrough 0 0"

definition one_write :: "nat \<Rightarrow> nat \<Rightarrow> nat \<Rightarrow> u8 \<Rightarrow> u64 scc_sys" where
  "one_write base fsize a v =
     \<lparr>mach = clwb 0 base fsize (store_byte 0 a v \<lparr>cmem = (\<lambda>_. 0), cache = (\<lambda>_ _. None)\<rparr>),
      meta = wt_word, writing = None, latest = (\<lambda>_. 0)(a := v)\<rparr>"

lemma wt_word_ops:
  "prepare_read TwoPLPashaSCCWriteThrough 0 wt_word = (wt_word, False)"
  "finish_write TwoPLPashaSCCWriteThrough 0 wt_word = Inr (wt_word, True)"
  "prepare_read TwoPLPashaSCCWriteThrough 1 wt_word = (sm_set_bit 48 wt_word, True)"
  by (simp_all add: word_exec manager_defs wt_word_def check_def)

abbreviation (input) wt_step :: "nat \<Rightarrow> nat \<Rightarrow> nat \<Rightarrow> u64 scc_sys \<Rightarrow> u64 scc_sys \<Rightarrow> bool" where
  "wt_step \<equiv> scc_step (\<lambda>h w. Inr (prepare_read TwoPLPashaSCCWriteThrough h w))
     (finish_write TwoPLPashaSCCWriteThrough) keep_scc_bits"

lemma wt_steps:
  "wt_step base osize fsize \<lparr>mach = M, meta = wt_word, writing = None, latest = L\<rparr>
     \<lparr>mach = M, meta = wt_word, writing = Some 0, latest = L\<rparr>"
  "base \<le> a \<Longrightarrow> a < base + osize \<Longrightarrow>
   wt_step base osize fsize \<lparr>mach = M, meta = wt_word, writing = Some 0, latest = L\<rparr>
     \<lparr>mach = store_byte 0 a v M, meta = wt_word, writing = Some 0, latest = L(a := v)\<rparr>"
  "wt_step base osize fsize \<lparr>mach = M, meta = wt_word, writing = Some 0, latest = L\<rparr>
     \<lparr>mach = clwb 0 base fsize M, meta = wt_word, writing = None, latest = L\<rparr>"
  using scc_step.begin_write [of 0 "\<lparr>mach = M, meta = wt_word, writing = None, latest = L\<rparr>"
      "\<lambda>h w. Inr (prepare_read TwoPLPashaSCCWriteThrough h w)" wt_word False
      "finish_write TwoPLPashaSCCWriteThrough" keep_scc_bits base osize fsize]
    scc_step.store [of "\<lparr>mach = M, meta = wt_word, writing = Some 0, latest = L\<rparr>" 0 base a osize
      "\<lambda>h w. Inr (prepare_read TwoPLPashaSCCWriteThrough h w)" "finish_write TwoPLPashaSCCWriteThrough"
      keep_scc_bits fsize v]
    scc_step.finish [of "\<lparr>mach = M, meta = wt_word, writing = Some 0, latest = L\<rparr>" 0
      "finish_write TwoPLPashaSCCWriteThrough" wt_word True
      "\<lambda>h w. Inr (prepare_read TwoPLPashaSCCWriteThrough h w)" keep_scc_bits base osize fsize]
  by (simp_all add: run_prep_def wt_word_ops)

lemma one_write_reach:
  assumes "base \<le> a" "a < base + osize"
  shows "scc_reach (\<lambda>h w. Inr (prepare_read TwoPLPashaSCCWriteThrough h w))
    (finish_write TwoPLPashaSCCWriteThrough) keep_scc_bits base osize fsize wt_word (one_write base fsize a v)"
  unfolding one_write_def
  by (rule scc_reach.step [OF scc_reach.step [OF scc_reach.step [OF scc_reach.start wt_steps(1)]
        wt_steps(2) [OF assms]] wt_steps(3)])

theorem prepare_read_latest_witness:
  "seen (mach (run_prep (sm_set_bit 48 wt_word) True 0 1040 1 (one_write 0 1040 1030 7))) 1 1030 = 7"
  using prepare_read_latest [OF _ one_write_reach [of 0 1030 1040 1040 7], of 1 "sm_set_bit 48 wt_word" True 1030]
    wt_word_ops(3)
  by (simp add: one_write_def)

text \<open>
  C2: The write-back size matters. The lock-releasing update of a row of 1000 bytes passes
  \<open>sizeof(TwoPLPashaMetadataShared) + 1000\<close>, that is 1008 bytes, for an object of 1040 bytes
  (\<open>sizeof(TwoPLPashaSharedDataSCC) + 1000\<close>). Then a write of host 0 to byte 1030, finished, stays in
  its cache: host 1 flushes, reads, and gets the old byte.
\<close>

theorem short_write_back_stale_read:
  "\<exists>s w. scc_reach (\<lambda>h w. Inr (prepare_read TwoPLPashaSCCWriteThrough h w))
       (finish_write TwoPLPashaSCCWriteThrough) keep_scc_bits 0 (40 + 1000) (8 + 1000) wt_word s \<and>
     writing s = None \<and> prepare_read TwoPLPashaSCCWriteThrough 1 (meta s) = (w, True) \<and>
     seen (mach (run_prep w True 0 (40 + 1000) 1 s)) 1 1030 \<noteq> latest s 1030"
proof -
  let ?s = "one_write 0 1008 1030 7"
  have "cmem (mach ?s) 1030 = 0"
    by (simp add: one_write_def cmem_clwb_range set_flush_lines)
  moreover have "cache (mach ?s) 1 = (\<lambda>_. None)"
    by (simp add: one_write_def cache_clwb_other cache_store_other)
  ultimately have "seen (clflush 1 0 1040 (mach ?s)) 1 1030 = 0"
    by (simp add: seen_flushed dirty_def)
  then have "seen (mach (run_prep (sm_set_bit 48 wt_word) True 0 1040 1 ?s)) 1 1030 \<noteq> latest ?s 1030"
    by (simp add: run_prep_def one_write_def)
  then show ?thesis
    using one_write_reach [of 0 1030 1040 1008 7] wt_word_ops(3)
    by (intro exI [of _ ?s] exI [of _ "sm_set_bit 48 wt_word"]) (simp add: one_write_def)
qed

text \<open>
  C3: The \<open>CHECK\<close> in \<open>finish_write\<close> of the write-through manager never fires: from
  \<open>prepare_read\<close> under the write lock until \<open>finish_write\<close> the writer's bit stays set, whatever
  the other hosts do.
\<close>

theorem finish_write_enabled:
  assumes "scc_reach (\<lambda>h w. Inr (prepare_read TwoPLPashaSCCWriteThrough h w))
       (finish_write TwoPLPashaSCCWriteThrough) keep_scc_bits base osize fsize w0 s"
    and "writing s = Some h"
  shows "\<exists>w. finish_write TwoPLPashaSCCWriteThrough h (meta s) = Inr (w, True)"
proof -
  have "h < 16 \<and> host_bit (meta s) h"
    using assms
  proof (induction rule: scc_reach.induct)
    case (step s t)
    from step.hyps(2) step.IH step.prems show ?case
      by (induction rule: scc_step.induct)
        (auto simp: manager_defs run_prep_def Let_def host_bit_writes host_bit_reads keep_host_bit
          split: if_splits)
  qed simp
  then show ?thesis
    by (simp add: manager_defs Let_def host_bit_reads res_iffs)
qed

theorem finish_write_enabled_witness:
  "\<exists>w. finish_write TwoPLPashaSCCWriteThrough 0
     (meta (\<lparr>mach = \<lparr>cmem = (\<lambda>_. 0), cache = (\<lambda>_ _. None)\<rparr>, meta = wt_word, writing = Some 0,
        latest = (\<lambda>_. 0)\<rparr> :: u64 scc_sys)) = Inr (w, True)"
proof (rule finish_write_enabled)
  show "scc_reach (\<lambda>h w. Inr (prepare_read TwoPLPashaSCCWriteThrough h w))
       (finish_write TwoPLPashaSCCWriteThrough) keep_scc_bits 0 64 64 wt_word
       \<lparr>mach = \<lparr>cmem = (\<lambda>_. 0), cache = (\<lambda>_ _. None)\<rparr>, meta = wt_word, writing = Some 0, latest = (\<lambda>_. 0)\<rparr>"
    by (rule scc_reach.step [OF scc_reach.start wt_steps(1)])
qed simp



end
