(* ===== verification/CXLMem.thy ===== *)
theory CXLMem
  imports Prelude "HOL-Library.Multiset"
begin

text \<open>
  The configuration (\<open>core/Context.h\<close>, the options of the CXL components) and the accounting of CXL
  memory (\<open>common/CXLMemory.h\<close>): every allocation and free goes through a wrapper that keeps
  atomic 64-bit counters, which the migration manager compares against its budget. The allocator
  \<open>cxlalloc\<close> is not part of the program: what \<open>cxlalloc_malloc\<close> returns is an argument.
\<close>

section \<open>Configuration\<close>

record config =
  migration_policy :: string
  when_to_move_out :: string
  hw_cc_budget :: u64
  enable_scc :: bool
  enable_migration_optimization :: bool
  enable_phantom_detection :: bool
  model_cxl_search_overhead :: bool

section \<open>Counters\<close>

datatype category =
    TOTAL_USAGE | TOTAL_HW_CC_USAGE | INDEX_USAGE | METADATA_USAGE | DATA_USAGE | TRANSPORT_USAGE
  | MISC_USAGE | INDEX_ALLOCATION | METADATA_ALLOCATION | DATA_ALLOCATION | TRANSPORT_ALLOCATION
  | MISC_ALLOCATION | INDEX_FREE | METADATA_FREE | DATA_FREE | TRANSPORT_FREE | MISC_FREE

record cxl_memory =
  size_index_usage :: u64
  size_metadata_usage :: u64
  size_data_usage :: u64
  size_transport_usage :: u64
  size_misc_usage :: u64
  size_total_hw_cc_usage :: u64

definition cxl_memory_init :: cxl_memory where
  "cxl_memory_init = \<lparr>size_index_usage = 0, size_metadata_usage = 0, size_data_usage = 0,
     size_transport_usage = 0, size_misc_usage = 0, size_total_hw_cc_usage = 0\<rparr>"

text \<open>The wrappers with separate metadata and data sizes.\<close>

definition malloc_wrapper4 :: "u64 \<Rightarrow> category \<Rightarrow> u64 \<Rightarrow> u64 \<Rightarrow> cxl_memory \<Rightarrow> cxl_memory res" where
  "malloc_wrapper4 sz category metadata_size data_size m =
     (case category of
        INDEX_ALLOCATION \<Rightarrow> Inr (m\<lparr>size_total_hw_cc_usage := size_total_hw_cc_usage m + sz,
          size_index_usage := size_index_usage m + sz\<rparr>)
      | DATA_ALLOCATION \<Rightarrow> Inr (m\<lparr>size_total_hw_cc_usage := size_total_hw_cc_usage m + metadata_size,
          size_metadata_usage := size_metadata_usage m + metadata_size,
          size_data_usage := size_data_usage m + data_size\<rparr>)
      | TRANSPORT_ALLOCATION \<Rightarrow> Inr (m\<lparr>size_transport_usage := size_transport_usage m + sz\<rparr>)
      | MISC_ALLOCATION \<Rightarrow> Inr (m\<lparr>size_total_hw_cc_usage := size_total_hw_cc_usage m + sz,
          size_misc_usage := size_misc_usage m + sz\<rparr>)
      | _ \<Rightarrow> Inl Check_failed)"

definition free_wrapper4 :: "u64 \<Rightarrow> category \<Rightarrow> u64 \<Rightarrow> u64 \<Rightarrow> cxl_memory \<Rightarrow> cxl_memory res" where
  "free_wrapper4 sz category metadata_size data_size m =
     (case category of
        INDEX_FREE \<Rightarrow> Inr (m\<lparr>size_total_hw_cc_usage := size_total_hw_cc_usage m - sz,
          size_index_usage := size_index_usage m - sz\<rparr>)
      | DATA_FREE \<Rightarrow> Inr (m\<lparr>size_total_hw_cc_usage := size_total_hw_cc_usage m - metadata_size,
          size_metadata_usage := size_metadata_usage m - metadata_size,
          size_data_usage := size_data_usage m - data_size\<rparr>)
      | TRANSPORT_FREE \<Rightarrow> Inr (m\<lparr>size_transport_usage := size_transport_usage m - sz\<rparr>)
      | MISC_FREE \<Rightarrow> Inr (m\<lparr>size_total_hw_cc_usage := size_total_hw_cc_usage m - sz,
          size_misc_usage := size_misc_usage m - sz\<rparr>)
      | _ \<Rightarrow> Inl Check_failed)"

text \<open>
  The wrappers in use. The counters move before the allocator is asked, so a failed allocation
  counts like a successful one.
\<close>

definition malloc_wrapper :: "'x config_scheme \<Rightarrow> u64 \<Rightarrow> category \<Rightarrow> cxl_memory \<Rightarrow> cxl_memory res" where
  "malloc_wrapper ctx sz category m =
     (case category of
        INDEX_ALLOCATION \<Rightarrow> Inr (m\<lparr>size_total_hw_cc_usage := size_total_hw_cc_usage m + sz,
          size_index_usage := size_index_usage m + sz\<rparr>)
      | METADATA_ALLOCATION \<Rightarrow>
          Inr (m\<lparr>size_total_hw_cc_usage := size_total_hw_cc_usage m +
              (if migration_policy ctx = ''LRU'' then sz + 24 else sz),
            size_metadata_usage := size_metadata_usage m + sz\<rparr>)
      | DATA_ALLOCATION \<Rightarrow>
          Inr (m\<lparr>size_total_hw_cc_usage :=
              (if \<not> enable_scc ctx then size_total_hw_cc_usage m + sz else size_total_hw_cc_usage m),
            size_data_usage := size_data_usage m + sz\<rparr>)
      | TRANSPORT_ALLOCATION \<Rightarrow> Inr (m\<lparr>size_transport_usage := size_transport_usage m + sz\<rparr>)
      | MISC_ALLOCATION \<Rightarrow> Inr (m\<lparr>size_total_hw_cc_usage := size_total_hw_cc_usage m + sz,
          size_misc_usage := size_misc_usage m + sz\<rparr>)
      | _ \<Rightarrow> Inl Check_failed)"

definition free_wrapper :: "'x config_scheme \<Rightarrow> u64 \<Rightarrow> category \<Rightarrow> cxl_memory \<Rightarrow> cxl_memory res" where
  "free_wrapper ctx sz category m =
     (case category of
        INDEX_FREE \<Rightarrow> Inr (m\<lparr>size_total_hw_cc_usage := size_total_hw_cc_usage m - sz,
          size_index_usage := size_index_usage m - sz\<rparr>)
      | METADATA_FREE \<Rightarrow>
          Inr (m\<lparr>size_total_hw_cc_usage := size_total_hw_cc_usage m -
              (if migration_policy ctx = ''LRU'' then sz + 24 else sz),
            size_metadata_usage := size_metadata_usage m - sz\<rparr>)
      | DATA_FREE \<Rightarrow>
          Inr (m\<lparr>size_total_hw_cc_usage :=
              (if \<not> enable_scc ctx then size_total_hw_cc_usage m - sz else size_total_hw_cc_usage m),
            size_data_usage := size_data_usage m - sz\<rparr>)
      | TRANSPORT_FREE \<Rightarrow> Inr (m\<lparr>size_transport_usage := size_transport_usage m - sz\<rparr>)
      | MISC_FREE \<Rightarrow> Inr (m\<lparr>size_total_hw_cc_usage := size_total_hw_cc_usage m - sz,
          size_misc_usage := size_misc_usage m - sz\<rparr>)
      | _ \<Rightarrow> Inl Check_failed)"

definition get_stats :: "category \<Rightarrow> cxl_memory \<Rightarrow> u64 res" where
  "get_stats category m =
     (case category of
        INDEX_USAGE \<Rightarrow> Inr (size_index_usage m)
      | METADATA_USAGE \<Rightarrow> Inr (size_metadata_usage m)
      | DATA_USAGE \<Rightarrow> Inr (size_data_usage m)
      | TRANSPORT_USAGE \<Rightarrow> Inr (size_transport_usage m)
      | MISC_USAGE \<Rightarrow> Inr (size_misc_usage m)
      | TOTAL_HW_CC_USAGE \<Rightarrow> Inr (size_total_hw_cc_usage m)
      | TOTAL_USAGE \<Rightarrow> Inr (size_index_usage m + size_metadata_usage m + size_data_usage m +
          size_transport_usage m + size_misc_usage m)
      | _ \<Rightarrow> Inl Check_failed)"

section \<open>Accounting of a history\<close>

text \<open>
  A history of wrapper calls. \<open>charge c blk\<close> is what one live block adds to the counter read by
  \<open>get_stats c\<close>; \<open>kind\<close> pairs each allocation category with its free.
\<close>

datatype mem_event = Malloc u64 category | Free u64 category

fun mem_run :: "'x config_scheme \<Rightarrow> mem_event list \<Rightarrow> cxl_memory \<Rightarrow> cxl_memory res" where
  "mem_run ctx [] m = Inr m"
| "mem_run ctx (Malloc sz c # es) m = bind_res (malloc_wrapper ctx sz c m) (mem_run ctx es)"
| "mem_run ctx (Free sz c # es) m = bind_res (free_wrapper ctx sz c m) (mem_run ctx es)"

fun alloc_of :: "category \<Rightarrow> category" where
  "alloc_of INDEX_FREE = INDEX_ALLOCATION"
| "alloc_of METADATA_FREE = METADATA_ALLOCATION"
| "alloc_of DATA_FREE = DATA_ALLOCATION"
| "alloc_of TRANSPORT_FREE = TRANSPORT_ALLOCATION"
| "alloc_of MISC_FREE = MISC_ALLOCATION"
| "alloc_of c = c"

fun mallocs :: "mem_event list \<Rightarrow> (u64 \<times> category) multiset" where
  "mallocs [] = {#}"
| "mallocs (Malloc sz c # es) = add_mset (sz, c) (mallocs es)"
| "mallocs (Free sz c # es) = mallocs es"

fun frees :: "mem_event list \<Rightarrow> (u64 \<times> category) multiset" where
  "frees [] = {#}"
| "frees (Malloc sz c # es) = frees es"
| "frees (Free sz c # es) = add_mset (sz, alloc_of c) (frees es)"

definition charge :: "'x config_scheme \<Rightarrow> category \<Rightarrow> u64 \<times> category \<Rightarrow> u64" where
  "charge ctx c blk = (case blk of (sz, k) \<Rightarrow>
     (case c of
        INDEX_USAGE \<Rightarrow> if k = INDEX_ALLOCATION then sz else 0
      | METADATA_USAGE \<Rightarrow> if k = METADATA_ALLOCATION then sz else 0
      | DATA_USAGE \<Rightarrow> if k = DATA_ALLOCATION then sz else 0
      | TRANSPORT_USAGE \<Rightarrow> if k = TRANSPORT_ALLOCATION then sz else 0
      | MISC_USAGE \<Rightarrow> if k = MISC_ALLOCATION then sz else 0
      | TOTAL_USAGE \<Rightarrow> sz
      | TOTAL_HW_CC_USAGE \<Rightarrow>
          (case k of
             METADATA_ALLOCATION \<Rightarrow> if migration_policy ctx = ''LRU'' then sz + 24 else sz
           | DATA_ALLOCATION \<Rightarrow> if enable_scc ctx then 0 else sz
           | TRANSPORT_ALLOCATION \<Rightarrow> 0
           | _ \<Rightarrow> sz)
      | _ \<Rightarrow> 0))"

definition usage_category :: "category \<Rightarrow> bool" where
  "usage_category c \<longleftrightarrow> c \<in> {TOTAL_USAGE, TOTAL_HW_CC_USAGE, INDEX_USAGE, METADATA_USAGE, DATA_USAGE,
     TRANSPORT_USAGE, MISC_USAGE}"

lemma malloc_charge:
  "malloc_wrapper ctx sz k m = Inr m' \<Longrightarrow> get_stats c m = Inr v \<Longrightarrow>
     get_stats c m' = Inr (v + charge ctx c (sz, k))"
  by (cases k; cases c) (auto simp: malloc_wrapper_def get_stats_def charge_def algebra_simps)

lemma free_charge:
  "free_wrapper ctx sz k m = Inr m' \<Longrightarrow> get_stats c m = Inr v \<Longrightarrow>
     get_stats c m' = Inr (v - charge ctx c (sz, alloc_of k))"
  by (cases k; cases c) (auto simp: free_wrapper_def get_stats_def charge_def algebra_simps)

lemma run_charge:
  assumes "mem_run ctx es m = Inr m'" "get_stats c m = Inr v"
  shows "get_stats c m' = Inr (v + (\<Sum>b\<in>#mallocs es. charge ctx c b) - (\<Sum>b\<in>#frees es. charge ctx c b))"
  using assms
proof (induction es arbitrary: m v)
  case (Cons e es)
  show ?case
  proof (cases e)
    case (Malloc sz k)
    then obtain m1 where m1: "malloc_wrapper ctx sz k m = Inr m1" and "mem_run ctx es m1 = Inr m'"
      using Cons.prems(1) by (auto simp: res_iffs)
    then show ?thesis
      using Cons.IH [OF _ malloc_charge [OF m1 Cons.prems(2)]] Malloc by (simp add: algebra_simps)
  next
    case (Free sz k)
    then obtain m1 where m1: "free_wrapper ctx sz k m = Inr m1" and "mem_run ctx es m1 = Inr m'"
      using Cons.prems(1) by (auto simp: res_iffs)
    then show ?thesis
      using Cons.IH [OF _ free_charge [OF m1 Cons.prems(2)]] Free by (simp add: algebra_simps)
  qed
qed simp


text \<open>A configuration of the LRU configuration with coherence in software.\<close>

definition lru_config :: config where
  "lru_config = \<lparr>migration_policy = ''LRU'', when_to_move_out = ''Reactive'', hw_cc_budget = 209715200,
     enable_scc = True, enable_migration_optimization = True, enable_phantom_detection = True,
     model_cxl_search_overhead = False\<rparr>"


end
