(* ===== verification/EBR.thy ===== *)
theory EBR
  imports Prelude
begin

text \<open>
  Epoch-based reclamation (\<open>common/CXL_EBR.h\<close>). Every worker publishes a local epoch in CXL memory,
  retires objects into one of three lists, and on entering a critical section (once per
  transaction) tries to advance the global epoch, catches up with it and frees the list two
  epochs back. Each shared load, store and compare-and-swap of \<open>enter_critical_section\<close> is a step of
  its own, so that the theorems cover every interleaving of the workers of all hosts. Epochs are
  unbounded: a 64-bit epoch would take more than \<open>10 ^ 19\<close> advances to wrap.
\<close>

section \<open>State\<close>

abbreviation (input) max_epoch :: nat where "max_epoch \<equiv> 3"
abbreviation (input) epoch_advance_threshold :: nat where "epoch_advance_threshold \<equiv> 100"

text \<open>
  A retired object with two notes for the proofs: the epoch whose list it was put in, and every
  worker's local epoch at that moment.
\<close>

record retired_object =
  obj_ptr :: u64
  obj_size :: u64
  obj_tag :: nat
  obj_snap :: "nat list"

text \<open>
  Where a worker is inside \<open>enter_critical_section\<close>; \<open>Idle\<close> is the body of a transaction.
  \<open>Scan g j ok\<close> is about to read the local epoch of worker \<open>j\<close>.
\<close>

datatype pc = Idle | Scan nat nat bool | Cas nat | Reload | Publish nat | Reclaim nat

record worker =
  pcw :: pc
  last_freed_epoch :: nat
  retired_objects :: "retired_object list list"

record ebr =
  global_epoch :: nat
  local_epochs :: "nat list"
  workers :: "worker list"
  freed :: "retired_object list"

definition worker_init :: worker where
  "worker_init = \<lparr>pcw = Idle, last_freed_epoch = 0, retired_objects = replicate max_epoch []\<rparr>"

definition ebr_init :: "nat \<Rightarrow> ebr" where
  "ebr_init n = \<lparr>global_epoch = 0, local_epochs = replicate n 0, workers = replicate n worker_init, freed = []\<rparr>"

section \<open>Steps\<close>

definition add_retired_object :: "nat \<Rightarrow> u64 \<Rightarrow> u64 \<Rightarrow> ebr \<Rightarrow> ebr" where
  "add_retired_object i ptr sz s =
     (let w = workers s ! i; cur_local_epoch = local_epochs s ! i; k = cur_local_epoch mod max_epoch;
          ob = \<lparr>obj_ptr = ptr, obj_size = sz, obj_tag = cur_local_epoch, obj_snap = local_epochs s\<rparr> in
      s\<lparr>workers := (workers s)[i := w\<lparr>retired_objects :=
         (retired_objects w)[k := retired_objects w ! k @ [ob]]\<rparr>]\<rparr>)"

definition set_pc :: "nat \<Rightarrow> pc \<Rightarrow> ebr \<Rightarrow> ebr" where
  "set_pc i p s = s\<lparr>workers := (workers s)[i := (workers s ! i)\<lparr>pcw := p\<rparr>]\<rparr>"

text \<open>
  The next step of worker \<open>i\<close> in \<open>enter_critical_section\<close>, one case per piece of the code between
  two accesses to shared memory.
\<close>

definition enter_start :: "nat \<Rightarrow> ebr \<Rightarrow> ebr res" where
  "enter_start i s =
     (let cur_local_epoch = local_epochs s ! i; cur_global_epoch = global_epoch s in
      if cur_global_epoch = cur_local_epoch then
        if length (retired_objects (workers s ! i) ! (cur_local_epoch mod max_epoch)) \<ge> epoch_advance_threshold
        then Inr (set_pc i (Scan cur_global_epoch 0 True) s)
        else Inr (set_pc i Reload s)
      else check (cur_global_epoch > cur_local_epoch) (Inr (set_pc i Reload s)))"

definition enter_scan :: "nat \<Rightarrow> nat \<Rightarrow> nat \<Rightarrow> bool \<Rightarrow> ebr \<Rightarrow> ebr res" where
  "enter_scan i g j ok s =
     (if j < length (local_epochs s)
      then Inr (set_pc i (Scan g (Suc j) (ok \<and> \<not> local_epochs s ! j < g)) s)
      else Inr (set_pc i (if ok then Cas g else Reload) s))"

definition enter_cas :: "nat \<Rightarrow> nat \<Rightarrow> ebr \<Rightarrow> ebr res" where
  "enter_cas i g s =
     Inr (set_pc i Reload (if global_epoch s = g then s\<lparr>global_epoch := Suc g\<rparr> else s))"

definition enter_reload :: "nat \<Rightarrow> ebr \<Rightarrow> ebr res" where
  "enter_reload i s =
     (let cur_local_epoch = local_epochs s ! i; cur_global_epoch = global_epoch s in
      if cur_local_epoch < cur_global_epoch
      then check (cur_local_epoch = cur_global_epoch - 1) (Inr (set_pc i (Publish cur_global_epoch) s))
      else Inr (set_pc i (Reclaim cur_global_epoch) s))"

definition enter_publish :: "nat \<Rightarrow> nat \<Rightarrow> ebr \<Rightarrow> ebr res" where
  "enter_publish i g s =
     Inr (set_pc i (Reclaim g) (s\<lparr>local_epochs := (local_epochs s)[i := g]\<rparr>))"

definition enter_reclaim :: "nat \<Rightarrow> nat \<Rightarrow> ebr \<Rightarrow> ebr res" where
  "enter_reclaim i g s =
     (let w = workers s ! i; epoch_to_reclaim = g - 2; k = epoch_to_reclaim mod max_epoch in
      if 2 \<le> g \<and> epoch_to_reclaim > last_freed_epoch w
      then check (epoch_to_reclaim = last_freed_epoch w + 1)
        (Inr (s\<lparr>freed := freed s @ retired_objects w ! k,
           workers := (workers s)[i := w\<lparr>pcw := Idle, last_freed_epoch := epoch_to_reclaim,
             retired_objects := (retired_objects w)[k := []]\<rparr>]\<rparr>))
      else Inr (set_pc i Idle s))"

definition enter_step :: "nat \<Rightarrow> ebr \<Rightarrow> ebr res" where
  "enter_step i s =
     (case pcw (workers s ! i) of
        Idle \<Rightarrow> enter_start i s
      | Scan g j ok \<Rightarrow> enter_scan i g j ok s
      | Cas g \<Rightarrow> enter_cas i g s
      | Reload \<Rightarrow> enter_reload i s
      | Publish g \<Rightarrow> enter_publish i g s
      | Reclaim g \<Rightarrow> enter_reclaim i g s)"

text \<open>A worker retires objects only in the body of a transaction.\<close>

datatype action = Retire nat u64 u64 | Enter nat

fun act :: "action \<Rightarrow> ebr \<Rightarrow> ebr res" where
  "act (Retire i ptr sz) s =
     (if i < length (workers s) \<and> pcw (workers s ! i) = Idle then Inr (add_retired_object i ptr sz s) else Inr s)"
| "act (Enter i) s = (if i < length (workers s) then enter_step i s else Inr s)"

fun ebr_run :: "action list \<Rightarrow> ebr \<Rightarrow> ebr res" where
  "ebr_run [] s = Inr s"
| "ebr_run (a # as) s = bind_res (act a s) (ebr_run as)"

section \<open>Invariant\<close>

definition pc_inv :: "ebr \<Rightarrow> nat \<Rightarrow> bool" where
  "pc_inv s i \<longleftrightarrow>
     (let l = local_epochs s ! i; G = global_epoch s; lf = last_freed_epoch (workers s ! i) in
      case pcw (workers s ! i) of
        Idle \<Rightarrow> lf = l - 2
      | Scan g j ok \<Rightarrow> lf = l - 2 \<and> g = l \<and> (ok \<longrightarrow> (\<forall>k < min j (length (local_epochs s)). g \<le> local_epochs s ! k))
      | Cas g \<Rightarrow> lf = l - 2 \<and> g = l \<and> (\<forall>k < length (local_epochs s). g \<le> local_epochs s ! k)
      | Reload \<Rightarrow> lf = l - 2
      | Publish g \<Rightarrow> lf = l - 2 \<and> G = g \<and> g = Suc l
      | Reclaim g \<Rightarrow> g = l \<and> (lf = l - 2 \<or> lf = l - 3))"

definition list_inv :: "nat \<Rightarrow> worker \<Rightarrow> bool" where
  "list_inv l w \<longleftrightarrow> length (retired_objects w) = max_epoch \<and>
     (\<forall>k < max_epoch. \<forall>ob \<in> set (retired_objects w ! k). obj_tag ob mod max_epoch = k \<and> obj_tag ob \<le> l)"

definition ebr_inv :: "ebr \<Rightarrow> bool" where
  "ebr_inv s \<longleftrightarrow>
     length (workers s) = length (local_epochs s) \<and>
     (\<forall>i < length (local_epochs s). local_epochs s ! i \<le> global_epoch s \<and> global_epoch s \<le> Suc (local_epochs s ! i) \<and>
        pc_inv s i \<and> list_inv (local_epochs s ! i) (workers s ! i)) \<and>
     (\<forall>ob \<in> set (freed s). \<forall>l \<in> set (local_epochs s). obj_tag ob < l)"


lemma ebr_invD:
  assumes "ebr_inv s" "i < length (local_epochs s)"
  shows "local_epochs s ! i \<le> global_epoch s" "global_epoch s \<le> Suc (local_epochs s ! i)" "pc_inv s i"
    "list_inv (local_epochs s ! i) (workers s ! i)" "length (workers s) = length (local_epochs s)"
  using assms by (simp_all add: ebr_inv_def)

lemma inv_init: "ebr_inv (ebr_init n)"
  by (simp add: ebr_inv_def ebr_init_def pc_inv_def list_inv_def worker_init_def)

text \<open>Replacing one worker's record keeps the invariant of all the others.\<close>

lemma pc_inv_upd_other: "k \<noteq> i \<Longrightarrow> pc_inv (s\<lparr>workers := (workers s)[i := w]\<rparr>) k = pc_inv s k"
  by (simp add: pc_inv_def Let_def split: pc.split)

lemma inv_upd_worker:
  assumes "ebr_inv s" "i < length (local_epochs s)"
    and "pc_inv (s\<lparr>workers := (workers s)[i := w]\<rparr>) i" "list_inv (local_epochs s ! i) w"
  shows "ebr_inv (s\<lparr>workers := (workers s)[i := w]\<rparr>)"
  unfolding ebr_inv_def
proof (intro conjI allI impI)
  fix k assume k: "k < length (local_epochs (s\<lparr>workers := (workers s)[i := w]\<rparr>))"
  note inv = ebr_invD [OF assms(1), of k]
  show "pc_inv (s\<lparr>workers := (workers s)[i := w]\<rparr>) k"
    using k inv(3) assms(3) by (cases "k = i") (simp_all add: pc_inv_upd_other)
  show "list_inv (local_epochs (s\<lparr>workers := (workers s)[i := w]\<rparr>) ! k)
      (workers (s\<lparr>workers := (workers s)[i := w]\<rparr>) ! k)"
    using k inv(4,5) assms(4) by (cases "k = i") simp_all
qed (use assms(1) in \<open>simp_all add: ebr_inv_def\<close>)

lemma inv_set_pc:
  assumes "ebr_inv s" "i < length (local_epochs s)" "pc_inv (set_pc i p s) i"
  shows "ebr_inv (set_pc i p s)"
  using assms ebr_invD [OF assms(1,2)]
  unfolding set_pc_def by (intro inv_upd_worker) (simp_all add: list_inv_def)

lemma inv_retire:
  assumes "ebr_inv s" "i < length (local_epochs s)" "pcw (workers s ! i) = Idle"
  shows "ebr_inv (add_retired_object i ptr sz s)"
proof -
  note inv = ebr_invD [OF assms(1,2)]
  have "local_epochs s ! i mod 3 < 3" by simp
  then show ?thesis
    using assms inv unfolding add_retired_object_def Let_def
    by (intro inv_upd_worker) (auto simp: pc_inv_def list_inv_def nth_list_update)
qed

lemma inv_start:
  assumes "ebr_inv s" "i < length (local_epochs s)" "pcw (workers s ! i) = Idle"
  shows "\<exists>t. enter_start i s = Inr t \<and> ebr_inv t"
proof -
  have "ebr_inv (set_pc i p s)" if "p = Reload \<or> p = Scan (local_epochs s ! i) 0 True" for p
    using that assms ebr_invD [OF assms(1,2)]
    by (intro inv_set_pc) (auto simp: pc_inv_def set_pc_def Let_def)
  then show ?thesis
    using ebr_invD(1) [OF assms(1,2)] by (auto simp: enter_start_def Let_def res_iffs)
qed

lemma inv_scan:
  assumes "ebr_inv s" "i < length (local_epochs s)" "pcw (workers s ! i) = Scan g j ok"
  shows "\<exists>t. enter_scan i g j ok s = Inr t \<and> ebr_inv t"
proof -
  have pre: "last_freed_epoch (workers s ! i) = local_epochs s ! i - 2" "g = local_epochs s ! i"
    "ok \<Longrightarrow> (\<forall>k < min j (length (local_epochs s)). g \<le> local_epochs s ! k)"
    using ebr_invD(3) [OF assms(1,2)] assms(3) by (auto simp: pc_inv_def Let_def)
  have "ebr_inv (set_pc i (Scan g (Suc j) (ok \<and> \<not> local_epochs s ! j < g)) s)" if "j < length (local_epochs s)"
    using assms that pre ebr_invD(5) [OF assms(1,2)]
    by (intro inv_set_pc) (auto simp: pc_inv_def set_pc_def Let_def less_Suc_eq)
  moreover have "ebr_inv (set_pc i (if ok then Cas g else Reload) s)" if "\<not> j < length (local_epochs s)"
    using assms that pre ebr_invD(5) [OF assms(1,2)]
    by (intro inv_set_pc) (auto simp: pc_inv_def set_pc_def Let_def)
  ultimately show ?thesis by (simp add: enter_scan_def)
qed

lemma inv_advance:
  assumes "ebr_inv s" and g: "\<And>k. k < length (local_epochs s) \<Longrightarrow> g \<le> local_epochs s ! k" "global_epoch s = g"
  shows "ebr_inv (s\<lparr>global_epoch := Suc g\<rparr>)"
  unfolding ebr_inv_def
proof (intro conjI allI impI)
  fix k assume "k < length (local_epochs (s\<lparr>global_epoch := Suc g\<rparr>))"
  then have k: "k < length (local_epochs s)" by simp
  note inv = ebr_invD [OF assms(1) k]
  show "local_epochs (s\<lparr>global_epoch := Suc g\<rparr>) ! k \<le> global_epoch (s\<lparr>global_epoch := Suc g\<rparr>)"
    "global_epoch (s\<lparr>global_epoch := Suc g\<rparr>) \<le> Suc (local_epochs (s\<lparr>global_epoch := Suc g\<rparr>) ! k)"
    using inv(1,2) g(1) [OF k] g(2) by simp_all
  show "pc_inv (s\<lparr>global_epoch := Suc g\<rparr>) k"
    using inv(3) g(1) [OF k] g(2) by (auto simp: pc_inv_def Let_def split: pc.splits)
  show "list_inv (local_epochs (s\<lparr>global_epoch := Suc g\<rparr>) ! k) (workers (s\<lparr>global_epoch := Suc g\<rparr>) ! k)"
    using inv(4) by simp
qed (use assms(1) in \<open>simp_all add: ebr_inv_def\<close>)

lemma inv_cas:
  assumes "ebr_inv s" "i < length (local_epochs s)" "pcw (workers s ! i) = Cas g"
  shows "\<exists>t. enter_cas i g s = Inr t \<and> ebr_inv t"
proof -
  have pre: "last_freed_epoch (workers s ! i) = local_epochs s ! i - 2"
    "\<And>k. k < length (local_epochs s) \<Longrightarrow> g \<le> local_epochs s ! k"
    using ebr_invD(3) [OF assms(1,2)] assms(3) by (auto simp: pc_inv_def Let_def)
  define t where "t = (if global_epoch s = g then s\<lparr>global_epoch := Suc g\<rparr> else s)"
  have "ebr_inv t" unfolding t_def using assms(1) inv_advance [OF assms(1) pre(2)] by simp
  moreover have "pc_inv (set_pc i Reload t) i"
    using pre(1) ebr_invD(5) [OF assms(1,2)] assms(2) by (simp add: t_def pc_inv_def set_pc_def Let_def)
  ultimately have "ebr_inv (set_pc i Reload t)"
    using assms(2) by (intro inv_set_pc) (simp_all add: t_def)
  then show ?thesis by (simp add: enter_cas_def t_def)
qed

lemma inv_reload:
  assumes "ebr_inv s" "i < length (local_epochs s)" "pcw (workers s ! i) = Reload"
  shows "\<exists>t. enter_reload i s = Inr t \<and> ebr_inv t"
proof -
  note inv = ebr_invD [OF assms(1,2)]
  have lf: "last_freed_epoch (workers s ! i) = local_epochs s ! i - 2"
    using inv(3) assms(3) by (simp add: pc_inv_def Let_def)
  have "ebr_inv (set_pc i p s)"
    if "p = (if local_epochs s ! i < global_epoch s then Publish (global_epoch s) else Reclaim (global_epoch s))" for p
    using assms inv lf that by (intro inv_set_pc) (auto simp: pc_inv_def set_pc_def Let_def)
  then show ?thesis
    using inv(1,2) by (auto simp: enter_reload_def Let_def res_iffs)
qed

lemma inv_publish:
  assumes "ebr_inv s" "i < length (local_epochs s)" "pcw (workers s ! i) = Publish g"
  shows "\<exists>t. enter_publish i g s = Inr t \<and> ebr_inv t"
proof -
  have pre: "last_freed_epoch (workers s ! i) = local_epochs s ! i - 2" "global_epoch s = g"
    "g = Suc (local_epochs s ! i)"
    using ebr_invD(3) [OF assms(1,2)] assms(3) by (auto simp: pc_inv_def Let_def)
  define t where "t = set_pc i (Reclaim g) (s\<lparr>local_epochs := (local_epochs s)[i := g]\<rparr>)"
  have "ebr_inv t"
    unfolding ebr_inv_def
  proof (intro conjI allI impI ballI)
    show "length (workers t) = length (local_epochs t)"
      using ebr_invD(5) [OF assms(1,2)] by (simp add: t_def set_pc_def)
    fix k assume "k < length (local_epochs t)"
    then have k: "k < length (local_epochs s)" by (simp add: t_def set_pc_def)
    note inv = ebr_invD [OF assms(1) k]
    show "local_epochs t ! k \<le> global_epoch t" "global_epoch t \<le> Suc (local_epochs t ! k)"
      using inv pre k by (cases "k = i"; simp add: t_def set_pc_def)+
    show "pc_inv t k"
    proof (cases "k = i")
      case True
      then show ?thesis using pre k inv(5) by (auto simp: pc_inv_def t_def set_pc_def Let_def)
    next
      case False
      have grow: "x \<le> local_epochs s ! m \<Longrightarrow> x \<le> (local_epochs s)[i := g] ! m" for x m
        using pre(3) assms(2) by (cases "m = i") auto
      show ?thesis
        using inv(3) pre k False
        by (auto simp: pc_inv_def t_def set_pc_def Let_def split: pc.splits intro!: grow [unfolded pre(3)])
    qed
    show "list_inv (local_epochs t ! k) (workers t ! k)"
      using inv(4,5) k pre by (cases "k = i") (auto simp: t_def set_pc_def list_inv_def le_Suc_eq)
  next
    fix ob l assume "ob \<in> set (freed t)" "l \<in> set (local_epochs t)"
    then have "ob \<in> set (freed s)" and "l = g \<or> l \<in> set (local_epochs s)"
      using set_update_subset_insert [of "local_epochs s" i g] by (auto simp: t_def set_pc_def)
    then show "obj_tag ob < l"
      using assms(1,2) pre(3) by (auto simp: ebr_inv_def less_Suc_eq)
  qed
  then show ?thesis by (simp add: enter_publish_def t_def)
qed

lemma reclaim_tags:
  assumes "ob \<in> set (retired_objects w ! ((l - 2) mod 3))" "list_inv l w" "2 \<le> l"
  shows "obj_tag ob \<le> l - 2"
proof -
  have "(l - 2) mod 3 < 3" by simp
  then have "obj_tag ob mod 3 = (l - 2) mod 3 \<and> obj_tag ob \<le> l"
    using assms(1,2) unfolding list_inv_def by blast
  moreover have "t mod 3 = m mod 3 \<and> t \<le> m + 2 \<Longrightarrow> t \<le> m" for t m :: nat
    by presburger
  ultimately show ?thesis using assms(3) by (metis le_add_diff_inverse2)
qed

lemma inv_freed:
  assumes "ebr_inv s" "\<And>ob l. ob \<in> set obs \<Longrightarrow> l \<in> set (local_epochs s) \<Longrightarrow> obj_tag ob < l"
  shows "ebr_inv (s\<lparr>freed := freed s @ obs\<rparr>)"
proof -
  have "pc_inv (s\<lparr>freed := freed s @ obs\<rparr>) k = pc_inv s k" for k
    by (simp add: pc_inv_def Let_def split: pc.split)
  with assms show ?thesis by (auto simp: ebr_inv_def)
qed

lemma inv_reclaim:
  assumes "ebr_inv s" "i < length (local_epochs s)" "pcw (workers s ! i) = Reclaim g"
  shows "\<exists>t. enter_reclaim i g s = Inr t \<and> ebr_inv t"
proof -
  note inv = ebr_invD [OF assms(1,2)]
  define w where "w = workers s ! i"
  have pre: "g = local_epochs s ! i" "last_freed_epoch w = g - 2 \<or> last_freed_epoch w = g - 3"
    using inv(3) assms(3) by (auto simp: pc_inv_def Let_def w_def)
  show ?thesis
  proof (cases "2 \<le> g \<and> g - 2 > last_freed_epoch w")
    case False
    then have "last_freed_epoch w = g - 2" using pre(2) by auto
    then have "ebr_inv (set_pc i Idle s)"
      using assms inv(5) pre by (intro inv_set_pc) (simp_all add: pc_inv_def set_pc_def Let_def w_def)
    then show ?thesis using False by (auto simp: enter_reclaim_def Let_def w_def)
  next
    case True
    define k where "k = (g - 2) mod 3"
    define w' where "w' = w\<lparr>pcw := Idle, last_freed_epoch := g - 2, retired_objects := (retired_objects w)[k := []]\<rparr>"
    define t where "t = s\<lparr>workers := (workers s)[i := w']\<rparr>"
    have "list_inv (local_epochs s ! i) w'"
      using inv(4) mod_less_divisor [of 3 "g - 2"]
      by (auto simp: list_inv_def w'_def w_def nth_list_update k_def split: if_splits)
    then have t: "ebr_inv t"
      using assms inv(5) pre by (auto intro!: inv_upd_worker simp: t_def pc_inv_def w'_def Let_def)
    have "obj_tag ob < l" if ob: "ob \<in> set (retired_objects w ! k)" and l: "l \<in> set (local_epochs s)" for ob l
    proof -
      have "obj_tag ob \<le> g - 2"
        using reclaim_tags [of ob w g] ob inv(4) pre(1) True by (simp add: k_def w_def)
      moreover have "g \<le> Suc l"
        using l ebr_invD(2) [OF assms(1)] inv(1) pre(1) by (fastforce simp: in_set_conv_nth)
      ultimately show ?thesis using True by linarith
    qed
    then have "ebr_inv (t\<lparr>freed := freed s @ retired_objects w ! k\<rparr>)"
      using inv_freed [OF t, of "retired_objects w ! k"] by (simp add: t_def)
    moreover have "enter_reclaim i g s = Inr (t\<lparr>freed := freed s @ retired_objects w ! k\<rparr>)"
      using True pre(2) by (auto simp: enter_reclaim_def Let_def w_def [symmetric] k_def t_def w'_def res_iffs)
    ultimately show ?thesis by blast
  qed
qed

lemmas inv_steps = inv_start inv_scan inv_cas inv_reload inv_publish inv_reclaim

lemma inv_act:
  assumes "ebr_inv s"
  shows "\<exists>t. act a s = Inr t \<and> ebr_inv t"
proof (cases a)
  case (Retire i ptr sz)
  then show ?thesis
    using assms inv_retire [OF assms, of i] by (auto simp: ebr_inv_def)
next
  case (Enter i)
  show ?thesis
  proof (cases "i < length (local_epochs s)")
    case True
    then show ?thesis
      using inv_steps [OF assms True] Enter ebr_invD(5) [OF assms True]
      by (cases "pcw (workers s ! i)") (simp_all add: enter_step_def)
  next
    case False
    then show ?thesis using assms Enter by (simp add: ebr_inv_def)
  qed
qed

lemma inv_run: "ebr_inv s \<Longrightarrow> \<exists>t. ebr_run as s = Inr t \<and> ebr_inv t"
proof (induction as arbitrary: s)
  case (Cons a as)
  obtain t where "act a s = Inr t" "ebr_inv t"
    using inv_act [OF Cons.prems] by blast
  then show ?case using Cons.IH by simp
qed simp

section \<open>Properties\<close>

text \<open>
  C6: However the workers interleave, no \<open>CHECK\<close> of \<open>enter_critical_section\<close> fires, every local
  epoch is at most one behind the global epoch, and none is ahead of it.
\<close>

theorem enter_never_fails:
  "\<exists>t. ebr_run as (ebr_init n) = Inr t \<and>
     list_all (\<lambda>l. l \<le> global_epoch t \<and> global_epoch t \<le> Suc l) (local_epochs t)"
  using inv_run [OF inv_init, of as n] by (fastforce simp: list_all_length ebr_inv_def)

text \<open>
  C7: The grace period. An object is freed only after every worker has published an epoch later
  than the one it was retired in. So if no worker was ahead of that epoch when the object was
  retired, every worker has entered a new critical section since, and holds no old reference.
\<close>

theorem freed_after_grace_period:
  assumes "ebr_run as (ebr_init n) = Inr t" "ob \<in> set (freed t)" "i < length (local_epochs t)"
  shows "obj_tag ob < local_epochs t ! i \<and>
    (obj_snap ob ! i \<le> obj_tag ob \<longrightarrow> obj_snap ob ! i < local_epochs t ! i)"
proof -
  have "obj_tag ob < local_epochs t ! i"
    using inv_run [OF inv_init, of as n] assms by (auto simp: ebr_inv_def)
  then show ?thesis by simp
qed

text \<open>
  A schedule of two workers: a pass through \<open>enter_critical_section\<close> that does not try to advance
  the epoch takes three or four steps, one that advances it eight.
\<close>

definition enter_steps :: "nat \<Rightarrow> nat \<Rightarrow> action list" where
  "enter_steps i k = replicate k (Enter i)"

definition retire_many :: "nat \<Rightarrow> action list" where
  "retire_many i = replicate 100 (Retire i 7 8)"

definition early_free_schedule :: "action list" where
  "early_free_schedule =
     retire_many 1 @ enter_steps 1 8 @ enter_steps 0 4 @ retire_many 1 @ enter_steps 1 8 @
     [Retire 0 42 8] @ enter_steps 0 4 @ retire_many 0 @ enter_steps 0 8"

text \<open>Retiring the same object many times, in one step.\<close>

lemma ebr_run_append: "ebr_run (as @ bs) s = bind_res (ebr_run as s) (ebr_run bs)"
  by (induction as arbitrary: s) (simp_all add: bind_res_def split: sum.split)

definition retire_n :: "nat \<Rightarrow> nat \<Rightarrow> ebr \<Rightarrow> ebr" where
  "retire_n i n s =
     (let w = workers s ! i; k = local_epochs s ! i mod max_epoch;
          ob = \<lparr>obj_ptr = 7, obj_size = 8, obj_tag = local_epochs s ! i, obj_snap = local_epochs s\<rparr> in
      s\<lparr>workers := (workers s)[i := w\<lparr>retired_objects :=
         (retired_objects w)[k := retired_objects w ! k @ replicate n ob]\<rparr>]\<rparr>)"

lemma retire_many_run:
  assumes "i < length (workers s)" "pcw (workers s ! i) = Idle" "length (retired_objects (workers s ! i)) = 3"
  shows "ebr_run (replicate n (Retire i 7 8)) s = Inr (retire_n i n s)"
  using assms
proof (induction n arbitrary: s)
  case 0
  then show ?case by (simp add: retire_n_def Let_def)
next
  case (Suc n)
  define t where "t = add_retired_object i 7 8 s"
  have "ebr_run (replicate n (Retire i 7 8)) t = Inr (retire_n i n t)"
    using Suc.prems by (intro Suc.IH) (simp_all add: t_def add_retired_object_def Let_def)
  moreover have "retire_n i n t = retire_n i (Suc n) s"
    using Suc.prems by (simp add: t_def retire_n_def add_retired_object_def Let_def)
  ultimately show ?case using Suc.prems by (simp add: t_def)
qed

text \<open>The state the schedule ends in.\<close>

definition early_free_state :: ebr where
  "early_free_state =
    \<lparr>global_epoch = 3, local_epochs = [3, 2],
     workers =
      [\<lparr>pcw = Idle, last_freed_epoch = 1,
        retired_objects = [[], [], replicate 100 \<lparr>obj_ptr = 7, obj_size = 8, obj_tag = 2, obj_snap = [2, 2]\<rparr>]\<rparr>,
       \<lparr>pcw = Idle, last_freed_epoch = 0,
        retired_objects = [replicate 100 \<lparr>obj_ptr = 7, obj_size = 8, obj_tag = 0, obj_snap = [0, 0]\<rparr>,
          replicate 100 \<lparr>obj_ptr = 7, obj_size = 8, obj_tag = 1, obj_snap = [1, 1]\<rparr>, []]\<rparr>],
     freed = [\<lparr>obj_ptr = 42, obj_size = 8, obj_tag = 1, obj_snap = [1, 2]\<rparr>]\<rparr>"

lemmas ebr_exec = enter_step_def enter_start_def enter_scan_def enter_cas_def enter_reload_def enter_publish_def
  enter_reclaim_def set_pc_def add_retired_object_def retire_n_def check_def Let_def

lemma enter_steps_eval:
  "enter_steps i 8 = [Enter i, Enter i, Enter i, Enter i, Enter i, Enter i, Enter i, Enter i]"
  "enter_steps i 4 = [Enter i, Enter i, Enter i, Enter i]"
  by (simp_all add: enter_steps_def numeral_eq_Suc)

lemma early_free_run: "ebr_run early_free_schedule (ebr_init 2) = Inr early_free_state"
proof -
  have init: "ebr_init 2 = \<lparr>global_epoch = 0, local_epochs = [0, 0], workers = [worker_init, worker_init], freed = []\<rparr>"
    by (simp add: ebr_init_def numeral_2_eq_2)
  have w: "worker_init = \<lparr>pcw = Idle, last_freed_epoch = 0, retired_objects = [[], [], []]\<rparr>"
    by (simp add: worker_init_def numeral_3_eq_3)
  show ?thesis
    unfolding early_free_schedule_def ebr_run_append retire_many_def enter_steps_eval init w
    by (simp add: retire_many_run ebr_exec early_free_state_def)
qed

lemma early_free_parts:
  "local_epochs early_free_state = [3, 2]" "map pcw (workers early_free_state) = [Idle, Idle]"
  "freed early_free_state = [\<lparr>obj_ptr = 42, obj_size = 8, obj_tag = 1, obj_snap = [1, 2]\<rparr>]"
  by (simp_all add: early_free_state_def)

theorem freed_after_grace_period_witness:
  "map obj_ptr (freed early_free_state) = [42] \<and> 1 < local_epochs early_free_state ! 0"
  using freed_after_grace_period [OF early_free_run, of "\<lparr>obj_ptr = 42, obj_size = 8, obj_tag = 1, obj_snap = [1, 2]\<rparr>" 0]
  by (simp add: early_free_parts)

text \<open>
  C8: The epoch an object is retired in is the retiring worker's local one, which may be one
  behind the global epoch, and then two epochs are not enough. In this run of two workers, worker
  1 enters the critical section of epoch 2 while worker 0 is still in epoch 1; worker 0 retires
  object 42 and frees it two passes later, while worker 1 is still in the critical section it was
  in when the object was retired, and may still hold a reference it has read before.
\<close>

theorem freed_inside_critical_section:
  "\<exists>t ob. ebr_run early_free_schedule (ebr_init 2) = Inr t \<and> ob \<in> set (freed t) \<and> obj_ptr ob = 42 \<and>
     obj_snap ob ! 1 = local_epochs t ! 1 \<and> pcw (workers t ! 1) = Idle"
proof -
  have "map pcw (workers early_free_state) ! 1 = Idle" "length (map pcw (workers early_free_state)) = 2"
    by (simp_all add: early_free_parts)
  then have "pcw (workers early_free_state ! 1) = Idle" by simp
  then show ?thesis
    using early_free_run by (auto simp: early_free_parts)
qed

end
