(* ===== verification/RowCC.thy ===== *)
theory RowCC
  imports LockWord SCC CXLMem
begin

text \<open>
  Concurrency control on one row, the lock, read, update and release operations of
  \<open>protocol/TwoPLPasha/TwoPLPashaHelper.h\<close>. A row lives in its owner's partition; its metadata
  (\<open>TwoPLPashaMetadataLocal\<close>) says whether it has been migrated to CXL memory, where a latched atomic
  word (\<open>TwoPLPashaMetadataShared\<close>) and the shared data (\<open>TwoPLPashaSharedDataSCC\<close>) take over. The
  owner keeps a copy of a migrated row and refreshes it when the modified bit says it is old.

  Each operation runs under the row's spin lock and, on a migrated row, under the latch of the
  atomic word: it is one function from the state to the state, and \<open>Latch_held\<close> is the case in
  which the call would spin. A row's value is of an arbitrary type \<open>'v\<close>, copied as a whole; that
  every host sees the bytes last written is the subject of theory \<open>SCC\<close>.
\<close>

section \<open>State\<close>

record 'v scc_data =
  s_tid :: u64
  s_flags :: u8
  s_ref_cnt :: u8
  s_data :: 'v

abbreviation (input) valid_flag_index :: nat where "valid_flag_index \<equiv> 0"

definition get_flag :: "nat \<Rightarrow> 'v scc_data \<Rightarrow> bool" where
  "get_flag flag_index d \<longleftrightarrow> s_flags d AND push_bit flag_index 1 \<noteq> 0"

definition set_flag :: "nat \<Rightarrow> 'v scc_data \<Rightarrow> 'v scc_data" where
  "set_flag flag_index d = d\<lparr>s_flags := s_flags d OR push_bit flag_index 1\<rparr>"

definition clear_flag :: "nat \<Rightarrow> 'v scc_data \<Rightarrow> 'v scc_data" where
  "clear_flag flag_index d = d\<lparr>s_flags := s_flags d AND NOT (push_bit flag_index 1)\<rparr>"

text \<open>The metadata of a row in its partition, with the row's private data as \<open>l_data\<close>.\<close>

record 'v lrow =
  l_tid :: u64
  l_is_valid :: bool
  l_is_migrated :: bool
  l_is_data_modified_since_moved_out :: bool
  l_migrated_row :: "u64 option"
  l_scc_data :: "u64 option"
  l_data :: 'v

definition metadata_local_init :: "bool \<Rightarrow> 'v \<Rightarrow> 'v lrow" where
  "metadata_local_init is_tuple_valid v =
     \<lparr>l_tid = 0, l_is_valid = is_tuple_valid, l_is_migrated = False, l_is_data_modified_since_moved_out = True,
      l_migrated_row = None, l_scc_data = None, l_data = v\<rparr>"

text \<open>
  CXL memory as the protocol uses it: the atomic words by address, the shared data by CXL offset,
  the index of a partition's migrated rows, the state of the migration policy, the usage counters
  and the objects handed to epoch-based reclamation.
\<close>

datatype retired = Retired u64 u64 category

record ('k, 'v, 'p) cxl =
  smetas :: "u64 \<rightharpoonup> u64"
  sccs :: "u64 \<rightharpoonup> 'v scc_data"
  index :: "'k \<rightharpoonup> u64"
  policy :: 'p
  mem :: cxl_memory
  retired :: "retired list"

text \<open>What the helper is constructed with; \<open>ndebug\<close> tells whether \<open>DCHECK\<close>s are compiled out.\<close>

record helper = config +
  coordinator_id :: host
  manager :: scc_manager
  ndebug :: bool

section \<open>A latched section\<close>

text \<open>
  \<open>smeta->get_scc_data(); smeta->lock(); ...; smeta->unlock()\<close>: the body works on the latched word
  and the shared data.
\<close>

definition latched ::
  "u64 option \<Rightarrow> ('k, 'v, 'p) cxl \<Rightarrow> (u64 \<Rightarrow> 'v scc_data \<Rightarrow> ('r \<times> u64 \<times> 'v scc_data) res) \<Rightarrow>
     ('r \<times> ('k, 'v, 'p) cxl) res" where
  "latched ptr c body =
     bind_res (deref (smetas c) ptr) (\<lambda>w.
       let off = sm_get_scc_data w in
       bind_res (deref (sccs c) (Some off)) (\<lambda>d.
         case sm_lock w of
           None \<Rightarrow> Inl Latch_held
         | Some w1 \<Rightarrow> bind_res (body w1 d) (\<lambda>(r, w2, d').
             Inr (r, c\<lparr>smetas := (smetas c)(the ptr \<mapsto> sm_unlock w2), sccs := (sccs c)(off \<mapsto> d')\<rparr>))))"

section \<open>Reads and updates under a lock\<close>

definition read :: "helper \<Rightarrow> 'v lrow \<Rightarrow> ('k, 'v, 'p) cxl \<Rightarrow> ((u64 \<times> 'v) \<times> ('k, 'v, 'p) cxl) res" where
  "read H r c =
     dcheck (ndebug H) (l_is_valid r)
       (if \<not> l_is_migrated r then Inr ((remove_lock_bit (l_tid r), l_data r), c)
        else latched (l_migrated_row r) c (\<lambda>w d.
          bind_res (prepare_read_null (manager H)) (\<lambda>_.
          dcheck (ndebug H) (get_flag valid_flag_index d)
            (Inr ((remove_lock_bit (s_tid d), s_data d), w, d)))))"

definition update :: "helper \<Rightarrow> 'v \<Rightarrow> 'v lrow \<Rightarrow> ('k, 'v, 'p) cxl \<Rightarrow> ('v lrow \<times> ('k, 'v, 'p) cxl) res" where
  "update H value r c =
     dcheck (ndebug H) (l_is_valid r)
       (if \<not> l_is_migrated r
        then Inr (r\<lparr>l_data := value, l_is_data_modified_since_moved_out := True\<rparr>, c)
        else latched (l_migrated_row r) c (\<lambda>w d.
          dcheck (ndebug H) (get_flag valid_flag_index d)
            (Inr (r, sm_set_is_data_modified_since_moved_in w, d\<lparr>s_data := value\<rparr>))))"

definition remote_update :: "helper \<Rightarrow> u64 \<Rightarrow> 'v \<Rightarrow> ('k, 'v, 'p) cxl \<Rightarrow> (unit \<times> ('k, 'v, 'p) cxl) res" where
  "remote_update H row value c =
     latched (Some row) c (\<lambda>w d.
       dcheck (ndebug H) (get_flag valid_flag_index d)
         (Inr ((), sm_set_is_data_modified_since_moved_in w, d\<lparr>s_data := value\<rparr>)))"

section \<open>Taking locks\<close>

text \<open>
  The part the four local lock operations share on a migrated row: fail on an invalid row, refresh
  the owner's copy when the shared one has been modified, and return the version.
\<close>

definition local_view :: "u64 \<Rightarrow> 'v scc_data \<Rightarrow> 'v lrow \<Rightarrow> (u64 \<times> u64 \<times> 'v lrow) option" where
  "local_view w d r =
     (if sm_is_data_modified_since_moved_in w then
        if \<not> get_flag valid_flag_index d then None
        else Some (remove_lock_bit (s_tid d), sm_clear_is_data_modified_since_moved_in w,
          r\<lparr>l_is_valid := get_flag valid_flag_index d, l_tid := s_tid d, l_data := s_data d\<rparr>)
      else if \<not> l_is_valid r then None
      else Some (remove_lock_bit (l_tid r), w, r))"

text \<open>The result of a lock operation: the version, whether the lock was taken, the data read.\<close>

type_synonym 'v lock_result = "u64 \<times> bool \<times> 'v option"

definition take_read_lock_and_read ::
  "helper \<Rightarrow> 'v lrow \<Rightarrow> ('k, 'v, 'p) cxl \<Rightarrow> (('v lock_result \<times> 'v lrow) \<times> ('k, 'v, 'p) cxl) res" where
  "take_read_lock_and_read H r c =
     (if \<not> l_is_migrated r then
        if \<not> l_is_valid r then Inr (((0, False, None), r), c)
        else let old_value = l_tid r; tid = remove_lock_bit old_value in
          case tid_try_read old_value of
            None \<Rightarrow> Inr (((tid, False, None), r), c)
          | Some new_value \<Rightarrow> Inr (((tid, True, Some (l_data r)), r\<lparr>l_tid := new_value\<rparr>), c)
      else latched (l_migrated_row r) c (\<lambda>w d.
        let w = fst (prepare_read (manager H) (coordinator_id H) w) in
        case local_view w d r of
          None \<Rightarrow> Inr (((0, False, None), r), w, d)
        | Some (tid, w, r) \<Rightarrow>
            (case sm_try_read w of
               None \<Rightarrow> Inr (((tid, False, None), r), w, d)
             | Some w \<Rightarrow> Inr (((tid, True, Some (l_data r)), r), w, d))))"

definition read_lock ::
  "helper \<Rightarrow> 'v lrow \<Rightarrow> ('k, 'v, 'p) cxl \<Rightarrow> (((u64 \<times> bool) \<times> 'v lrow) \<times> ('k, 'v, 'p) cxl) res" where
  "read_lock H r c =
     (if \<not> l_is_migrated r then
        if \<not> l_is_valid r then Inr (((0, False), r), c)
        else let old_value = l_tid r; tid = remove_lock_bit old_value in
          case tid_try_read old_value of
            None \<Rightarrow> Inr (((tid, False), r), c)
          | Some new_value \<Rightarrow> Inr (((tid, True), r\<lparr>l_tid := new_value\<rparr>), c)
      else latched (l_migrated_row r) c (\<lambda>w d.
        let w = fst (prepare_read (manager H) (coordinator_id H) w) in
        case local_view w d r of
          None \<Rightarrow> Inr (((0, False), r), w, d)
        | Some (tid, w, r) \<Rightarrow>
            (case sm_try_read w of
               None \<Rightarrow> Inr (((tid, False), r), w, d)
             | Some w \<Rightarrow> Inr (((tid, True), r), w, d))))"

definition take_write_lock_and_read ::
  "helper \<Rightarrow> 'v lrow \<Rightarrow> ('k, 'v, 'p) cxl \<Rightarrow> (('v lock_result \<times> 'v lrow) \<times> ('k, 'v, 'p) cxl) res" where
  "take_write_lock_and_read H r c =
     (if \<not> l_is_migrated r then
        if \<not> l_is_valid r then Inr (((0, False, None), r), c)
        else let old_value = l_tid r; tid = remove_lock_bit old_value in
          case tid_try_write old_value of
            None \<Rightarrow> Inr (((tid, False, None), r), c)
          | Some new_value \<Rightarrow> Inr (((tid, True, Some (l_data r)), r\<lparr>l_tid := new_value\<rparr>), c)
      else latched (l_migrated_row r) c (\<lambda>w d.
        let w = fst (prepare_read (manager H) (coordinator_id H) w) in
        case local_view w d r of
          None \<Rightarrow> Inr (((0, False, None), r), w, d)
        | Some (tid, w, r) \<Rightarrow>
            (case sm_try_write w of
               None \<Rightarrow> Inr (((tid, False, None), r), w, d)
             | Some w \<Rightarrow> Inr (((tid, True, Some (l_data r)), r), w, d))))"

definition write_lock ::
  "helper \<Rightarrow> 'v lrow \<Rightarrow> ('k, 'v, 'p) cxl \<Rightarrow> (((u64 \<times> bool) \<times> 'v lrow) \<times> ('k, 'v, 'p) cxl) res" where
  "write_lock H r c =
     (if \<not> l_is_migrated r then
        if \<not> l_is_valid r then Inr (((0, False), r), c)
        else let old_value = l_tid r; tid = remove_lock_bit old_value in
          case tid_try_write old_value of
            None \<Rightarrow> Inr (((tid, False), r), c)
          | Some new_value \<Rightarrow> Inr (((tid, True), r\<lparr>l_tid := new_value\<rparr>), c)
      else latched (l_migrated_row r) c (\<lambda>w d.
        let w = fst (prepare_read (manager H) (coordinator_id H) w) in
        case local_view w d r of
          None \<Rightarrow> Inr (((0, False), r), w, d)
        | Some (tid, w, r) \<Rightarrow>
            (case sm_try_write w of
               None \<Rightarrow> Inr (((tid, False), r), w, d)
             | Some w \<Rightarrow> Inr (((tid, True), r), w, d))))"

text \<open>The same on another host, which has a pointer to the atomic word only.\<close>

definition remote_take_read_lock_and_read ::
  "helper \<Rightarrow> u64 \<Rightarrow> bool \<Rightarrow> ('k, 'v, 'p) cxl \<Rightarrow> ('v lock_result \<times> ('k, 'v, 'p) cxl) res" where
  "remote_take_read_lock_and_read H row inc_ref_cnt c =
     latched (Some row) c (\<lambda>w d.
       let w = fst (prepare_read (manager H) (coordinator_id H) w) in
       if \<not> get_flag valid_flag_index d then Inr ((remove_lock_bit 0, False, None), w, d)
       else let tid = remove_lock_bit (s_tid d) in
         case sm_try_read w of
           None \<Rightarrow> Inr ((tid, False, None), w, d)
         | Some w \<Rightarrow> Inr ((tid, True, Some (s_data d)), w,
             if inc_ref_cnt then d\<lparr>s_ref_cnt := s_ref_cnt d + 1\<rparr> else d))"

definition remote_read_lock_and_inc_ref_cnt ::
  "helper \<Rightarrow> u64 \<Rightarrow> ('k, 'v, 'p) cxl \<Rightarrow> ((u64 \<times> bool) \<times> ('k, 'v, 'p) cxl) res" where
  "remote_read_lock_and_inc_ref_cnt H row c =
     latched (Some row) c (\<lambda>w d.
       let w = fst (prepare_read (manager H) (coordinator_id H) w) in
       if \<not> get_flag valid_flag_index d then Inr ((remove_lock_bit 0, False), w, d)
       else let tid = remove_lock_bit (s_tid d) in
         case sm_try_read w of
           None \<Rightarrow> Inr ((tid, False), w, d)
         | Some w \<Rightarrow> Inr ((tid, True), w, d\<lparr>s_ref_cnt := s_ref_cnt d + 1\<rparr>))"

definition remote_take_write_lock_and_read ::
  "helper \<Rightarrow> u64 \<Rightarrow> bool \<Rightarrow> ('k, 'v, 'p) cxl \<Rightarrow> ('v lock_result \<times> ('k, 'v, 'p) cxl) res" where
  "remote_take_write_lock_and_read H row inc_ref_cnt c =
     latched (Some row) c (\<lambda>w d.
       let w = fst (prepare_read (manager H) (coordinator_id H) w) in
       if \<not> get_flag valid_flag_index d then Inr ((remove_lock_bit 0, False, None), w, d)
       else let tid = remove_lock_bit (s_tid d) in
         case sm_try_write w of
           None \<Rightarrow> Inr ((tid, False, None), w, d)
         | Some w \<Rightarrow> Inr ((tid, True, Some (s_data d)), w,
             if inc_ref_cnt then d\<lparr>s_ref_cnt := s_ref_cnt d + 1\<rparr> else d))"

definition remote_write_lock_and_inc_ref_cnt ::
  "helper \<Rightarrow> u64 \<Rightarrow> ('k, 'v, 'p) cxl \<Rightarrow> ((u64 \<times> bool) \<times> ('k, 'v, 'p) cxl) res" where
  "remote_write_lock_and_inc_ref_cnt H row c =
     latched (Some row) c (\<lambda>w d.
       let w = fst (prepare_read (manager H) (coordinator_id H) w) in
       if \<not> get_flag valid_flag_index d then Inr ((0, False), w, d)
       else let tid = remove_lock_bit (s_tid d) in
         case sm_try_write w of
           None \<Rightarrow> Inr ((tid, False), w, d)
         | Some w \<Rightarrow> Inr ((tid, True), w, d\<lparr>s_ref_cnt := s_ref_cnt d + 1\<rparr>))"

section \<open>Releasing locks\<close>

definition read_lock_release :: "bool \<Rightarrow> 'v lrow \<Rightarrow> ('k, 'v, 'p) cxl \<Rightarrow> ('v lrow \<times> ('k, 'v, 'p) cxl) res" where
  "read_lock_release nd r c =
     (if \<not> l_is_migrated r then
        dcheck nd (l_is_valid r) (dcheck nd (is_read_locked (l_tid r)) (dcheck nd (\<not> is_write_locked (l_tid r))
          (Inr (r\<lparr>l_tid := tid_release_read (l_tid r)\<rparr>, c))))
      else latched (l_migrated_row r) c (\<lambda>w d.
        dcheck nd (sm_get_reader_count w > 0) (dcheck nd (\<not> sm_is_write_locked w)
          (Inr (r, sm_decrease_reader_count w, d)))))"

definition remote_read_lock_release :: "bool \<Rightarrow> u64 \<Rightarrow> ('k, 'v, 'p) cxl \<Rightarrow> (unit \<times> ('k, 'v, 'p) cxl) res" where
  "remote_read_lock_release nd row c =
     latched (Some row) c (\<lambda>w d.
       dcheck nd (sm_get_reader_count w > 0) (dcheck nd (\<not> sm_is_write_locked w)
         (Inr ((), sm_decrease_reader_count w, d))))"

definition write_lock_release :: "bool \<Rightarrow> 'v lrow \<Rightarrow> ('k, 'v, 'p) cxl \<Rightarrow> ('v lrow \<times> ('k, 'v, 'p) cxl) res" where
  "write_lock_release nd r c =
     (if \<not> l_is_migrated r then
        dcheck nd (l_is_valid r) (dcheck nd (\<not> is_read_locked (l_tid r)) (dcheck nd (is_write_locked (l_tid r))
          (Inr (r\<lparr>l_tid := tid_release_write (l_tid r)\<rparr>, c))))
      else latched (l_migrated_row r) c (\<lambda>w d.
        dcheck nd (sm_get_reader_count w = 0) (dcheck nd (sm_is_write_locked w)
          (Inr (r, sm_clear_write_locked w, d)))))"

definition remote_write_lock_release :: "bool \<Rightarrow> u64 \<Rightarrow> ('k, 'v, 'p) cxl \<Rightarrow> (unit \<times> ('k, 'v, 'p) cxl) res" where
  "remote_write_lock_release nd row c =
     latched (Some row) c (\<lambda>w d.
       dcheck nd (sm_get_reader_count w = 0) (dcheck nd (sm_is_write_locked w)
         (Inr ((), sm_clear_write_locked w, d))))"

text \<open>The releases that install a new version after an update.\<close>

definition write_lock_release_new ::
  "helper \<Rightarrow> u64 \<Rightarrow> 'v lrow \<Rightarrow> ('k, 'v, 'p) cxl \<Rightarrow> ('v lrow \<times> ('k, 'v, 'p) cxl) res" where
  "write_lock_release_new H new_value r c =
     (if \<not> l_is_migrated r then
        dcheck (ndebug H) (l_is_valid r)
          (dcheck (ndebug H) (\<not> is_read_locked (l_tid r)) (dcheck (ndebug H) (is_write_locked (l_tid r))
          (dcheck (ndebug H) (\<not> is_read_locked new_value) (dcheck (ndebug H) (\<not> is_write_locked new_value)
            (Inr (r\<lparr>l_tid := new_value\<rparr>, c))))))
      else latched (l_migrated_row r) c (\<lambda>w d.
        dcheck (ndebug H) (sm_get_reader_count w = 0) (dcheck (ndebug H) (sm_is_write_locked w)
          (bind_res (finish_write (manager H) (coordinator_id H) (sm_clear_write_locked w)) (\<lambda>(w, _).
            Inr (r, w, d\<lparr>s_tid := new_value\<rparr>))))))"

definition remote_write_lock_release_new ::
  "helper \<Rightarrow> u64 \<Rightarrow> u64 \<Rightarrow> ('k, 'v, 'p) cxl \<Rightarrow> (unit \<times> ('k, 'v, 'p) cxl) res" where
  "remote_write_lock_release_new H row new_value c =
     latched (Some row) c (\<lambda>w d.
       dcheck (ndebug H) (get_flag valid_flag_index d)
         (dcheck (ndebug H) (sm_get_reader_count w = 0) (dcheck (ndebug H) (sm_is_write_locked w)
           (bind_res (finish_write (manager H) (coordinator_id H) (sm_clear_write_locked w)) (\<lambda>(w, _).
             Inr ((), w, d\<lparr>s_tid := new_value\<rparr>))))))"

section \<open>The valid bit, reference counts\<close>

definition put_valid :: "bool \<Rightarrow> 'v scc_data \<Rightarrow> 'v scc_data" where
  "put_valid is_valid d = (if is_valid then set_flag valid_flag_index d else clear_flag valid_flag_index d)"

definition modify_tuple_valid_bit ::
  "helper \<Rightarrow> bool \<Rightarrow> bool \<Rightarrow> 'v lrow \<Rightarrow> ('k, 'v, 'p) cxl \<Rightarrow> ('v lrow \<times> ('k, 'v, 'p) cxl) res" where
  "modify_tuple_valid_bit H is_valid is_insert r c =
     (if l_is_migrated r then
        latched (l_migrated_row r) c (\<lambda>w d.
          dcheck (ndebug H) (get_flag valid_flag_index d \<longleftrightarrow> \<not> is_valid)
            (if is_insert
             then bind_res (finish_write (manager H) (coordinator_id H)
                 (fst (prepare_read (manager H) (coordinator_id H) w))) (\<lambda>(w, _). Inr (r, w, put_valid is_valid d))
             else Inr (r, w, put_valid is_valid d)))
      else dcheck (ndebug H) (l_is_valid r \<longleftrightarrow> \<not> is_valid) (Inr (r\<lparr>l_is_valid := is_valid\<rparr>, c)))"

definition remote_modify_tuple_valid_bit ::
  "helper \<Rightarrow> u64 \<Rightarrow> bool \<Rightarrow> bool \<Rightarrow> ('k, 'v, 'p) cxl \<Rightarrow> (unit \<times> ('k, 'v, 'p) cxl) res" where
  "remote_modify_tuple_valid_bit H row is_valid is_insert c =
     latched (Some row) c (\<lambda>w d.
       dcheck (ndebug H) (s_ref_cnt d > 0) (dcheck (ndebug H) (get_flag valid_flag_index d \<longleftrightarrow> \<not> is_valid)
         (if is_insert
          then bind_res (finish_write (manager H) (coordinator_id H)
              (fst (prepare_read (manager H) (coordinator_id H) w))) (\<lambda>(w, _). Inr ((), w, put_valid is_valid d))
          else Inr ((), w, put_valid is_valid d))))"

text \<open>
  Remote point queries look a key up in the CXL index. \<open>get_migrated_row\<close> returns the row and the
  offset of the policy metadata to report an access to.
\<close>

definition get_migrated_row ::
  "'k \<Rightarrow> bool \<Rightarrow> ('k, 'v, 'p) cxl \<Rightarrow> ((u64 option \<times> u64 option) \<times> ('k, 'v, 'p) cxl) res" where
  "get_migrated_row key inc_ref_cnt c =
     (case index c key of
        None \<Rightarrow> Inr ((None, None), c)
      | Some row \<Rightarrow> latched (Some row) c (\<lambda>w d.
          if get_flag valid_flag_index d then
            if inc_ref_cnt
            then Inr ((Some row, Some (sm_get_scc_data w)), w, d\<lparr>s_ref_cnt := s_ref_cnt d + 1\<rparr>)
            else Inr ((Some row, None), w, d)
          else Inr ((None, None), w, d)))"

definition decrease_reference_count_via_ptr ::
  "bool \<Rightarrow> u64 \<Rightarrow> ('k, 'v, 'p) cxl \<Rightarrow> (unit \<times> ('k, 'v, 'p) cxl) res" where
  "decrease_reference_count_via_ptr nd row c =
     latched (Some row) c (\<lambda>w d.
       dcheck nd (s_ref_cnt d > 0) (Inr ((), w, d\<lparr>s_ref_cnt := s_ref_cnt d - 1\<rparr>)))"

definition release_migrated_row :: "bool \<Rightarrow> 'k \<Rightarrow> ('k, 'v, 'p) cxl \<Rightarrow> (unit \<times> ('k, 'v, 'p) cxl) res" where
  "release_migrated_row nd key c =
     dcheck nd (index c key \<noteq> None)
       (latched (index c key) c (\<lambda>w d.
         dcheck nd (s_ref_cnt d > 0) (Inr ((), w, d\<lparr>s_ref_cnt := s_ref_cnt d - 1\<rparr>))))"

section \<open>What a word shows\<close>

text \<open>
  The rest of the protocol sees of an atomic word the lock, the modified bit and the data offset;
  latching and the coherence managers leave these alone.
\<close>

definition sm_view :: "u64 \<Rightarrow> nat \<times> bool \<times> bool \<times> u64" where
  "sm_view w = (sm_readers w, sm_is_write_locked w, sm_is_data_modified_since_moved_in w, sm_get_scc_data w)"

lemma sm_view_cong: "(\<And>k. k < 47 \<Longrightarrow> bit w k = bit w' k) \<Longrightarrow> sm_view w = sm_view w'"
  unfolding sm_view_def sm_readers_def fields
  by (auto intro!: arg_cong [of _ _ unat] fld_cong)

lemma sm_view_latch [simp]: "sm_view (sm_unlock w) = sm_view w" "sm_view (upd_fld 63 (Suc 0) x w) = sm_view w"
  by (rule sm_view_cong; simp add: fields bit_upd_fld)+

lemma sm_unlock_free: "\<not> bit (sm_unlock w) 63"
  by (simp add: fields bit_upd_fld)

lemma sm_view_prepare_read: "h < 16 \<Longrightarrow> sm_view (fst (prepare_read m h w)) = sm_view w"
  by (rule sm_view_cong) (cases m; simp add: manager_defs fields bit_upd_fld Let_def)

lemma sm_view_finish_write: "h < 16 \<Longrightarrow> finish_write m h w = Inr (w', b) \<Longrightarrow> sm_view w' = sm_view w"
  by (rule sm_view_cong) (cases m; auto simp: manager_defs fields bit_upd_fld Let_def res_iffs)

lemma sm_rest_view:
  assumes "sm_rest t = sm_rest w"
  shows "sm_is_data_modified_since_moved_in t = sm_is_data_modified_since_moved_in w"
    "sm_get_scc_data t = sm_get_scc_data w" "bit t 63 = bit w 63"
proof -
  have "bit t k = bit w k" if "k < 41 \<or> 47 \<le> k" for k
    using arg_cong [OF assms, of "\<lambda>v. bit v k"] that
    by (cases "k < 64") (auto simp: sm_rest_fields bit_upd_fld dest: bit_imp_le_length)
  then show "sm_is_data_modified_since_moved_in t = sm_is_data_modified_since_moved_in w"
    "sm_get_scc_data t = sm_get_scc_data w" "bit t 63 = bit w 63"
    by (auto simp: fields intro!: fld_cong)
qed

lemma sm_view_writes:
  "sm_view (sm_set_is_data_modified_since_moved_in w) = (case sm_view w of (n, x, _, off) \<Rightarrow> (n, x, True, off))"
  "sm_view (sm_clear_is_data_modified_since_moved_in w) = (case sm_view w of (n, x, _, off) \<Rightarrow> (n, x, False, off))"
  "sm_try_read w = Some w' \<Longrightarrow> sm_view w' = (case sm_view w of (n, x, m, off) \<Rightarrow> (Suc n, x, m, off))"
  "sm_try_write w = Some w' \<Longrightarrow> sm_view w' = (case sm_view w of (n, x, m, off) \<Rightarrow> (n, True, m, off))"
  "0 < sm_readers w \<Longrightarrow>
     sm_view (sm_decrease_reader_count w) = (case sm_view w of (n, x, m, off) \<Rightarrow> (n - 1, x, m, off))"
  "sm_is_write_locked w \<Longrightarrow>
     sm_view (sm_clear_write_locked w) = (case sm_view w of (n, x, m, off) \<Rightarrow> (n, False, m, off))"
proof -
  show "sm_view (sm_set_is_data_modified_since_moved_in w) = (case sm_view w of (n, x, _, off) \<Rightarrow> (n, x, True, off))"
    "sm_view (sm_clear_is_data_modified_since_moved_in w) = (case sm_view w of (n, x, _, off) \<Rightarrow> (n, x, False, off))"
    by (simp_all add: sm_view_def sm_readers_def field_calculus)
  show "sm_try_read w = Some w' \<Longrightarrow> sm_view w' = (case sm_view w of (n, x, m, off) \<Rightarrow> (Suc n, x, m, off))"
    using sml.try_read_Some [of w w'] sm_rest_view [of w' w] by (simp add: sm_view_def)
  show "sm_try_write w = Some w' \<Longrightarrow> sm_view w' = (case sm_view w of (n, x, m, off) \<Rightarrow> (n, True, m, off))"
    using sml.try_write_Some [of w w'] sm_rest_view [of w' w] by (simp add: sm_view_def)
  show "0 < sm_readers w \<Longrightarrow>
     sm_view (sm_decrease_reader_count w) = (case sm_view w of (n, x, m, off) \<Rightarrow> (n - 1, x, m, off))"
    using sml.release_read [of w] sm_rest_view [of "sm_decrease_reader_count w" w] by (simp add: sm_view_def)
  show "sm_is_write_locked w \<Longrightarrow>
     sm_view (sm_clear_write_locked w) = (case sm_view w of (n, x, m, off) \<Rightarrow> (n, False, m, off))"
    using sml.release_write [of w] sm_rest_view [of "sm_clear_write_locked w" w] by (simp add: sm_view_def)
qed

lemma get_flag_bit: "get_flag k d \<longleftrightarrow> bit (s_flags d) k"
  by (simp add: get_flag_def push_bit_eq_mult and_exp_eq_0_iff_not_bit)

lemma flags [simp]:
  "get_flag 0 (set_flag 0 d)" "\<not> get_flag 0 (clear_flag 0 d)"
  "s_data (set_flag k d) = s_data d" "s_data (clear_flag k d) = s_data d"
  "s_tid (set_flag k d) = s_tid d" "s_tid (clear_flag k d) = s_tid d"
  "s_ref_cnt (set_flag k d) = s_ref_cnt d" "s_ref_cnt (clear_flag k d) = s_ref_cnt d"
  unfolding get_flag_bit by (simp_all add: set_flag_def clear_flag_def bit_simps)

lemma get_flag_upd [simp]:
  "get_flag k (d\<lparr>s_data := v\<rparr>) = get_flag k d" "get_flag k (d\<lparr>s_tid := t\<rparr>) = get_flag k d"
  "get_flag k (d\<lparr>s_ref_cnt := n\<rparr>) = get_flag k d"
  by (simp_all add: get_flag_def)

section \<open>A row on a migrated or private copy\<close>

text \<open>What the transactions rely on: one reader/writer lock, a valid bit, a version and a value.\<close>

record 'v arow =
  a_readers :: nat
  a_writer :: bool
  a_valid :: bool
  a_version :: u64
  a_val :: 'v

definition abs_local :: "'v lrow \<Rightarrow> 'v arow" where
  "abs_local r = \<lparr>a_readers = tid_readers (l_tid r), a_writer = is_write_locked (l_tid r),
     a_valid = l_is_valid r, a_version = remove_lock_bit (l_tid r), a_val = l_data r\<rparr>"

definition abs_shared :: "u64 \<Rightarrow> 'v scc_data \<Rightarrow> 'v arow" where
  "abs_shared w d = \<lparr>a_readers = sm_readers w, a_writer = sm_is_write_locked w,
     a_valid = get_flag valid_flag_index d, a_version = remove_lock_bit (s_tid d), a_val = s_data d\<rparr>"

text \<open>\<open>shared_at c p w d\<close>: at \<open>p\<close> there is an atomic word with a free latch, with its data.\<close>

definition shared_at :: "('k, 'v, 'p) cxl \<Rightarrow> u64 \<Rightarrow> u64 \<Rightarrow> 'v scc_data \<Rightarrow> bool" where
  "shared_at c p w d \<longleftrightarrow> smetas c p = Some w \<and> \<not> bit w 63 \<and> sccs c (sm_get_scc_data w) = Some d"

definition row_abs :: "'v lrow \<Rightarrow> ('k, 'v, 'p) cxl \<Rightarrow> 'v arow" where
  "row_abs r c =
     (if l_is_migrated r
      then let w = the (smetas c (the (l_migrated_row r))) in abs_shared w (the (sccs c (sm_get_scc_data w)))
      else abs_local r)"

text \<open>
  The invariant of a row: a migrated row has its atomic word and data in CXL memory, and the
  owner's copy equals the shared data unless the modified bit is set; a row that has moved out
  and has not been modified since equals the data it left behind. Readers exclude a writer.
\<close>

definition row_inv :: "'v lrow \<Rightarrow> ('k, 'v, 'p) cxl \<Rightarrow> bool" where
  "row_inv r c \<longleftrightarrow>
     (if l_is_migrated r
      then \<exists>p w d. l_migrated_row r = Some p \<and> shared_at c p w d \<and> l_scc_data r = Some (sm_get_scc_data w) \<and>
        (\<not> sm_is_data_modified_since_moved_in w \<longrightarrow> l_data r = s_data d)
      else (l_is_data_modified_since_moved_out r \<or>
        (\<exists>off d. l_scc_data r = Some off \<and> sccs c off = Some d \<and> s_data d = l_data r))) \<and>
     (a_writer (row_abs r c) \<longrightarrow> a_readers (row_abs r c) = 0)"

lemma row_inv_migratedI:
  assumes "l_is_migrated r" "l_migrated_row r = Some p" "shared_at c p w d" "l_scc_data r = Some (sm_get_scc_data w)"
    "\<not> sm_is_data_modified_since_moved_in w \<Longrightarrow> l_data r = s_data d"
    "a_writer (row_abs r c) \<Longrightarrow> a_readers (row_abs r c) = 0"
  shows "row_inv r c"
  using assms unfolding row_inv_def by auto

lemma row_inv_migratedE:
  assumes "row_inv r c" "l_is_migrated r"
  obtains p w d where "l_migrated_row r = Some p" "shared_at c p w d" "l_scc_data r = Some (sm_get_scc_data w)"
    "\<not> sm_is_data_modified_since_moved_in w \<Longrightarrow> l_data r = s_data d" "row_abs r c = abs_shared w d"
    "sm_is_write_locked w \<Longrightarrow> sm_readers w = 0"
proof -
  from assms obtain p w d where *: "l_migrated_row r = Some p" "shared_at c p w d"
    "l_scc_data r = Some (sm_get_scc_data w)" "\<not> sm_is_data_modified_since_moved_in w \<Longrightarrow> l_data r = s_data d"
    by (auto simp: row_inv_def)
  moreover from * have abs: "row_abs r c = abs_shared w d"
    using assms(2) by (simp add: row_abs_def shared_at_def)
  ultimately show ?thesis
    using that assms(1) by (auto simp: row_inv_def abs_shared_def)
qed

lemma latched_at:
  assumes "shared_at c p w d"
  shows "latched (Some p) c body = bind_res (body (upd_fld 63 (Suc 0) 1 w) d) (\<lambda>(r, w2, d').
     Inr (r, c\<lparr>smetas := (smetas c)(p \<mapsto> sm_unlock w2), sccs := (sccs c)(sm_get_scc_data w \<mapsto> d')\<rparr>))"
  using assms by (simp add: latched_def shared_at_def sm_lock_fields Let_def)

text \<open>
  The state after a latched section whose body kept the offset, for a row with owner's copy \<open>r'\<close>.
\<close>

lemma latched_row:
  assumes at: "shared_at c p w d" and off: "sm_get_scc_data w2 = sm_get_scc_data w"
    and r: "l_is_migrated r'" "l_migrated_row r' = Some p" "l_scc_data r' = Some (sm_get_scc_data w)"
    and c': "c' = c\<lparr>smetas := (smetas c)(p \<mapsto> sm_unlock w2), sccs := (sccs c)(sm_get_scc_data w \<mapsto> d')\<rparr>"
  shows "row_abs r' c' = abs_shared w2 d'"
    and "(\<not> sm_is_data_modified_since_moved_in w2 \<Longrightarrow> l_data r' = s_data d') \<Longrightarrow>
      (sm_is_write_locked w2 \<Longrightarrow> sm_readers w2 = 0) \<Longrightarrow> row_inv r' c'"
proof -
  have v: "sm_readers (sm_unlock w2) = sm_readers w2" "sm_is_write_locked (sm_unlock w2) = sm_is_write_locked w2"
    "sm_is_data_modified_since_moved_in (sm_unlock w2) = sm_is_data_modified_since_moved_in w2"
    "sm_get_scc_data (sm_unlock w2) = sm_get_scc_data w"
    using sm_view_latch(1) [of w2] off unfolding sm_view_def by simp_all
  have at': "shared_at c' p (sm_unlock w2) d'"
    using v(4) by (simp add: c' shared_at_def sm_unlock_free)
  show abs: "row_abs r' c' = abs_shared w2 d'"
    using r(1,2) v by (simp add: row_abs_def c' abs_shared_def Let_def)
  show "(\<not> sm_is_data_modified_since_moved_in w2 \<Longrightarrow> l_data r' = s_data d') \<Longrightarrow>
      (sm_is_write_locked w2 \<Longrightarrow> sm_readers w2 = 0) \<Longrightarrow> row_inv r' c'"
    using row_inv_migratedI [OF r(1,2) at'] r(3) v abs by (simp add: abs_shared_def)
qed

section \<open>Every operation on the row\<close>

text \<open>
  Taking a lock to read or to write differs in the step on the \<open>tid\<close> word or on the atomic word
  only. \<open>free\<close> tells when the step succeeds, \<open>readers'\<close> and \<open>writer'\<close> what the lock is then.
\<close>

definition lock_and_read ::
  "(u64 \<Rightarrow> u64 option) \<Rightarrow> (u64 \<Rightarrow> u64 option) \<Rightarrow> helper \<Rightarrow> 'v lrow \<Rightarrow> ('k, 'v, 'p) cxl \<Rightarrow>
     (('v lock_result \<times> 'v lrow) \<times> ('k, 'v, 'p) cxl) res" where
  "lock_and_read try_tid try_sm H r c =
     (if \<not> l_is_migrated r then
        if \<not> l_is_valid r then Inr (((0, False, None), r), c)
        else case try_tid (l_tid r) of
            None \<Rightarrow> Inr (((remove_lock_bit (l_tid r), False, None), r), c)
          | Some t \<Rightarrow> Inr (((remove_lock_bit (l_tid r), True, Some (l_data r)), r\<lparr>l_tid := t\<rparr>), c)
      else latched (l_migrated_row r) c (\<lambda>w d.
        let w = fst (prepare_read (manager H) (coordinator_id H) w) in
        case local_view w d r of
          None \<Rightarrow> Inr (((0, False, None), r), w, d)
        | Some (tid, w, r) \<Rightarrow>
            (case try_sm w of
               None \<Rightarrow> Inr (((tid, False, None), r), w, d)
             | Some w \<Rightarrow> Inr (((tid, True, Some (l_data r)), r), w, d))))"

definition remote_lock_and_read ::
  "(u64 \<Rightarrow> u64 option) \<Rightarrow> helper \<Rightarrow> u64 \<Rightarrow> bool \<Rightarrow> ('k, 'v, 'p) cxl \<Rightarrow> ('v lock_result \<times> ('k, 'v, 'p) cxl) res" where
  "remote_lock_and_read try_sm H row inc c =
     latched (Some row) c (\<lambda>w d.
       let w = fst (prepare_read (manager H) (coordinator_id H) w) in
       if \<not> get_flag valid_flag_index d then Inr ((0, False, None), w, d)
       else case try_sm w of
           None \<Rightarrow> Inr ((remove_lock_bit (s_tid d), False, None), w, d)
         | Some w \<Rightarrow> Inr ((remove_lock_bit (s_tid d), True, Some (s_data d)), w,
             if inc then d\<lparr>s_ref_cnt := s_ref_cnt d + 1\<rparr> else d))"

definition drop_data :: "(('v lock_result \<times> 'a) \<times> 'b) res \<Rightarrow> (((u64 \<times> bool) \<times> 'a) \<times> 'b) res" where
  "drop_data = map_sum id (\<lambda>(r, c). (case r of ((tid, ok, _), x) \<Rightarrow> ((tid, ok), x), c))"

definition lock_post :: "(nat \<Rightarrow> bool \<Rightarrow> bool) \<Rightarrow> (nat \<Rightarrow> nat) \<Rightarrow> (bool \<Rightarrow> bool) \<Rightarrow> 'v arow \<Rightarrow> bool \<Rightarrow> 'v arow \<Rightarrow> bool" where
  "lock_post free readers' writer' a ok a' \<longleftrightarrow>
     (if ok then free (a_readers a) (a_writer a) \<and>
        a' = a\<lparr>a_readers := readers' (a_readers a), a_writer := writer' (a_writer a)\<rparr>
      else a' = a)"

text \<open>The row keeps its place.\<close>

definition same_place :: "'v lrow \<Rightarrow> 'v lrow \<Rightarrow> bool" where
  "same_place r r' \<longleftrightarrow> l_is_migrated r' = l_is_migrated r \<and> l_migrated_row r' = l_migrated_row r \<and>
     l_scc_data r' = l_scc_data r"

lemma same_place_refl [simp]: "same_place r r"
  by (simp add: same_place_def)

lemma sm_viewD:
  assumes "sm_view w' = sm_view w"
  shows "sm_readers w' = sm_readers w" "sm_is_write_locked w' = sm_is_write_locked w"
    "sm_is_data_modified_since_moved_in w' = sm_is_data_modified_since_moved_in w"
    "sm_get_scc_data w' = sm_get_scc_data w"
  using assms by (simp_all add: sm_view_def)

lemma local_view_Some:
  assumes "local_view w d r = Some (tid, w', r')" "\<not> sm_is_data_modified_since_moved_in w \<Longrightarrow> l_data r = s_data d"
  shows "l_data r' = s_data d" "\<not> sm_is_data_modified_since_moved_in w'" "sm_readers w' = sm_readers w"
    "sm_is_write_locked w' = sm_is_write_locked w" "sm_get_scc_data w' = sm_get_scc_data w" "same_place r r'"
  using assms sm_view_writes(2) [of w]
  by (auto simp: local_view_def same_place_def sm_view_def split: if_splits)

lemma row_inv_private:
  assumes "\<not> l_is_migrated r" "row_inv r c" "same_place r r'" "l_data r' = l_data r"
    "l_is_data_modified_since_moved_out r' = l_is_data_modified_since_moved_out r"
    "is_write_locked (l_tid r') \<Longrightarrow> tid_readers (l_tid r') = 0"
  shows "row_inv r' c"
  using assms by (auto simp: row_inv_def row_abs_def abs_local_def same_place_def)

lemma row_abs_private: "\<not> l_is_migrated r \<Longrightarrow> row_abs r c = abs_local r"
  by (simp add: row_abs_def)

lemma latched_map_sum:
  assumes "\<And>w d. f w d = map_sum id (\<lambda>(r, w', d'). (h r, w', d')) (g w d)"
  shows "latched p c f = map_sum id (\<lambda>(r, c'). (h r, c')) (latched p c g)"
  unfolding latched_def assms
  by (auto simp: bind_res_def Let_def map_sum_def split: sum.splits option.splits)

lemma remove_lock_bit_0: "remove_lock_bit 0 = 0"
  by (simp add: remove_lock_bit_def)

lemma lock_operations:
  "take_read_lock_and_read = lock_and_read tid_try_read sm_try_read"
  "take_write_lock_and_read = lock_and_read tid_try_write sm_try_write"
  "remote_take_read_lock_and_read = remote_lock_and_read sm_try_read"
  "remote_take_write_lock_and_read = remote_lock_and_read sm_try_write"
  by (intro ext; unfold take_read_lock_and_read_def take_write_lock_and_read_def lock_and_read_def
      remote_take_read_lock_and_read_def remote_take_write_lock_and_read_def remote_lock_and_read_def Let_def
      remove_lock_bit_0; rule refl)+

lemma lock_without_read:
  "read_lock H r c = drop_data (lock_and_read tid_try_read sm_try_read H r c)"
  "write_lock H r c = drop_data (lock_and_read tid_try_write sm_try_write H r c)"
  unfolding read_lock_def write_lock_def lock_and_read_def drop_data_def
  by (auto simp: Let_def split: option.splits
      intro!: latched_map_sum [where h = "\<lambda>r. case r of ((tid, ok, _), x) \<Rightarrow> ((tid, ok), x)"])

locale lock_kind =
  fixes try_tid :: "u64 \<Rightarrow> u64 option" and try_sm :: "u64 \<Rightarrow> u64 option"
    and free :: "nat \<Rightarrow> bool \<Rightarrow> bool" and readers' :: "nat \<Rightarrow> nat" and writer' :: "bool \<Rightarrow> bool"
  assumes try_tid: "try_tid t = Some t' \<Longrightarrow> free (tid_readers t) (is_write_locked t) \<and>
      tid_readers t' = readers' (tid_readers t) \<and> is_write_locked t' = writer' (is_write_locked t) \<and>
      remove_lock_bit t' = remove_lock_bit t"
    and try_sm: "try_sm w = Some w' \<Longrightarrow> free (sm_readers w) (sm_is_write_locked w) \<and>
      sm_readers w' = readers' (sm_readers w) \<and> sm_is_write_locked w' = writer' (sm_is_write_locked w) \<and>
      sm_rest w' = sm_rest w"
    and try_sm_None: "try_sm w = None \<Longrightarrow> \<not> free (sm_readers w) (sm_is_write_locked w)"
    and exclusive: "free n x \<Longrightarrow> writer' x \<Longrightarrow> readers' n = 0"
begin

lemma private_correct:
  assumes inv: "row_inv r c" and "\<not> l_is_migrated r"
    and run: "lock_and_read try_tid try_sm H r c = Inr (((tid, ok, v), r'), c')"
  shows "row_inv r' c' \<and> same_place r r' \<and> lock_post free readers' writer' (row_abs r c) ok (row_abs r' c') \<and>
    (ok \<longrightarrow> v = Some (a_val (row_abs r c)))"
proof (cases "l_is_valid r \<and> try_tid (l_tid r) \<noteq> None")
  case True
  then obtain t where t: "try_tid (l_tid r) = Some t" by auto
  then have res: "ok" "v = Some (l_data r)" "r' = r\<lparr>l_tid := t\<rparr>" "c' = c"
    using run True assms(2) by (simp_all add: lock_and_read_def)
  have "row_inv r' c"
    using assms(2) inv try_tid [OF t] exclusive by (auto intro!: row_inv_private [of r] simp: res same_place_def)
  then show ?thesis
    using assms(2) try_tid [OF t] by (simp add: res lock_post_def same_place_def row_abs_private abs_local_def)
next
  case False
  then have "\<not> ok" "r' = r" "c' = c"
    using run assms(2) by (auto simp: lock_and_read_def split: if_splits option.splits)
  then show ?thesis using inv by (simp add: lock_post_def)
qed

lemma migrated_correct:
  assumes inv: "row_inv r c" and m: "l_is_migrated r" and h: "coordinator_id H < 16"
    and run: "lock_and_read try_tid try_sm H r c = Inr (((tid, ok, v), r'), c')"
  shows "row_inv r' c' \<and> same_place r r' \<and> lock_post free readers' writer' (row_abs r c) ok (row_abs r' c') \<and>
    (ok \<longrightarrow> v = Some (a_val (row_abs r c)))"
proof -
  from row_inv_migratedE [OF inv m] obtain p w d
    where r: "l_migrated_row r = Some p" "l_scc_data r = Some (sm_get_scc_data w)" and at: "shared_at c p w d"
      and copy: "\<not> sm_is_data_modified_since_moved_in w \<Longrightarrow> l_data r = s_data d"
      and abs: "row_abs r c = abs_shared w d" and excl: "sm_is_write_locked w \<Longrightarrow> sm_readers w = 0" by metis
  define w0 where "w0 = fst (prepare_read (manager H) (coordinator_id H) (upd_fld 63 (Suc 0) 1 w))"
  have w0: "sm_view w0 = sm_view w" using h by (simp add: w0_def sm_view_prepare_read)
  note w0 = sm_viewD [OF w0]
  note run = run [unfolded lock_and_read_def, simplified m r latched_at [OF at] Let_def w0_def [symmetric]]
  consider (invalid) "local_view w0 d r = None"
    | (refused) tid1 w1 r1 where "local_view w0 d r = Some (tid1, w1, r1)" "try_sm w1 = None"
    | (taken) tid1 w1 r1 w2 where "local_view w0 d r = Some (tid1, w1, r1)" "try_sm w1 = Some w2"
    by (cases "local_view w0 d r") force+
  then show ?thesis
  proof cases
    case invalid
    then show ?thesis
      using run latched_row [OF at w0(4) m r refl, of d] copy excl w0 abs
      by (auto simp: lock_post_def abs_shared_def)
  next
    case refused
    note lv = local_view_Some [OF refused(1)]
    show ?thesis
      using run refused latched_row [OF at _ _ _ _ refl, of w1 r1 d] copy excl w0 abs lv m r
      by (auto simp: lock_post_def abs_shared_def same_place_def)
  next
    case taken
    note lv = local_view_Some [OF taken(1)] and w2 = try_sm [OF taken(2)]
    show ?thesis
      using run taken latched_row [OF at _ _ _ _ refl, of w2 r1 d] copy w0 abs lv m r w2
        sm_rest_view [of w2 w1] exclusive
      by (auto simp: lock_post_def abs_shared_def same_place_def)
  qed
qed

lemma lock_correct:
  assumes "row_inv r c" "coordinator_id H < 16"
    "lock_and_read try_tid try_sm H r c = Inr (((tid, ok, v), r'), c')"
  shows "row_inv r' c' \<and> same_place r r' \<and> lock_post free readers' writer' (row_abs r c) ok (row_abs r' c') \<and>
    (ok \<longrightarrow> v = Some (a_val (row_abs r c)))"
  using private_correct [OF assms(1) _ assms(3)] migrated_correct [OF assms(1) _ assms(2,3)] by blast

text \<open>
  A remote host takes the lock exactly when the row is valid and the lock is free, and gets the
  row's version and value.
\<close>

lemma remote_correct:
  assumes inv: "row_inv r c" and m: "l_is_migrated r" "l_migrated_row r = Some p" and h: "coordinator_id H < 16"
    and run: "remote_lock_and_read try_sm H p inc c = Inr ((tid, ok, v), c')"
  shows "row_inv r c' \<and> lock_post free readers' writer' (row_abs r c) ok (row_abs r c') \<and>
    (ok \<longleftrightarrow> a_valid (row_abs r c) \<and> free (a_readers (row_abs r c)) (a_writer (row_abs r c))) \<and>
    (ok \<longrightarrow> v = Some (a_val (row_abs r c)) \<and> tid = a_version (row_abs r c))"
proof -
  from row_inv_migratedE [OF inv m(1)] obtain w d
    where r: "l_scc_data r = Some (sm_get_scc_data w)" and at: "shared_at c p w d"
      and copy: "\<not> sm_is_data_modified_since_moved_in w \<Longrightarrow> l_data r = s_data d"
      and abs: "row_abs r c = abs_shared w d" and excl: "sm_is_write_locked w \<Longrightarrow> sm_readers w = 0"
    using m(2) by (metis option.inject)
  define w0 where "w0 = fst (prepare_read (manager H) (coordinator_id H) (upd_fld 63 (Suc 0) 1 w))"
  have w0: "sm_view w0 = sm_view w" using h by (simp add: w0_def sm_view_prepare_read)
  note w0 = sm_viewD [OF w0]
  note run = run [unfolded remote_lock_and_read_def, simplified latched_at [OF at] Let_def w0_def [symmetric]]
  consider (refused) "\<not> get_flag 0 d \<or> try_sm w0 = None" | (taken) w2 where "get_flag 0 d" "try_sm w0 = Some w2"
    by (cases "try_sm w0") auto
  then show ?thesis
  proof cases
    case refused
    then have "\<not> ok" "c' = c\<lparr>smetas := (smetas c)(p \<mapsto> sm_unlock w0), sccs := (sccs c)(sm_get_scc_data w \<mapsto> d)\<rparr>"
      using run by (cases "get_flag 0 d"; simp)+
    then show ?thesis
      using refused latched_row [OF at w0(4) m r refl, of d] copy excl w0 abs try_sm_None [of w0]
      by (auto simp: lock_post_def abs_shared_def)
  next
    case taken
    note w2 = try_sm [OF taken(2)]
    define d2 where "d2 = (if inc then d\<lparr>s_ref_cnt := s_ref_cnt d + 1\<rparr> else d)"
    have "s_data d2 = s_data d" "get_flag 0 d2 = get_flag 0 d" "s_tid d2 = s_tid d"
      by (simp_all add: d2_def)
    then show ?thesis
      using run taken latched_row [OF at _ m r refl, of w2 d2] copy w0 abs w2 sm_rest_view [of w2 w0] exclusive
      by (auto simp: lock_post_def abs_shared_def d2_def)
  qed
qed

lemma remote_post:
  assumes "row_inv r c" "l_is_migrated r" "l_migrated_row r = Some p" "coordinator_id H < 16"
    "remote_lock_and_read try_sm H p inc c = Inr ((tid, ok, v), c')"
  shows "row_inv r c' \<and> lock_post free readers' writer' (row_abs r c) ok (row_abs r c') \<and>
    (ok \<longrightarrow> v = Some (a_val (row_abs r c)))"
  using remote_correct [OF assms] by blast

end

definition read_free :: "nat \<Rightarrow> bool \<Rightarrow> bool" where "read_free n x \<longleftrightarrow> \<not> x \<and> n < 31"
definition write_free :: "nat \<Rightarrow> bool \<Rightarrow> bool" where "write_free n x \<longleftrightarrow> \<not> x \<and> n = 0"

interpretation rk: lock_kind tid_try_read sm_try_read read_free Suc "\<lambda>x. x"
proof (unfold_locales, goal_cases)
  case (1 t t')
  then show ?case
    using tidl.try_read_Some [OF 1] tidl.try_read_None [of t] tidl.readers_le [of t] by (auto simp: read_free_def)
next
  case (2 w w')
  then show ?case
    using sml.try_read_Some [OF 2] sml.try_read_None [of w] sml.readers_le [of w] by (auto simp: read_free_def)
next
  case (3 w)
  then show ?case using sml.try_read_None [of w] by (auto simp: read_free_def)
qed (simp add: read_free_def)

interpretation wk: lock_kind tid_try_write sm_try_write write_free "\<lambda>n. n" "\<lambda>_. True"
proof (unfold_locales, goal_cases)
  case (1 t t')
  then show ?case using tidl.try_write_Some [OF 1] tidl.try_write_None [of t] by (auto simp: write_free_def)
next
  case (2 w w')
  then show ?case using sml.try_write_Some [OF 2] sml.try_write_None [of w] by (auto simp: write_free_def)
next
  case (3 w)
  then show ?case using sml.try_write_None [of w] by (auto simp: write_free_def)
qed (simp add: write_free_def)

section \<open>Updates and releases\<close>

lemma latched_rowE:
  assumes inv: "row_inv r c" and m: "l_is_migrated r" "l_migrated_row r = Some p"
    and run: "latched (Some p) c body = Inr (res, c')"
  obtains w d w2 d' where "body w d = Inr (res, w2, d')" "row_abs r c = abs_shared w d"
    "\<not> sm_is_data_modified_since_moved_in w \<Longrightarrow> l_data r = s_data d"
    "sm_is_write_locked w \<Longrightarrow> sm_readers w = 0"
    "sm_get_scc_data w2 = sm_get_scc_data w \<Longrightarrow> row_abs r c' = abs_shared w2 d'"
    "sm_get_scc_data w2 = sm_get_scc_data w \<Longrightarrow> sm_is_data_modified_since_moved_in w2 \<or> l_data r = s_data d' \<Longrightarrow>
       \<not> sm_is_write_locked w2 \<or> sm_readers w2 = 0 \<Longrightarrow> row_inv r c'"
proof -
  from row_inv_migratedE [OF inv m(1)] obtain w d
    where r: "l_scc_data r = Some (sm_get_scc_data w)" and at: "shared_at c p w d"
      and copy: "\<not> sm_is_data_modified_since_moved_in w \<Longrightarrow> l_data r = s_data d"
      and abs: "row_abs r c = abs_shared w d" and excl: "sm_is_write_locked w \<Longrightarrow> sm_readers w = 0"
    using m(2) by (metis option.inject)
  note v = sm_viewD [OF sm_view_latch(2) [of 1 w]]
  from run obtain w2 d' where body: "body (upd_fld 63 (Suc 0) 1 w) d = Inr (res, w2, d')"
    and c': "c' = c\<lparr>smetas := (smetas c)(p \<mapsto> sm_unlock w2), sccs := (sccs c)(sm_get_scc_data w \<mapsto> d')\<rparr>"
    by (auto simp: latched_at [OF at] res_iffs)
  show thesis
    using that [OF body] abs copy excl v latched_row [OF at _ m r c'] by (auto simp: abs_shared_def)
qed

lemma update_correct:
  assumes inv: "row_inv r c" and run: "update H x r c = Inr (r', c')"
  shows "row_inv r' c' \<and> same_place r r' \<and> row_abs r' c' = (row_abs r c)\<lparr>a_val := x\<rparr>"
proof (cases "l_is_migrated r")
  case False
  then have "r' = r\<lparr>l_data := x, l_is_data_modified_since_moved_out := True\<rparr>" "c' = c"
    using run by (auto simp: update_def res_iffs)
  then show ?thesis
    using False inv by (auto simp: row_inv_def row_abs_def abs_local_def same_place_def)
next
  case True
  then obtain p where p: "l_migrated_row r = Some p" using inv by (auto simp: row_inv_def)
  note run = run [unfolded update_def, simplified True p dcheck_eq_Inr, simplified, THEN conjunct2]
  show ?thesis
    by (rule latched_rowE [OF inv True p run])
      (use sm_view_writes(1) in \<open>auto simp: res_iffs sm_view_def abs_shared_def\<close>)
qed

lemma remote_update_correct:
  assumes inv: "row_inv r c" and m: "l_is_migrated r" "l_migrated_row r = Some p"
    and run: "remote_update H p x c = Inr ((), c')"
  shows "row_inv r c' \<and> row_abs r c' = (row_abs r c)\<lparr>a_val := x\<rparr>"
  by (rule latched_rowE [OF inv m run [unfolded remote_update_def]])
    (use sm_view_writes(1) in \<open>auto simp: res_iffs sm_view_def abs_shared_def\<close>)

text \<open>Releases: the private and the shared case of each, then the remote one.\<close>

lemma remote_read_release_correct:
  assumes inv: "row_inv r c" and m: "l_is_migrated r" "l_migrated_row r = Some p"
    and run: "remote_read_lock_release nd p c = Inr ((), c')" and held: "0 < a_readers (row_abs r c)"
  shows "row_inv r c' \<and> row_abs r c' = (row_abs r c)\<lparr>a_readers := a_readers (row_abs r c) - 1\<rparr>"
  by (rule latched_rowE [OF inv m run [unfolded remote_read_lock_release_def]])
    (use held sm_view_writes(5) in \<open>auto simp: res_iffs sm_view_def abs_shared_def\<close>)

lemma remote_write_release_correct:
  assumes inv: "row_inv r c" and m: "l_is_migrated r" "l_migrated_row r = Some p"
    and run: "remote_write_lock_release nd p c = Inr ((), c')" and held: "a_writer (row_abs r c)"
  shows "row_inv r c' \<and> row_abs r c' = (row_abs r c)\<lparr>a_writer := False\<rparr>"
  by (rule latched_rowE [OF inv m run [unfolded remote_write_lock_release_def]])
    (use held sm_view_writes(6) in \<open>auto simp: res_iffs sm_view_def abs_shared_def\<close>)

lemma release_is_remote:
  assumes "l_is_migrated r" "l_migrated_row r = Some p"
  shows "read_lock_release nd r c = map_sum id (\<lambda>(_, c'). (r, c')) (remote_read_lock_release nd p c)"
    "write_lock_release nd r c = map_sum id (\<lambda>(_, c'). (r, c')) (remote_write_lock_release nd p c)"
    "get_flag 0 (the (sccs c (sm_get_scc_data (the (smetas c p))))) \<or> ndebug H \<Longrightarrow>
     write_lock_release_new H n r c = map_sum id (\<lambda>(_, c'). (r, c')) (remote_write_lock_release_new H p n c)"
  unfolding read_lock_release_def write_lock_release_def write_lock_release_new_def
    remote_read_lock_release_def remote_write_lock_release_def remote_write_lock_release_new_def latched_def
  using assms
  by (auto simp: bind_res_def dcheck_def Let_def deref_def split: sum.splits option.splits)

lemma read_release_correct:
  assumes inv: "row_inv r c" and run: "read_lock_release nd r c = Inr (r', c')" and held: "0 < a_readers (row_abs r c)"
  shows "row_inv r' c' \<and> same_place r r' \<and> row_abs r' c' = (row_abs r c)\<lparr>a_readers := a_readers (row_abs r c) - 1\<rparr>"
proof (cases "l_is_migrated r")
  case False
  then have res: "r' = r\<lparr>l_tid := tid_release_read (l_tid r)\<rparr>" "c' = c"
    using run by (auto simp: read_lock_release_def res_iffs)
  have rel: "tid_readers (l_tid r') = tid_readers (l_tid r) - 1" "is_write_locked (l_tid r') = is_write_locked (l_tid r)"
    "remove_lock_bit (l_tid r') = remove_lock_bit (l_tid r)"
    using tidl.release_read [of "l_tid r"] held False by (simp_all add: res row_abs_private abs_local_def)
  have "row_inv r' c"
    using inv rel False by (auto intro!: row_inv_private [OF False inv] simp: res same_place_def row_inv_def row_abs_private abs_local_def)
  then show ?thesis using rel False by (simp add: res same_place_def row_abs_private abs_local_def)
next
  case True
  then obtain p where p: "l_migrated_row r = Some p" using inv by (auto simp: row_inv_def)
  with run True have "remote_read_lock_release nd p c = Inr ((), c')" "r' = r"
    by (auto simp: release_is_remote map_sum_def split: sum.splits)
  then show ?thesis using remote_read_release_correct [OF inv True p] held by simp
qed

lemma write_release_correct:
  assumes inv: "row_inv r c" and run: "write_lock_release nd r c = Inr (r', c')" and held: "a_writer (row_abs r c)"
  shows "row_inv r' c' \<and> same_place r r' \<and> row_abs r' c' = (row_abs r c)\<lparr>a_writer := False\<rparr>"
proof (cases "l_is_migrated r")
  case False
  then have res: "r' = r\<lparr>l_tid := tid_release_write (l_tid r)\<rparr>" "c' = c"
    using run by (auto simp: write_lock_release_def res_iffs)
  have rel: "tid_readers (l_tid r') = tid_readers (l_tid r)" "\<not> is_write_locked (l_tid r')"
    "remove_lock_bit (l_tid r') = remove_lock_bit (l_tid r)"
    using tidl.release_write [of "l_tid r"] held False by (simp_all add: res row_abs_private abs_local_def)
  have "row_inv r' c"
    using rel False by (auto intro!: row_inv_private [OF False inv] simp: res same_place_def)
  then show ?thesis using rel False by (simp add: res same_place_def row_abs_private abs_local_def)
next
  case True
  then obtain p where p: "l_migrated_row r = Some p" using inv by (auto simp: row_inv_def)
  with run True have "remote_write_lock_release nd p c = Inr ((), c')" "r' = r"
    by (auto simp: release_is_remote map_sum_def split: sum.splits)
  then show ?thesis using remote_write_release_correct [OF inv True p] held by simp
qed

text \<open>Installing a version: a tid without lock bits.\<close>

lemma no_lock_bits:
  assumes "remove_lock_bit n = n"
  shows "tid_readers n = 0" "\<not> is_write_locked n" "\<not> is_read_locked n"
proof -
  have "fld 58 6 n = 0"
    using arg_cong [OF assms, of "fld 58 6"] by (simp add: fields fld_upd_same)
  then have none: "\<not> bit n (k + 58)" if "k < 6" for k
    using that bit_of_fld [of k 6 58 n] by simp
  then have "fld 58 5 n = 0"
    by (intro bit_word_eqI) (auto simp: bit_fld add.commute)
  then show "tid_readers n = 0" "\<not> is_write_locked n" "\<not> is_read_locked n"
    using none [of 5] by (simp_all add: tid_readers_def fields)
qed

lemma remote_commit_correct:
  assumes inv: "row_inv r c" and m: "l_is_migrated r" "l_migrated_row r = Some p" and h: "coordinator_id H < 16"
    and run: "remote_write_lock_release_new H p n c = Inr ((), c')" and held: "a_writer (row_abs r c)"
    and n: "remove_lock_bit n = n"
  shows "row_inv r c' \<and> row_abs r c' = (row_abs r c)\<lparr>a_writer := False, a_version := n\<rparr>"
proof (rule latched_rowE [OF inv m run [unfolded remote_write_lock_release_new_def]])
  fix w d w2 d'
  assume body: "dcheck (ndebug H) (get_flag 0 d)
         (dcheck (ndebug H) (sm_get_reader_count w = 0) (dcheck (ndebug H) (sm_is_write_locked w)
           (bind_res (finish_write (manager H) (coordinator_id H) (sm_clear_write_locked w)) (\<lambda>(w, _).
             Inr ((), w, d\<lparr>s_tid := n\<rparr>))))) = Inr ((), w2, d')"
    and abs: "row_abs r c = abs_shared w d" and copy: "\<not> sm_is_data_modified_since_moved_in w \<Longrightarrow> l_data r = s_data d"
    and excl: "sm_is_write_locked w \<Longrightarrow> sm_readers w = 0"
    and abs': "sm_get_scc_data w2 = sm_get_scc_data w \<Longrightarrow> row_abs r c' = abs_shared w2 d'"
    and inv': "sm_get_scc_data w2 = sm_get_scc_data w \<Longrightarrow> sm_is_data_modified_since_moved_in w2 \<or> l_data r = s_data d' \<Longrightarrow>
       \<not> sm_is_write_locked w2 \<or> sm_readers w2 = 0 \<Longrightarrow> row_inv r c'"
  from body obtain b where fin: "finish_write (manager H) (coordinator_id H) (sm_clear_write_locked w) = Inr (w2, b)"
    and d': "d' = d\<lparr>s_tid := n\<rparr>" by (auto simp: res_iffs)
  have "sm_view w2 = (sm_readers w, False, sm_is_data_modified_since_moved_in w, sm_get_scc_data w)"
    using sm_view_finish_write [OF h fin] sm_view_writes(6) [of w] held abs by (simp add: abs_shared_def sm_view_def)
  then show ?thesis
    using abs abs' inv' copy d' n by (auto simp: abs_shared_def sm_view_def)
qed

lemma commit_ndebug:
  "write_lock_release_new H n r c = Inr x \<Longrightarrow> write_lock_release_new (H\<lparr>ndebug := True\<rparr>) n r c = Inr x"
  unfolding write_lock_release_new_def latched_def
  by (auto simp: res_iffs Let_def split: if_splits option.splits)

lemma commit_correct:
  assumes inv: "row_inv r c" and h: "coordinator_id H < 16"
    and run: "write_lock_release_new H n r c = Inr (r', c')" and held: "a_writer (row_abs r c)"
    and n: "remove_lock_bit n = n"
  shows "row_inv r' c' \<and> same_place r r' \<and> row_abs r' c' = (row_abs r c)\<lparr>a_writer := False, a_version := n\<rparr>"
proof (cases "l_is_migrated r")
  case False
  then have res: "r' = r\<lparr>l_tid := n\<rparr>" "c' = c"
    using run by (auto simp: write_lock_release_new_def res_iffs)
  have "row_inv r' c"
    using no_lock_bits [OF n] by (auto intro!: row_inv_private [OF False inv] simp: res same_place_def)
  moreover have "tid_readers (l_tid r) = 0"
    using inv held False by (simp add: row_inv_def row_abs_private abs_local_def)
  ultimately show ?thesis
    using no_lock_bits [OF n] n False by (simp add: res same_place_def row_abs_private abs_local_def)
next
  case True
  then obtain p where p: "l_migrated_row r = Some p" using inv by (auto simp: row_inv_def)
  with commit_ndebug [OF run] True
  have "remote_write_lock_release_new (H\<lparr>ndebug := True\<rparr>) p n c = Inr ((), c')" "r' = r"
    by (auto simp: release_is_remote map_sum_def split: sum.splits)
  then show ?thesis
    using remote_commit_correct [OF inv True p _ _ held n, of "H\<lparr>ndebug := True\<rparr>"] h by simp
qed

section \<open>Every access path implements the same row\<close>

text \<open>
  The contract of an access path to a row with state \<open>'s\<close>: whatever an operation returns, the
  state it leaves is a good one and shows the effect of the operation on the abstract row.
\<close>

locale row_access =
  fixes inv :: "'s \<Rightarrow> bool" and abs :: "'s \<Rightarrow> 'v arow"
    and rd :: "'s \<Rightarrow> ('v lock_result \<times> 's) res" and wr :: "'s \<Rightarrow> ('v lock_result \<times> 's) res"
    and up :: "'v \<Rightarrow> 's \<Rightarrow> 's res" and cm :: "u64 \<Rightarrow> 's \<Rightarrow> 's res"
    and rr :: "'s \<Rightarrow> 's res" and rw :: "'s \<Rightarrow> 's res"
  assumes exclusive: "inv s \<Longrightarrow> a_writer (abs s) \<Longrightarrow> a_readers (abs s) = 0"
    and rd: "inv s \<Longrightarrow> rd s = Inr ((tid, ok, v), s') \<Longrightarrow>
      inv s' \<and> lock_post read_free Suc (\<lambda>x. x) (abs s) ok (abs s') \<and> (ok \<longrightarrow> v = Some (a_val (abs s)))"
    and wr: "inv s \<Longrightarrow> wr s = Inr ((tid, ok, v), s') \<Longrightarrow>
      inv s' \<and> lock_post write_free (\<lambda>n. n) (\<lambda>_. True) (abs s) ok (abs s') \<and> (ok \<longrightarrow> v = Some (a_val (abs s)))"
    and up: "inv s \<Longrightarrow> up x s = Inr s' \<Longrightarrow> inv s' \<and> abs s' = (abs s)\<lparr>a_val := x\<rparr>"
    and cm: "inv s \<Longrightarrow> cm n s = Inr s' \<Longrightarrow> a_writer (abs s) \<Longrightarrow> remove_lock_bit n = n \<Longrightarrow>
      inv s' \<and> abs s' = (abs s)\<lparr>a_writer := False, a_version := n\<rparr>"
    and rr: "inv s \<Longrightarrow> rr s = Inr s' \<Longrightarrow> 0 < a_readers (abs s) \<Longrightarrow>
      inv s' \<and> abs s' = (abs s)\<lparr>a_readers := a_readers (abs s) - 1\<rparr>"
    and rw: "inv s \<Longrightarrow> rw s = Inr s' \<Longrightarrow> a_writer (abs s) \<Longrightarrow> inv s' \<and> abs s' = (abs s)\<lparr>a_writer := False\<rparr>"
begin

lemma write_transaction:
  assumes "inv s" "wr s = Inr ((tid, True, v), s1)" "up x s1 = Inr s2" "cm n s2 = Inr s3" "remove_lock_bit n = n"
  shows "inv s3 \<and> v = Some (a_val (abs s)) \<and> abs s3 = (abs s)\<lparr>a_val := x, a_version := n\<rparr>"
proof -
  from wr [OF assms(1,2)] have 1: "inv s1" "abs s1 = (abs s)\<lparr>a_writer := True\<rparr>" "\<not> a_writer (abs s)"
    "v = Some (a_val (abs s))" by (auto simp: lock_post_def write_free_def)
  from up [OF 1(1) assms(3)] 1(2) have 2: "inv s2" "abs s2 = (abs s)\<lparr>a_writer := True, a_val := x\<rparr>" by simp_all
  from cm [OF 2(1) assms(4) _ assms(5)] 1(3,4) 2(2) show ?thesis by simp
qed

end

text \<open>Two paths to one row: what is committed through one is read through the other.\<close>

locale two_paths =
  A: row_access inv abs rdA wrA upA cmA rrA rwA + B: row_access inv abs rdB wrB upB cmB rrB rwB
  for inv :: "'s \<Rightarrow> bool" and abs :: "'s \<Rightarrow> 'v arow"
    and rdA wrA upA cmA rrA rwA rdB wrB upB cmB rrB rwB
begin

lemma committed_value_visible:
  assumes "inv s" "wrA s = Inr ((tid, True, v), s1)" "upA x s1 = Inr s2" "cmA n s2 = Inr s3" "remove_lock_bit n = n"
    "rdB s3 = Inr ((tid', True, v'), s4)"
  shows "v = Some (a_val (abs s)) \<and> v' = Some x \<and> abs s4 = (abs s)\<lparr>a_val := x, a_version := n, a_readers := 1\<rparr>"
  using A.write_transaction [OF assms(1-5)] A.wr [OF assms(1,2)] B.rd [OF _ assms(6)]
  by (auto simp: lock_post_def write_free_def)

lemma writer_blocks_other_path:
  assumes "inv s" "wrA s = Inr ((tid, True, v), s1)"
  shows "rdB s1 = Inr ((tid', ok, v'), s2) \<Longrightarrow> \<not> ok" "wrB s1 = Inr ((tid', ok, v'), s2) \<Longrightarrow> \<not> ok"
proof -
  have "inv s1" "a_writer (abs s1)"
    using A.wr [OF assms] by (auto simp: lock_post_def)
  then show "rdB s1 = Inr ((tid', ok, v'), s2) \<Longrightarrow> \<not> ok" "wrB s1 = Inr ((tid', ok, v'), s2) \<Longrightarrow> \<not> ok"
    using B.rd [of s1 tid' ok v' s2] B.wr [of s1 tid' ok v' s2]
    by (auto simp: lock_post_def read_free_def write_free_def)
qed

end

text \<open>
  The state of both paths: the owner's helper, another host's helper, the row and CXL memory. The
  owner goes through the row, the other host through the pointer it found in the CXL index.
\<close>

record ('k, 'v, 'p) hosts =
  owner :: helper
  other :: helper
  the_row :: "'v lrow"
  the_cxl :: "('k, 'v, 'p) cxl"

definition hosts_inv :: "('k, 'v, 'p) hosts \<Rightarrow> bool" where
  "hosts_inv s \<longleftrightarrow> row_inv (the_row s) (the_cxl s) \<and> coordinator_id (owner s) < 16 \<and> coordinator_id (other s) < 16"

definition migrated_inv :: "('k, 'v, 'p) hosts \<Rightarrow> bool" where
  "migrated_inv s \<longleftrightarrow> hosts_inv s \<and> l_is_migrated (the_row s)"

definition hosts_abs :: "('k, 'v, 'p) hosts \<Rightarrow> 'v arow" where
  "hosts_abs s = row_abs (the_row s) (the_cxl s)"

definition put_local :: "('k, 'v, 'p) hosts \<Rightarrow> (('r \<times> 'v lrow) \<times> ('k, 'v, 'p) cxl) res \<Rightarrow>
    ('r \<times> ('k, 'v, 'p) hosts) res" where
  "put_local s = map_sum id (\<lambda>((x, r), c). (x, s\<lparr>the_row := r, the_cxl := c\<rparr>))"

definition put_row :: "('k, 'v, 'p) hosts \<Rightarrow> ('v lrow \<times> ('k, 'v, 'p) cxl) res \<Rightarrow> ('k, 'v, 'p) hosts res" where
  "put_row s = map_sum id (\<lambda>(r, c). s\<lparr>the_row := r, the_cxl := c\<rparr>)"

definition put_cxl :: "('k, 'v, 'p) hosts \<Rightarrow> ('r \<times> ('k, 'v, 'p) cxl) res \<Rightarrow> ('r \<times> ('k, 'v, 'p) hosts) res" where
  "put_cxl s = map_sum id (\<lambda>(x, c). (x, s\<lparr>the_cxl := c\<rparr>))"

definition put_cxl_only :: "('k, 'v, 'p) hosts \<Rightarrow> (unit \<times> ('k, 'v, 'p) cxl) res \<Rightarrow> ('k, 'v, 'p) hosts res" where
  "put_cxl_only s = map_sum id (\<lambda>(_, c). s\<lparr>the_cxl := c\<rparr>)"

abbreviation (input) ptr :: "('k, 'v, 'p) hosts \<Rightarrow> u64" where "ptr s \<equiv> the (l_migrated_row (the_row s))"

definition local_rd where "local_rd s = put_local s (take_read_lock_and_read (owner s) (the_row s) (the_cxl s))"
definition local_wr where "local_wr s = put_local s (take_write_lock_and_read (owner s) (the_row s) (the_cxl s))"
definition local_up where "local_up x s = put_row s (update (owner s) x (the_row s) (the_cxl s))"
definition local_cm where "local_cm n s = put_row s (write_lock_release_new (owner s) n (the_row s) (the_cxl s))"
definition local_rr where "local_rr s = put_row s (read_lock_release (ndebug (owner s)) (the_row s) (the_cxl s))"
definition local_rw where "local_rw s = put_row s (write_lock_release (ndebug (owner s)) (the_row s) (the_cxl s))"
definition remote_rd where "remote_rd s = put_cxl s (remote_take_read_lock_and_read (other s) (ptr s) False (the_cxl s))"
definition remote_wr where "remote_wr s = put_cxl s (remote_take_write_lock_and_read (other s) (ptr s) False (the_cxl s))"
definition remote_up where "remote_up x s = put_cxl_only s (remote_update (other s) (ptr s) x (the_cxl s))"
definition remote_cm where "remote_cm n s = put_cxl_only s (remote_write_lock_release_new (other s) (ptr s) n (the_cxl s))"
definition remote_rr where "remote_rr s = put_cxl_only s (remote_read_lock_release (ndebug (other s)) (ptr s) (the_cxl s))"
definition remote_rw where "remote_rw s = put_cxl_only s (remote_write_lock_release (ndebug (other s)) (ptr s) (the_cxl s))"

lemmas path_defs = local_rd_def local_wr_def local_up_def local_cm_def local_rr_def local_rw_def
  remote_rd_def remote_wr_def remote_up_def remote_cm_def remote_rr_def remote_rw_def
  put_local_def put_row_def put_cxl_def put_cxl_only_def hosts_abs_def

lemma map_sum_eq_Inr: "map_sum id f x = Inr y \<longleftrightarrow> (\<exists>z. x = Inr z \<and> y = f z)"
  by (cases x) auto

lemma put_eq_Inr:
  "put_local s m = Inr (x, s') \<longleftrightarrow> (\<exists>r c. m = Inr ((x, r), c) \<and> s' = s\<lparr>the_row := r, the_cxl := c\<rparr>)"
  "put_row s m' = Inr s' \<longleftrightarrow> (\<exists>r c. m' = Inr (r, c) \<and> s' = s\<lparr>the_row := r, the_cxl := c\<rparr>)"
  "put_cxl s m'' = Inr (x, s') \<longleftrightarrow> (\<exists>c. m'' = Inr (x, c) \<and> s' = s\<lparr>the_cxl := c\<rparr>)"
  "put_cxl_only s m3 = Inr s' \<longleftrightarrow> (\<exists>c. m3 = Inr ((), c) \<and> s' = s\<lparr>the_cxl := c\<rparr>)"
  by (auto simp: put_local_def put_row_def put_cxl_def put_cxl_only_def map_sum_eq_Inr)

text \<open>The owner's path, on a row in either place; a migrated row stays migrated.\<close>

lemma local_rd_law:
  assumes inv: "hosts_inv s" and op: "local_rd s = Inr ((tid, ok, v), s')"
  shows "hosts_inv s' \<and> same_place (the_row s) (the_row s') \<and> lock_post read_free Suc (\<lambda>x. x) (hosts_abs s) ok (hosts_abs s') \<and>
    (ok \<longrightarrow> v = Some (a_val (hosts_abs s)))"
proof -
  from op obtain r c where run: "lock_and_read tid_try_read sm_try_read (owner s) (the_row s) (the_cxl s) = Inr (((tid, ok, v), r), c)" and s': "s' = s\<lparr>the_row := r, the_cxl := c\<rparr>"
    by (auto simp: local_rd_def put_eq_Inr lock_operations)
  show ?thesis
    using rk.lock_correct [OF _ _ run] inv assms by (simp add: hosts_inv_def hosts_abs_def s')
qed

lemma local_wr_law:
  assumes inv: "hosts_inv s" and op: "local_wr s = Inr ((tid, ok, v), s')"
  shows "hosts_inv s' \<and> same_place (the_row s) (the_row s') \<and> lock_post write_free (\<lambda>n. n) (\<lambda>_. True) (hosts_abs s) ok (hosts_abs s') \<and>
    (ok \<longrightarrow> v = Some (a_val (hosts_abs s)))"
proof -
  from op obtain r c where run: "lock_and_read tid_try_write sm_try_write (owner s) (the_row s) (the_cxl s) = Inr (((tid, ok, v), r), c)" and s': "s' = s\<lparr>the_row := r, the_cxl := c\<rparr>"
    by (auto simp: local_wr_def put_eq_Inr lock_operations)
  show ?thesis
    using wk.lock_correct [OF _ _ run] inv assms by (simp add: hosts_inv_def hosts_abs_def s')
qed

lemma local_up_law:
  assumes inv: "hosts_inv s" and op: "local_up x s = Inr s'"
  shows "hosts_inv s' \<and> same_place (the_row s) (the_row s') \<and> hosts_abs s' = (hosts_abs s)\<lparr>a_val := x\<rparr>"
proof -
  from op obtain r c where run: "update (owner s) x (the_row s) (the_cxl s) = Inr (r, c)" and s': "s' = s\<lparr>the_row := r, the_cxl := c\<rparr>"
    by (auto simp: local_up_def put_eq_Inr lock_operations)
  show ?thesis
    using update_correct [OF _ run] inv assms by (simp add: hosts_inv_def hosts_abs_def s')
qed

lemma local_cm_law:
  assumes inv: "hosts_inv s" and op: "local_cm n s = Inr s'"
    and "a_writer (hosts_abs s)"
    and "remove_lock_bit n = n"
  shows "hosts_inv s' \<and> same_place (the_row s) (the_row s') \<and> 
    hosts_abs s' = (hosts_abs s)\<lparr>a_writer := False, a_version := n\<rparr>"
proof -
  from op obtain r c where run: "write_lock_release_new (owner s) n (the_row s) (the_cxl s) = Inr (r, c)" and s': "s' = s\<lparr>the_row := r, the_cxl := c\<rparr>"
    by (auto simp: local_cm_def put_eq_Inr lock_operations)
  show ?thesis
    using commit_correct [OF _ _ run] inv assms by (simp add: hosts_inv_def hosts_abs_def s')
qed

lemma local_rr_law:
  assumes inv: "hosts_inv s" and op: "local_rr s = Inr s'"
    and "0 < a_readers (hosts_abs s)"
  shows "hosts_inv s' \<and> same_place (the_row s) (the_row s') \<and> 
    hosts_abs s' = (hosts_abs s)\<lparr>a_readers := a_readers (hosts_abs s) - 1\<rparr>"
proof -
  from op obtain r c where run: "read_lock_release (ndebug (owner s)) (the_row s) (the_cxl s) = Inr (r, c)" and s': "s' = s\<lparr>the_row := r, the_cxl := c\<rparr>"
    by (auto simp: local_rr_def put_eq_Inr lock_operations)
  show ?thesis
    using read_release_correct [OF _ run] inv assms by (simp add: hosts_inv_def hosts_abs_def s')
qed

lemma local_rw_law:
  assumes inv: "hosts_inv s" and op: "local_rw s = Inr s'"
    and "a_writer (hosts_abs s)"
  shows "hosts_inv s' \<and> same_place (the_row s) (the_row s') \<and> hosts_abs s' = (hosts_abs s)\<lparr>a_writer := False\<rparr>"
proof -
  from op obtain r c where run: "write_lock_release (ndebug (owner s)) (the_row s) (the_cxl s) = Inr (r, c)" and s': "s' = s\<lparr>the_row := r, the_cxl := c\<rparr>"
    by (auto simp: local_rw_def put_eq_Inr lock_operations)
  show ?thesis
    using write_release_correct [OF _ run] inv assms by (simp add: hosts_inv_def hosts_abs_def s')
qed

lemmas local_laws = local_rd_law local_wr_law local_up_law local_cm_law local_rr_law local_rw_law

lemma hosts_exclusive: "hosts_inv s \<Longrightarrow> a_writer (hosts_abs s) \<Longrightarrow> a_readers (hosts_abs s) = 0"
  by (auto simp: hosts_inv_def hosts_abs_def row_inv_def)

interpretation local_path: row_access hosts_inv hosts_abs local_rd local_wr local_up local_cm local_rr local_rw
proof (unfold_locales, goal_cases)
  case (1 s)
  then show ?case by (rule hosts_exclusive)
next
  case (2 s tid ok v s')
  then show ?case using local_rd_law [OF 2] by simp
next
  case (3 s tid ok v s')
  then show ?case using local_wr_law [OF 3] by simp
next
  case (4 s x s')
  then show ?case using local_up_law [OF 4] by simp
next
  case (5 s n s')
  then show ?case using local_cm_law [OF 5] by simp
next
  case (6 s s')
  then show ?case using local_rr_law [OF 6] by simp
next
  case (7 s s')
  then show ?case using local_rw_law [OF 7] by simp
qed

text \<open>The other host's path, on a migrated row.\<close>

lemma migrated_ptr: "migrated_inv s \<Longrightarrow> \<exists>p. l_migrated_row (the_row s) = Some p"
  by (auto simp: migrated_inv_def hosts_inv_def row_inv_def)

lemma remote_rd_law:
  assumes inv: "migrated_inv s" and op: "remote_rd s = Inr ((tid, ok, v), s')"
  shows "migrated_inv s' \<and> lock_post read_free Suc (\<lambda>x. x) (hosts_abs s) ok (hosts_abs s') \<and>
    (ok \<longrightarrow> v = Some (a_val (hosts_abs s)))"
proof -
  obtain p where p: "l_migrated_row (the_row s) = Some p" using migrated_ptr [OF inv] by blast
  from op p obtain c where run: "remote_lock_and_read sm_try_read (other s) p False (the_cxl s) = Inr ((tid, ok, v), c)"
    and s': "s' = s\<lparr>the_cxl := c\<rparr>" by (auto simp: remote_rd_def put_eq_Inr lock_operations)
  show ?thesis
    using rk.remote_post [OF _ _ p _ run] inv by (simp add: migrated_inv_def hosts_inv_def hosts_abs_def s')
qed

lemma remote_wr_law:
  assumes inv: "migrated_inv s" and op: "remote_wr s = Inr ((tid, ok, v), s')"
  shows "migrated_inv s' \<and> lock_post write_free (\<lambda>n. n) (\<lambda>_. True) (hosts_abs s) ok (hosts_abs s') \<and>
    (ok \<longrightarrow> v = Some (a_val (hosts_abs s)))"
proof -
  obtain p where p: "l_migrated_row (the_row s) = Some p" using migrated_ptr [OF inv] by blast
  from op p obtain c where run: "remote_lock_and_read sm_try_write (other s) p False (the_cxl s) = Inr ((tid, ok, v), c)"
    and s': "s' = s\<lparr>the_cxl := c\<rparr>" by (auto simp: remote_wr_def put_eq_Inr lock_operations)
  show ?thesis
    using wk.remote_post [OF _ _ p _ run] inv by (simp add: migrated_inv_def hosts_inv_def hosts_abs_def s')
qed

lemma remote_other_laws:
  assumes inv: "migrated_inv s"
  shows "remote_up x s = Inr s' \<Longrightarrow> migrated_inv s' \<and> hosts_abs s' = (hosts_abs s)\<lparr>a_val := x\<rparr>"
    and "remote_cm n s = Inr s' \<Longrightarrow> a_writer (hosts_abs s) \<Longrightarrow> remove_lock_bit n = n \<Longrightarrow>
      migrated_inv s' \<and> hosts_abs s' = (hosts_abs s)\<lparr>a_writer := False, a_version := n\<rparr>"
    and "remote_rr s = Inr s' \<Longrightarrow> 0 < a_readers (hosts_abs s) \<Longrightarrow>
      migrated_inv s' \<and> hosts_abs s' = (hosts_abs s)\<lparr>a_readers := a_readers (hosts_abs s) - 1\<rparr>"
    and "remote_rw s = Inr s' \<Longrightarrow> a_writer (hosts_abs s) \<Longrightarrow>
      migrated_inv s' \<and> hosts_abs s' = (hosts_abs s)\<lparr>a_writer := False\<rparr>"
proof -
  obtain p where p: "l_migrated_row (the_row s) = Some p" using migrated_ptr [OF inv] by blast
  have m: "l_is_migrated (the_row s)" and r: "row_inv (the_row s) (the_cxl s)"
    using inv by (simp_all add: migrated_inv_def hosts_inv_def)
  note defs = migrated_inv_def hosts_inv_def hosts_abs_def put_eq_Inr p
  note inv = inv [unfolded migrated_inv_def hosts_inv_def]
  show "remote_up x s = Inr s' \<Longrightarrow> migrated_inv s' \<and> hosts_abs s' = (hosts_abs s)\<lparr>a_val := x\<rparr>"
    using inv remote_update_correct [OF r m p] by (auto simp: remote_up_def defs)
  show "remote_cm n s = Inr s' \<Longrightarrow> a_writer (hosts_abs s) \<Longrightarrow> remove_lock_bit n = n \<Longrightarrow>
      migrated_inv s' \<and> hosts_abs s' = (hosts_abs s)\<lparr>a_writer := False, a_version := n\<rparr>"
    using inv remote_commit_correct [OF r m p, of "other s" n] by (auto simp: remote_cm_def defs)
  show "remote_rr s = Inr s' \<Longrightarrow> 0 < a_readers (hosts_abs s) \<Longrightarrow>
      migrated_inv s' \<and> hosts_abs s' = (hosts_abs s)\<lparr>a_readers := a_readers (hosts_abs s) - 1\<rparr>"
    using inv remote_read_release_correct [OF r m p] by (auto simp: remote_rr_def defs)
  show "remote_rw s = Inr s' \<Longrightarrow> a_writer (hosts_abs s) \<Longrightarrow>
      migrated_inv s' \<and> hosts_abs s' = (hosts_abs s)\<lparr>a_writer := False\<rparr>"
    using inv remote_write_release_correct [OF r m p] by (auto simp: remote_rw_def defs)
qed

lemma migrated_hosts_inv: "migrated_inv s \<Longrightarrow> hosts_inv s"
  by (simp add: migrated_inv_def)

interpretation remote_path: row_access migrated_inv hosts_abs remote_rd remote_wr remote_up remote_cm remote_rr remote_rw
proof (unfold_locales, goal_cases)
  case (1 s)
  then show ?case by (simp add: migrated_inv_def hosts_exclusive)
next
  case (2 s tid ok v s')
  then show ?case by (rule remote_rd_law)
next
  case (3 s tid ok v s')
  then show ?case by (rule remote_wr_law)
next
  case (4 s x s')
  then show ?case by (rule remote_other_laws(1))
next
  case (5 s n s')
  then show ?case by (rule remote_other_laws(2))
next
  case (6 s s')
  then show ?case by (rule remote_other_laws(3))
next
  case (7 s s')
  then show ?case by (rule remote_other_laws(4))
qed

interpretation owner_path: row_access migrated_inv hosts_abs local_rd local_wr local_up local_cm local_rr local_rw
proof (unfold_locales, goal_cases)
  case (1 s)
  then show ?case by (simp add: migrated_inv_def hosts_exclusive)
next
  case (2 s tid ok v s')
  then show ?case using local_rd_law [OF migrated_hosts_inv [OF 2(1)] 2(2)] 2(1) by (simp add: migrated_inv_def same_place_def)
next
  case (3 s tid ok v s')
  then show ?case using local_wr_law [OF migrated_hosts_inv [OF 3(1)] 3(2)] 3(1) by (simp add: migrated_inv_def same_place_def)
next
  case (4 s x s')
  then show ?case using local_up_law [OF migrated_hosts_inv [OF 4(1)] 4(2)] 4(1) by (simp add: migrated_inv_def same_place_def)
next
  case (5 s n s')
  then show ?case using local_cm_law [OF migrated_hosts_inv [OF 5(1)] 5(2-4)] 5(1) by (simp add: migrated_inv_def same_place_def)
next
  case (6 s s')
  then show ?case using local_rr_law [OF migrated_hosts_inv [OF 6(1)] 6(2-3)] 6(1) by (simp add: migrated_inv_def same_place_def)
next
  case (7 s s')
  then show ?case using local_rw_law [OF migrated_hosts_inv [OF 7(1)] 7(2-3)] 7(1) by (simp add: migrated_inv_def same_place_def)
qed

interpretation owner_other: two_paths migrated_inv hosts_abs local_rd local_wr local_up local_cm local_rr local_rw
    remote_rd remote_wr remote_up remote_cm remote_rr remote_rw ..

interpretation other_owner: two_paths migrated_inv hosts_abs remote_rd remote_wr remote_up remote_cm remote_rr remote_rw
    local_rd local_wr local_up local_cm local_rr local_rw ..

text \<open>For evaluating the operations on a concrete state.\<close>

lemma lock_and_read_returns:
  assumes "row_inv r c"
  shows "\<exists>x. lock_and_read f g H r c = Inr x"
proof (cases "l_is_migrated r")
  case True
  then obtain p w d where "l_migrated_row r = Some p" "shared_at c p w d"
    using row_inv_migratedE [OF assms True] by metis
  then show ?thesis
    using True by (auto simp: lock_and_read_def latched_at Let_def split: option.split)
qed (auto simp: lock_and_read_def split: option.split)

lemmas row_exec = word_exec tid_readers_def sm_readers_def manager_defs latched_def get_flag_def set_flag_def clear_flag_def read_def update_def remote_update_def
  local_view_def take_read_lock_and_read_def read_lock_def take_write_lock_and_read_def write_lock_def
  remote_take_read_lock_and_read_def remote_read_lock_and_inc_ref_cnt_def remote_take_write_lock_and_read_def
  remote_write_lock_and_inc_ref_cnt_def read_lock_release_def remote_read_lock_release_def
  write_lock_release_def remote_write_lock_release_def write_lock_release_new_def remote_write_lock_release_new_def
  put_valid_def modify_tuple_valid_bit_def remote_modify_tuple_valid_bit_def get_migrated_row_def
  decrease_reference_count_via_ptr_def release_migrated_row_def path_defs row_abs_def abs_local_def abs_shared_def
  Let_def check_def dcheck_def

end
