(* ===== verification/RowProps.thy ===== *)
theory RowProps
  imports RowCC
begin

text \<open>
  The properties of the row operations: the owner's and the other hosts' operations implement one
  reader/writer-locked row, wherever the row is; what one side commits the other reads; and three
  runs in which the copy the owner keeps of a migrated row is not what it should be.
\<close>

section \<open>A row to run on\<close>

definition owner_helper :: "scc_manager \<Rightarrow> helper" where
  "owner_helper m = \<lparr>migration_policy = ''LRU'', when_to_move_out = ''Reactive'', hw_cc_budget = 209715200,
     enable_scc = True, enable_migration_optimization = True, enable_phantom_detection = True,
     model_cxl_search_overhead = False, coordinator_id = 0, manager = m, ndebug = True\<rparr>"

definition other_helper :: "scc_manager \<Rightarrow> helper" where
  "other_helper m = (owner_helper m)\<lparr>coordinator_id := 1\<rparr>"

text \<open>A valid row of version 5 and value 10, migrated: word at address 4096, data at offset 64.\<close>

definition demo_row :: "nat lrow" where
  "demo_row = \<lparr>l_tid = 5, l_is_valid = True, l_is_migrated = True, l_is_data_modified_since_moved_out = False,
     l_migrated_row = Some 4096, l_scc_data = Some 64, l_data = 10\<rparr>"

definition demo_data :: "nat scc_data" where
  "demo_data = \<lparr>s_tid = 5, s_flags = 1, s_ref_cnt = 0, s_data = 10\<rparr>"

definition demo_cxl :: "(nat, nat, unit) cxl" where
  "demo_cxl = \<lparr>smetas = [4096 \<mapsto> 64], sccs = [64 \<mapsto> demo_data], index = [1 \<mapsto> 4096], policy = (),
     mem = cxl_memory_init, retired = []\<rparr>"

definition demo_hosts :: "scc_manager \<Rightarrow> (nat, nat, unit) hosts" where
  "demo_hosts m = \<lparr>owner = owner_helper m, other = other_helper m, the_row = demo_row, the_cxl = demo_cxl\<rparr>"

lemma demo_word:
  "sm_readers 64 = 0" "\<not> sm_is_write_locked 64" "\<not> sm_is_data_modified_since_moved_in 64" "sm_get_scc_data 64 = 64"
  "\<not> bit (64 :: u64) 63"
  by (simp_all add: row_exec)

lemma demo_shared: "shared_at demo_cxl 4096 64 demo_data"
  by (simp add: shared_at_def demo_cxl_def demo_word)

lemma demo_abs: "row_abs demo_row demo_cxl = \<lparr>a_readers = 0, a_writer = False, a_valid = True, a_version = 5, a_val = 10\<rparr>"
proof -
  have "row_abs demo_row demo_cxl = abs_shared 64 demo_data"
    by (simp add: row_abs_def demo_row_def demo_cxl_def demo_word)
  moreover have "get_flag 0 demo_data" "remove_lock_bit (s_tid demo_data) = 5"
    by (simp_all add: row_exec demo_data_def)
  ultimately show ?thesis
    by (simp add: abs_shared_def demo_word demo_data_def)
qed

lemma demo_inv: "row_inv demo_row demo_cxl" "migrated_inv (demo_hosts m)"
proof -
  show "row_inv demo_row demo_cxl"
    by (rule row_inv_migratedI [OF _ _ demo_shared])
      (simp_all add: demo_abs, simp_all add: demo_row_def demo_word demo_data_def)
  then show "migrated_inv (demo_hosts m)"
    by (simp add: migrated_inv_def hosts_inv_def demo_hosts_def owner_helper_def other_helper_def)
      (simp add: demo_row_def)
qed

lemmas demo_exec = row_exec owner_helper_def other_helper_def demo_row_def demo_data_def demo_cxl_def demo_hosts_def

section \<open>Locking\<close>

text \<open>
  C9: \<open>take_read_lock_and_read\<close> on the owner's host, on a row in its partition or in CXL memory: the
  call leaves the invariant; if it succeeds there was no writer and at most 30 readers, there is one
  reader more and the data returned are the row's current value; if it fails the row is unchanged.
\<close>

theorem take_read_lock_and_read_refines:
  assumes "row_inv r c" "coordinator_id H < 16"
    and "take_read_lock_and_read H r c = Inr (((tid, ok, v), r'), c')"
  shows "row_inv r' c' \<and>
    (if ok then v = Some (a_val (row_abs r c)) \<and> \<not> a_writer (row_abs r c) \<and> a_readers (row_abs r c) < 31 \<and>
       row_abs r' c' = (row_abs r c)\<lparr>a_readers := Suc (a_readers (row_abs r c))\<rparr>
     else row_abs r' c' = row_abs r c)"
  using rk.lock_correct [OF assms(1,2)] assms(3) by (auto simp: lock_operations lock_post_def read_free_def)

lemma demo_read:
  obtains r' c' where "take_read_lock_and_read (owner_helper TwoPLPashaSCCWriteThrough) demo_row demo_cxl =
    Inr (((5, True, Some 10), r'), c')"
proof -
  have "map_sum id (\<lambda>((x, _), _). x)
      (take_read_lock_and_read (owner_helper TwoPLPashaSCCWriteThrough) demo_row demo_cxl) = Inr (5, True, Some 10)"
    by (simp add: demo_exec)
  then show thesis using that by (auto simp: map_sum_eq_Inr)
qed

theorem take_read_lock_and_read_refines_witness:
  "\<exists>r' c'. take_read_lock_and_read (owner_helper TwoPLPashaSCCWriteThrough) demo_row demo_cxl =
     Inr (((5, True, Some 10), r'), c') \<and> a_readers (row_abs r' c') = 1"
proof -
  obtain r' c' where run: "take_read_lock_and_read (owner_helper TwoPLPashaSCCWriteThrough) demo_row demo_cxl =
    Inr (((5, True, Some 10), r'), c')" by (rule demo_read)
  have "coordinator_id (owner_helper TwoPLPashaSCCWriteThrough) < 16" by (simp add: owner_helper_def)
  from take_read_lock_and_read_refines [OF demo_inv(1) this run] run show ?thesis
    by (auto simp: demo_abs)
qed

text \<open>
  C10: \<open>take_write_lock_and_read\<close>: if it succeeds there was no writer and no reader, the row is
  write-locked and the data returned are its current value; if it fails the row is unchanged.
\<close>

theorem take_write_lock_and_read_refines:
  assumes "row_inv r c" "coordinator_id H < 16"
    and "take_write_lock_and_read H r c = Inr (((tid, ok, v), r'), c')"
  shows "row_inv r' c' \<and>
    (if ok then v = Some (a_val (row_abs r c)) \<and> \<not> a_writer (row_abs r c) \<and> a_readers (row_abs r c) = 0 \<and>
       row_abs r' c' = (row_abs r c)\<lparr>a_writer := True\<rparr>
     else row_abs r' c' = row_abs r c)"
  using wk.lock_correct [OF assms(1,2)] assms(3) by (auto simp: lock_operations lock_post_def write_free_def)

lemma demo_write:
  obtains r' c' where "take_write_lock_and_read (owner_helper TwoPLPashaSCCWriteThrough) demo_row demo_cxl =
    Inr (((5, True, Some 10), r'), c')"
proof -
  have "map_sum id (\<lambda>((x, _), _). x)
      (take_write_lock_and_read (owner_helper TwoPLPashaSCCWriteThrough) demo_row demo_cxl) = Inr (5, True, Some 10)"
    by (simp add: demo_exec)
  then show thesis using that by (auto simp: map_sum_eq_Inr)
qed

theorem take_write_lock_and_read_refines_witness:
  "\<exists>r' c'. take_write_lock_and_read (owner_helper TwoPLPashaSCCWriteThrough) demo_row demo_cxl =
     Inr (((5, True, Some 10), r'), c') \<and> a_writer (row_abs r' c')"
proof -
  obtain r' c' where run: "take_write_lock_and_read (owner_helper TwoPLPashaSCCWriteThrough) demo_row demo_cxl =
    Inr (((5, True, Some 10), r'), c')" by (rule demo_write)
  have "coordinator_id (owner_helper TwoPLPashaSCCWriteThrough) < 16" by (simp add: owner_helper_def)
  from take_write_lock_and_read_refines [OF demo_inv(1) this run] run show ?thesis
    by (auto simp: demo_abs)
qed



text \<open>
  C12: Another host's write lock through the CXL pointer succeeds exactly when the row is valid
  and nobody holds a lock; the version and the value it returns are the row's, and the row is then
  write-locked. Otherwise the row is unchanged.
\<close>

theorem remote_write_lock_exact:
  assumes "row_inv r c" "l_is_migrated r" "l_migrated_row r = Some p" "coordinator_id H < 16"
    and "remote_take_write_lock_and_read H p inc c = Inr ((tid, ok, v), c')"
  shows "row_inv r c' \<and>
    (ok \<longleftrightarrow> a_valid (row_abs r c) \<and> \<not> a_writer (row_abs r c) \<and> a_readers (row_abs r c) = 0) \<and>
    (if ok then tid = a_version (row_abs r c) \<and> v = Some (a_val (row_abs r c)) \<and>
       row_abs r c' = (row_abs r c)\<lparr>a_writer := True\<rparr>
     else row_abs r c' = row_abs r c)"
  using wk.remote_correct [OF assms(1-4) assms(5) [unfolded lock_operations]]
  by (cases ok) (simp_all add: lock_post_def write_free_def)

theorem remote_write_lock_exact_witness:
  "\<exists>c'. remote_take_write_lock_and_read (other_helper TwoPLPashaSCCWriteThrough) 4096 True demo_cxl =
     Inr ((5, True, Some 10), c') \<and> a_writer (row_abs demo_row c')"
proof -
  have "map_sum id fst (remote_take_write_lock_and_read (other_helper TwoPLPashaSCCWriteThrough) 4096 True demo_cxl)
      = Inr (5, True, Some 10)" by (simp add: demo_exec)
  then obtain c' where run: "remote_take_write_lock_and_read (other_helper TwoPLPashaSCCWriteThrough) 4096 True demo_cxl
      = Inr ((5, True, Some 10), c')" by (auto simp: map_sum_eq_Inr)
  have "l_is_migrated demo_row" "l_migrated_row demo_row = Some 4096"
    "coordinator_id (other_helper TwoPLPashaSCCWriteThrough) < 16"
    by (simp_all add: demo_row_def other_helper_def)
  from remote_write_lock_exact [OF demo_inv(1) this run] run show ?thesis by auto
qed

section \<open>Transactions of two hosts\<close>


lemma demo_owner_run:
  "map_sum id fst (bind_res (local_wr (demo_hosts TwoPLPashaSCCWriteThrough)) (\<lambda>(_, s1).
     bind_res (local_up 77 s1) (\<lambda>s2. bind_res (local_cm 6 s2) remote_rd))) = Inr (6, True, Some 77)"
  by (simp add: demo_exec)

lemma bind_Inr_elim: "bind_res m f = Inr y \<Longrightarrow> (\<And>x. m = Inr x \<Longrightarrow> f x = Inr y \<Longrightarrow> thesis) \<Longrightarrow> thesis"
  by (cases m) auto



lemma demo_other_run:
  "map_sum id fst (bind_res (remote_wr (demo_hosts TwoPLPashaSCCWriteThrough)) (\<lambda>(_, s1).
     bind_res (remote_up 77 s1) (\<lambda>s2. bind_res (remote_cm 6 s2) local_rd))) = Inr (6, True, Some 77)"
  by (simp add: demo_exec)


text \<open>
  C15: While the owner holds the write lock of a migrated row, no other host gets a read or a
  write lock on it.
\<close>

theorem owner_write_lock_blocks_others:
  assumes "migrated_inv s" "local_wr s = Inr ((tid, True, v), s1)"
  shows "(remote_rd s1 = Inr ((tid', ok, v'), s2) \<longrightarrow> \<not> ok) \<and> (remote_wr s1 = Inr ((tid', ok, v'), s2) \<longrightarrow> \<not> ok)"
  using owner_other.writer_blocks_other_path [OF assms] by blast

theorem owner_write_lock_blocks_others_witness:
  "\<exists>s1. local_wr (demo_hosts TwoPLPashaSCCWriteThrough) = Inr ((5, True, Some 10), s1) \<and>
     (\<nexists>tid' v' s2. remote_rd s1 = Inr ((tid', True, v'), s2))"
proof -
  have "map_sum id fst (local_wr (demo_hosts TwoPLPashaSCCWriteThrough)) = Inr (5, True, Some 10)"
    by (simp add: demo_exec)
  then obtain s1 where 1: "local_wr (demo_hosts TwoPLPashaSCCWriteThrough) = Inr ((5, True, Some 10), s1)"
    by (auto simp: map_sum_eq_Inr)
  show ?thesis
    using owner_write_lock_blocks_others [OF demo_inv(2) 1] 1 by blast
qed

section \<open>Where the owner's copy is stale\<close>

text \<open>
  C16: A version may be lost. Another host updates a migrated row; before it releases the lock, the
  owner tries to read: the lock is refused, but the owner's copy is refreshed, with the old version,
  and the modified bit is cleared. The releasing write installs version 6 without setting the bit
  again, so the owner's next read lock succeeds and returns version 5 for the new value.
\<close>

definition stale_version_run :: "((u64 \<times> bool \<times> nat option) \<times> u64) res" where
  "stale_version_run =
     bind_res (remote_wr (demo_hosts TwoPLPashaSCCWriteThrough)) (\<lambda>(_, s1).
     bind_res (remote_up 77 s1) (\<lambda>s2.
     bind_res (local_rd s2) (\<lambda>((_, ok, _), s3).
     bind_res (remote_cm 6 s3) (\<lambda>s4.
     bind_res (local_rd s4) (\<lambda>(res, s5). Inr (res, a_version (hosts_abs s5)))))))"


text \<open>
  C17: A row made valid by another host (the commit of a remote insert) stays invisible to its
  owner: \<open>remote_modify_tuple_valid_bit\<close> sets the flag in CXL memory but not the modified bit, so the
  owner's lock operation consults its own copy and fails, while other hosts succeed.
\<close>

definition invisible_insert_run :: "(bool \<times> bool) res" where
  "invisible_insert_run =
     (let s = demo_hosts TwoPLPashaSCCWriteThrough;
          s0 = s\<lparr>the_row := (the_row s)\<lparr>l_is_valid := False\<rparr>,
            the_cxl := (the_cxl s)\<lparr>sccs := [64 \<mapsto> clear_flag 0 (demo_data\<lparr>s_ref_cnt := 1\<rparr>)]\<rparr>\<rparr> in
      bind_res (remote_modify_tuple_valid_bit (other s0) 4096 True True (the_cxl s0)) (\<lambda>(_, c).
      bind_res (local_rd (s0\<lparr>the_cxl := c\<rparr>)) (\<lambda>((_, owner_ok, _), s1).
      bind_res (remote_rd s1) (\<lambda>((_, other_ok, _), _). Inr (owner_ok, other_ok)))))"




end
