(* ===== verification/Tracker.thy ===== *)
theory Tracker
  imports Prelude
begin

text \<open>
  The lists in which the migration policies keep the migrated rows of a partition: the doubly
  linked \<open>LRUTracker\<close> of \<open>protocol/Pasha/PolicyLRU.h\<close>, whose nodes lie in CXL memory inside the rows'
  data blocks, and the \<open>ClockTracker\<close> of \<open>protocol/Pasha/PolicyClock.h\<close>, whose nodes the owner
  allocates. Both are pointer structures over a heap of nodes; both implement a list of rows in
  which a row is appended at the tail and taken out anywhere.
\<close>

section \<open>Nodes and trackers\<close>

record 'e node =
  entity :: 'e
  prev :: "u64 option"
  nxt :: "u64 option"

record 'e tracker =
  nodes :: "u64 \<rightharpoonup> 'e node"
  head :: "u64 option"
  tail :: "u64 option"
  cur_victim :: "u64 option"

definition tracker_init :: "'e tracker" where
  "tracker_init = \<lparr>nodes = Map.empty, head = None, tail = None, cur_victim = None\<rparr>"

text \<open>An assignment to a field of the node at a pointer.\<close>

definition set_node :: "u64 option \<Rightarrow> ('e node \<Rightarrow> 'e node) \<Rightarrow> 'e tracker \<Rightarrow> 'e tracker res" where
  "set_node p f t = bind_res (deref (nodes t) p) (\<lambda>n. Inr (t\<lparr>nodes := (nodes t)(the p \<mapsto> f n)\<rparr>))"

section \<open>LRUTracker\<close>

text \<open>Appending at the tail: the part after the assertions on the new node, which both trackers share.\<close>

definition push_back :: "u64 \<Rightarrow> 'e tracker \<Rightarrow> 'e tracker res" where
  "push_back a t =
     (if head t = None \<and> tail t = None then
        set_node (Some a) (\<lambda>n. n\<lparr>prev := None, nxt := None\<rparr>) (t\<lparr>head := Some a, tail := Some a\<rparr>)
      else check (head t \<noteq> None) (check (tail t \<noteq> None)
        (bind_res (deref (nodes t) (tail t)) (\<lambda>l. check (nxt l = None)
        (bind_res (deref (nodes t) (head t)) (\<lambda>h. check (prev h = None)
        (bind_res (set_node (tail t) (\<lambda>n. n\<lparr>nxt := Some a\<rparr>) t) (\<lambda>t.
         bind_res (set_node (Some a) (\<lambda>n. n\<lparr>prev := tail t\<rparr>) t) (\<lambda>t. Inr (t\<lparr>tail := Some a\<rparr>))))))))))"

definition lru_track :: "u64 \<Rightarrow> 'e tracker \<Rightarrow> 'e tracker res" where
  "lru_track lru_meta t =
     bind_res (deref (nodes t) (Some lru_meta)) (\<lambda>n.
       check (nxt n = None) (check (prev n = None) (push_back lru_meta t)))"

definition lru_untrack :: "u64 \<Rightarrow> 'e tracker \<Rightarrow> 'e tracker res" where
  "lru_untrack a t =
     bind_res
       (if head t = None \<and> tail t = None then Inl Check_failed
        else if head t = tail t then
          check (Some a = head t) (check (Some a = tail t) (Inr (t\<lparr>head := None, tail := None\<rparr>)))
        else
          bind_res (deref (nodes t) (Some a)) (\<lambda>n.
          bind_res (if prev n \<noteq> None then set_node (prev n) (\<lambda>x. x\<lparr>nxt := nxt n\<rparr>) t else Inr t) (\<lambda>t.
          bind_res (deref (nodes t) (Some a)) (\<lambda>n.
          bind_res (if nxt n \<noteq> None then set_node (nxt n) (\<lambda>x. x\<lparr>prev := prev n\<rparr>) t else Inr t) (\<lambda>t.
          bind_res (deref (nodes t) (Some a)) (\<lambda>n.
            Inr (t\<lparr>head := if head t = Some a then nxt n else head t,
                   tail := if tail t = Some a then prev n else tail t\<rparr>)))))))
       (set_node (Some a) (\<lambda>n. n\<lparr>prev := None, nxt := None\<rparr>))"

definition lru_promote :: "u64 \<Rightarrow> 'e tracker \<Rightarrow> 'e tracker res" where
  "lru_promote lru_meta t = bind_res (lru_untrack lru_meta t) (lru_track lru_meta)"

definition get_next_victim :: "'e tracker \<Rightarrow> (u64 option \<times> 'e tracker) res" where
  "get_next_victim t =
     (if cur_victim t = None then Inr (head t, t\<lparr>cur_victim := head t\<rparr>)
      else bind_res (deref (nodes t) (cur_victim t)) (\<lambda>n. Inr (nxt n, t\<lparr>cur_victim := nxt n\<rparr>)))"

definition reset_cur_victim :: "'e tracker \<Rightarrow> 'e tracker" where
  "reset_cur_victim t = t\<lparr>cur_victim := None\<rparr>"

section \<open>ClockTracker\<close>

text \<open>The same list without the assertions on the new node; the cursor is \<open>cur_victim\<close>.\<close>

definition clock_track :: "u64 \<Rightarrow> 'e tracker \<Rightarrow> 'e tracker res" where
  "clock_track node t = push_back node t"

definition clock_untrack :: "u64 \<Rightarrow> 'e tracker \<Rightarrow> 'e tracker res" where
  "clock_untrack node t = lru_untrack node t"

definition move_forward_and_get_cursor :: "'e tracker \<Rightarrow> (u64 option \<times> 'e tracker) res" where
  "move_forward_and_get_cursor t = get_next_victim t"

definition reset_cursor :: "'e tracker \<Rightarrow> 'e tracker" where
  "reset_cursor t = t\<lparr>cur_victim := None\<rparr>"

section \<open>The list a tracker holds\<close>

text \<open>\<open>seg ns p xs q\<close>: the nodes \<open>xs\<close> are linked in this order, with \<open>p\<close> before the first and \<open>q\<close> after the last.\<close>

fun seg :: "(u64 \<rightharpoonup> 'e node) \<Rightarrow> u64 option \<Rightarrow> u64 list \<Rightarrow> u64 option \<Rightarrow> bool" where
  "seg ns p [] q = True"
| "seg ns p (x # xs) q \<longleftrightarrow>
     (\<exists>n. ns x = Some n \<and> prev n = p \<and> nxt n = (if xs = [] then q else Some (hd xs)) \<and> seg ns (Some x) xs q)"

definition tracks :: "'e tracker \<Rightarrow> u64 list \<Rightarrow> bool" where
  "tracks t xs \<longleftrightarrow> distinct xs \<and> head t = hd_opt xs \<and> tail t = last_opt xs \<and> seg (nodes t) None xs None"

lemma seg_append:
  "seg ns p (xs @ ys) q \<longleftrightarrow>
     seg ns p xs (if ys = [] then q else Some (hd ys)) \<and> seg ns (if xs = [] then p else Some (last xs)) ys q"
  by (induction xs arbitrary: p) auto

lemma seg_cong: "(\<And>x. x \<in> set xs \<Longrightarrow> ns' x = ns x) \<Longrightarrow> seg ns' p xs q = seg ns p xs q"
  by (induction xs arbitrary: p) auto

lemma seg_upd [simp]: "a \<notin> set xs \<Longrightarrow> seg (ns(a := n)) p xs q = seg ns p xs q"
  by (intro seg_cong) auto

lemma seg_node: "seg ns p xs q \<Longrightarrow> x \<in> set xs \<Longrightarrow> ns x \<noteq> None"
  by (induction xs arbitrary: p) auto

lemma seg_set_last:
  assumes "seg ns p (xs @ [x]) q" "x \<notin> set xs" "ns x = Some n"
  shows "seg (ns(x \<mapsto> n\<lparr>nxt := q'\<rparr>)) p (xs @ [x]) q'"
proof -
  have "seg (ns(x \<mapsto> n\<lparr>nxt := q'\<rparr>)) p xs (Some x) = seg ns p xs (Some x)"
    using assms(2) by (intro seg_cong) auto
  then show ?thesis using assms by (auto simp: seg_append)
qed

lemma seg_set_first:
  assumes "seg ns p (x # xs) q" "x \<notin> set xs" "ns x = Some n"
  shows "seg (ns(x \<mapsto> n\<lparr>prev := p'\<rparr>)) p' (x # xs) q"
proof -
  have "seg (ns(x \<mapsto> n\<lparr>prev := p'\<rparr>)) (Some x) xs q = seg ns (Some x) xs q"
    using assms(2) by (intro seg_cong) auto
  then show ?thesis using assms by auto
qed

lemma push_back_ok:
  assumes "tracks t xs" "a \<notin> set xs" "nodes t a = Some n" "prev n = None" "nxt n = None"
  shows "\<exists>t'. push_back a t = Inr t' \<and> tracks t' (xs @ [a]) \<and> cur_victim t' = cur_victim t \<and>
    (\<forall>x. x \<notin> set (xs @ [a]) \<longrightarrow> nodes t' x = nodes t x) \<and>
    (\<forall>x. map_option entity (nodes t' x) = map_option entity (nodes t x))"
proof (cases xs rule: rev_cases)
  case Nil
  then show ?thesis
    using assms by (auto simp: push_back_def tracks_def set_node_def)
next
  case (snoc ys y)
  have s: "seg (nodes t) None (ys @ [y]) None" "distinct (ys @ [y])" "tail t = Some y" "head t = hd_opt (ys @ [y])"
    using assms(1) snoc by (auto simp: tracks_def)
  then obtain l where l: "nodes t y = Some l" "nxt l = None"
    by (auto simp: seg_append)
  obtain h k where h: "head t = Some k" "nodes t k = Some h" "prev h = None"
    using s by (cases ys) auto
  have ya: "y \<noteq> a" using assms(2) snoc by auto
  define ns where "ns = (nodes t)(y \<mapsto> l\<lparr>nxt := Some a\<rparr>)"
  define t' where "t' = t\<lparr>nodes := ns(a \<mapsto> n\<lparr>prev := Some y\<rparr>), tail := Some a\<rparr>"
  have run: "push_back a t = Inr t'"
    using s(3) l h assms(3) ya by (simp add: push_back_def set_node_def t'_def ns_def)
  have "seg ns None (ys @ [y]) (Some a)"
    unfolding ns_def using s l by (intro seg_set_last) auto
  then have "seg (ns(a \<mapsto> n\<lparr>prev := Some y\<rparr>)) None (ys @ [y]) (Some a)"
    using assms(2) snoc by (simp del: fun_upd_apply)
  then have "seg (nodes t') None ((ys @ [y]) @ [a]) None"
    unfolding seg_append using assms(5) by (simp add: t'_def)
  then have "tracks t' (xs @ [a])"
    using s snoc assms(2) by (auto simp: tracks_def t'_def hd_opt_def last_opt_def hd_append)
  then show ?thesis
    using run l(1) assms(3) snoc by (auto simp: t'_def ns_def)
qed

text \<open>Taking a node out: the links around it close, and its own are cleared.\<close>

lemma seg_around:
  assumes "seg ns p (us @ a # vs) q"
  shows "seg ns p us (Some a)" "\<exists>n. ns a = Some n \<and> prev n = (if us = [] then p else last_opt us) \<and>
    nxt n = (if vs = [] then q else hd_opt vs)" "seg ns (Some a) vs q"
  using assms by (auto simp: seg_append last_opt_def hd_opt_def)

lemma lru_untrack_ok:
  assumes "tracks t (us @ a # vs)"
  shows "\<exists>t'. lru_untrack a t = Inr t' \<and> tracks t' (us @ vs) \<and> cur_victim t' = cur_victim t \<and>
    (\<exists>n. nodes t' a = Some n \<and> prev n = None \<and> nxt n = None) \<and>
    (\<forall>x. x \<notin> set (us @ a # vs) \<longrightarrow> nodes t' x = nodes t x) \<and>
    (\<forall>x. map_option entity (nodes t' x) = map_option entity (nodes t x))"
proof -
  have d: "distinct us" "distinct vs" "a \<notin> set us" "a \<notin> set vs" "set us \<inter> set vs = {}"
    and ht: "head t = hd_opt (us @ a # vs)" "tail t = last_opt (us @ a # vs)"
    and s: "seg (nodes t) None (us @ a # vs) None"
    using assms by (auto simp: tracks_def)
  note sa = seg_around [OF s]
  from sa(2) obtain n where n: "nodes t a = Some n" "prev n = last_opt us" "nxt n = hd_opt vs"
    by (auto split: if_splits)
  show ?thesis
  proof (cases "us = [] \<and> vs = []")
    case True
    then show ?thesis
      using n ht by (auto simp: lru_untrack_def set_node_def tracks_def)
  next
    case False
    have ne: "head t \<noteq> tail t" "\<not> (head t = None \<and> tail t = None)"
    proof -
      show "\<not> (head t = None \<and> tail t = None)" using ht by simp
      show "head t \<noteq> tail t"
      proof (cases vs rule: rev_cases)
        case Nil
        then show ?thesis using ht False d(3) by (cases us) (auto simp: last_opt_def)
      next
        case (snoc ws w)
        then have "tail t = Some w" using ht by (simp add: last_opt_def)
        moreover have "head t \<noteq> Some w" using ht snoc d(4,5) by (cases us) auto
        ultimately show ?thesis by simp
      qed
    qed
    define ns1 where "ns1 = (case last_opt us of None \<Rightarrow> nodes t
      | Some l \<Rightarrow> (nodes t)(l \<mapsto> (the (nodes t l))\<lparr>nxt := hd_opt vs\<rparr>))"
    define ns2 where "ns2 = (case hd_opt vs of None \<Rightarrow> ns1 | Some h \<Rightarrow> ns1(h \<mapsto> (the (ns1 h))\<lparr>prev := last_opt us\<rparr>))"
    have s1: "seg ns1 None us (hd_opt vs)" "seg ns1 (Some a) vs None" "ns1 a = Some n"
    proof -
      show "seg ns1 None us (hd_opt vs)"
      proof (cases us rule: rev_cases)
        case (snoc ws w)
        then obtain m where m: "nodes t w = Some m" using sa(1) by (auto simp: seg_append)
        then have "seg ((nodes t)(w \<mapsto> m\<lparr>nxt := hd_opt vs\<rparr>)) None (ws @ [w]) (hd_opt vs)"
          using sa(1) snoc d(1) by (intro seg_set_last [where q = "Some a"]) auto
        then show ?thesis using snoc m by (simp add: ns1_def)
      qed simp
      have "seg ns1 (Some a) vs None = seg (nodes t) (Some a) vs None"
        using d(5) by (intro seg_cong) (auto simp: ns1_def dest: end_in_set split: option.split)
      then show "seg ns1 (Some a) vs None" using sa(3) by simp
      show "ns1 a = Some n" using n d(3) by (auto simp: ns1_def dest: end_in_set split: option.split)
    qed
    have s2: "seg ns2 None us (hd_opt vs)" "seg ns2 (last_opt us) vs None" "ns2 a = Some n"
    proof -
      have "seg ns2 None us (hd_opt vs) = seg ns1 None us (hd_opt vs)"
        using d(5) by (intro seg_cong) (auto simp: ns2_def dest: end_in_set split: option.split)
      then show "seg ns2 None us (hd_opt vs)" using s1(1) by simp
      show "seg ns2 (last_opt us) vs None"
      proof (cases vs)
        case (Cons w ws)
        then obtain m where m: "ns1 w = Some m" using s1(2) by auto
        then have "seg (ns1(w \<mapsto> m\<lparr>prev := last_opt us\<rparr>)) (last_opt us) (w # ws) None"
          using s1(2) Cons d(2) by (intro seg_set_first [where p = "Some a"]) auto
        then show ?thesis using Cons m by (simp add: ns2_def)
      qed simp
      show "ns2 a = Some n" using s1(3) d(4) by (auto simp: ns2_def dest: end_in_set split: option.split)
    qed
    define t' where "t' = t\<lparr>nodes := ns2(a \<mapsto> n\<lparr>prev := None, nxt := None\<rparr>),
      head := if head t = Some a then hd_opt vs else head t, tail := if tail t = Some a then last_opt us else tail t\<rparr>"
    have u: "l \<noteq> a \<and> (\<exists>m. nodes t l = Some m)" if "last_opt us = Some l" for l
      using end_in_set(1) [OF that] d(3) seg_node [OF s] by auto
    have v: "h \<noteq> a \<and> (\<exists>m. ns1 h = Some m)" if "hd_opt vs = Some h" for h
      using end_in_set(2) [OF that] d(4) seg_node [OF s1(2)] by auto
    have step1: "(if prev n \<noteq> None then set_node (prev n) (\<lambda>x. x\<lparr>nxt := nxt n\<rparr>) t else Inr t) = Inr (t\<lparr>nodes := ns1\<rparr>)"
      using n u by (cases "last_opt us") (auto simp: ns1_def set_node_def)
    have step2: "(if nxt n \<noteq> None then set_node (nxt n) (\<lambda>x. x\<lparr>prev := prev n\<rparr>) (t\<lparr>nodes := ns1\<rparr>)
        else Inr (t\<lparr>nodes := ns1\<rparr>)) = Inr (t\<lparr>nodes := ns2\<rparr>)"
      using n v by (cases "hd_opt vs") (auto simp: ns2_def set_node_def)
    have run: "lru_untrack a t = Inr t'"
    proof -
      have f: "deref (nodes t) (Some a) = Inr n" "deref (nodes (t\<lparr>nodes := ns1\<rparr>)) (Some a) = Inr n"
        "deref (nodes (t\<lparr>nodes := ns2\<rparr>)) (Some a) = Inr n"
        using n s1(3) s2(3) by simp_all
      show ?thesis
        unfolding lru_untrack_def if_not_P [OF ne(2)] if_not_P [OF ne(1)] f bind_res_Inr step1 step2
        by (simp add: set_node_def s2(3) n t'_def)
    qed
    have "seg (nodes t') None us (hd_opt vs)" "seg (nodes t') (last_opt us) vs None"
      using s2(1,2) d(3,4) by (simp_all add: t'_def)
    then have "seg (nodes t') None (us @ vs) None"
      by (auto simp: seg_append last_opt_def hd_opt_def split: if_splits)
    moreover have "head t' = hd_opt (us @ vs)" "tail t' = last_opt (us @ vs)"
      using ht d by (cases us; auto simp: t'_def hd_opt_def last_opt_def split: if_splits)+
    ultimately have "tracks t' (us @ vs)"
      using d by (auto simp: tracks_def)
    then show ?thesis
      using run n u v by (auto simp: t'_def ns2_def ns1_def dest: end_in_set split: option.splits)
  qed
qed

section \<open>The contract of a tracker\<close>

text \<open>What the policies rely on: a list of rows with appending at the tail and removal anywhere.\<close>

definition detached :: "u64 \<Rightarrow> 'e tracker \<Rightarrow> bool" where
  "detached a t \<longleftrightarrow> (\<exists>n. nodes t a = Some n \<and> prev n = None \<and> nxt n = None)"

definition same_rows :: "u64 set \<Rightarrow> 'e tracker \<Rightarrow> 'e tracker \<Rightarrow> bool" where
  "same_rows A t t' \<longleftrightarrow> cur_victim t' = cur_victim t \<and> (\<forall>x. x \<notin> A \<longrightarrow> nodes t' x = nodes t x) \<and>
     (\<forall>x. map_option entity (nodes t' x) = map_option entity (nodes t x))"

locale row_list =
  fixes track :: "u64 \<Rightarrow> 'e tracker \<Rightarrow> 'e tracker res" and untrack :: "u64 \<Rightarrow> 'e tracker \<Rightarrow> 'e tracker res"
  assumes track: "tracks t xs \<Longrightarrow> a \<notin> set xs \<Longrightarrow> detached a t \<Longrightarrow>
      \<exists>t'. track a t = Inr t' \<and> tracks t' (xs @ [a]) \<and> same_rows (insert a (set xs)) t t'"
    and untrack: "tracks t xs \<Longrightarrow> a \<in> set xs \<Longrightarrow>
      \<exists>t'. untrack a t = Inr t' \<and> tracks t' (remove1 a xs) \<and> detached a t' \<and> same_rows (set xs) t t'"
begin

text \<open>Moving a row to the tail.\<close>

lemma promote:
  assumes "tracks t xs" "a \<in> set xs"
  shows "\<exists>t'. bind_res (untrack a t) (track a) = Inr t' \<and> tracks t' (remove1 a xs @ [a]) \<and> same_rows (set xs) t t'"
proof -
  from untrack [OF assms] obtain t1
    where t1: "untrack a t = Inr t1" "tracks t1 (remove1 a xs)" "detached a t1" "same_rows (set xs) t t1" by blast
  have "a \<notin> set (remove1 a xs)" using assms(1) by (simp add: tracks_def)
  from track [OF t1(2) this t1(3)] obtain t2
    where t2: "track a t1 = Inr t2" "tracks t2 (remove1 a xs @ [a])" "same_rows (insert a (set (remove1 a xs))) t1 t2" by blast
  moreover have "same_rows (set xs) t t2"
    using t1(4) t2(3) assms(2) set_remove1_subset [of a xs] by (auto simp: same_rows_def)
  ultimately show ?thesis using t1(1) by auto
qed

end

lemma lru_untrack_law:
  assumes "tracks t xs" "a \<in> set xs"
  shows "\<exists>t'. lru_untrack a t = Inr t' \<and> tracks t' (remove1 a xs) \<and> detached a t' \<and> same_rows (set xs) t t'"
proof -
  from assms(2) obtain us vs where xs: "xs = us @ a # vs" "a \<notin> set us" by (auto dest: split_list_first)
  then have "remove1 a xs = us @ vs" by (simp add: remove1_append)
  then show ?thesis
    using lru_untrack_ok [of t us a vs] assms(1) xs by (auto simp: detached_def same_rows_def)
qed

interpretation lrut: row_list lru_track lru_untrack
proof (unfold_locales, goal_cases)
  case (1 t xs a)
  then show ?case
    using push_back_ok [of t xs a] by (fastforce simp: lru_track_def detached_def same_rows_def)
next
  case (2 t xs a)
  then show ?case by (rule lru_untrack_law)
qed

interpretation clockt: row_list clock_track clock_untrack
proof (unfold_locales, goal_cases)
  case (1 t xs a)
  then show ?case
    using push_back_ok [of t xs a] by (fastforce simp: clock_track_def detached_def same_rows_def)
next
  case (2 t xs a)
  then show ?case unfolding clock_untrack_def by (rule lru_untrack_law)
qed

lemma get_next_victim_ok:
  assumes "tracks t xs" "case cur_victim t of None \<Rightarrow> us = [] | Some x \<Rightarrow> us = ws @ [x]" "xs = us @ vs"
  shows "get_next_victim t = Inr (hd_opt vs, t\<lparr>cur_victim := hd_opt vs\<rparr>)"
proof (cases "cur_victim t")
  case None
  then show ?thesis using assms by (simp add: get_next_victim_def tracks_def)
next
  case (Some x)
  then have "seg (nodes t) None (ws @ x # vs) None" using assms by (simp add: tracks_def)
  from seg_around(2) [OF this] obtain n where "nodes t x = Some n" "nxt n = hd_opt vs"
    by (auto split: if_splits)
  then show ?thesis using Some by (simp add: get_next_victim_def)
qed

text \<open>
  C26: Using a row moves it to the tail of the LRU list and leaves the order of the others: the head
  stays the least recently used row, and no row is lost or duplicated.
\<close>

theorem lru_promote_order:
  assumes "tracks t xs" "a \<in> set xs"
  shows "\<exists>t'. lru_promote a t = Inr t' \<and> tracks t' (remove1 a xs @ [a])"
  using lrut.promote [OF assms] unfolding lru_promote_def by blast

definition demo_tracker :: "nat tracker" where
  "demo_tracker = \<lparr>nodes = [1 \<mapsto> \<lparr>entity = 10, prev = None, nxt = Some 2\<rparr>, 2 \<mapsto> \<lparr>entity = 20, prev = Some 1, nxt = Some 3\<rparr>,
     3 \<mapsto> \<lparr>entity = 30, prev = Some 2, nxt = None\<rparr>], head = Some 1, tail = Some 3, cur_victim = None\<rparr>"

lemma demo_tracks: "tracks demo_tracker [1, 2, 3]"
  by (simp add: tracks_def demo_tracker_def last_opt_def)

theorem lru_promote_order_witness:
  "\<exists>t'. lru_promote 1 demo_tracker = Inr t' \<and> tracks t' [2, 3, 1]"
  using lru_promote_order [OF demo_tracks, of 1] by simp

end
