(* ===== verification/Migration.thy ===== *)
theory Migration
  imports RowCC
begin

text \<open>
  Migration of rows between their partition and CXL memory, the second half of
  \<open>protocol/TwoPLPasha/TwoPLPashaHelper.h\<close>: moving a row in and out, inserting and deleting rows, and
  the next-key and previous-key bits that let another host tell, during a scan over the CXL index,
  whether the neighbour of a migrated row is migrated too.

  The local table is the list of its rows in key order, which is what the B-tree of \<open>core/Table.h\<close>
  gives the processors of \<open>search_and_update_next_key_info\<close>, \<open>insert_and_process_adjacent_tuples\<close> and
  \<open>remove_and_process_adjacent_tuples\<close>: a row with its two neighbours, under the leaf locks. What the
  allocator returns is an argument: \<open>a_smeta\<close> and \<open>a_scc\<close> with the bytes a new data block holds. The
  migration policy's own metadata is a parameter \<open>pinit\<close> of the key and the block.
\<close>

section \<open>The local table\<close>

datatype table_type = HASHMAP | BTREE

record table_info =
  value_size :: u64
  tableType :: table_type

type_synonym ('k, 'v) rows = "('k \<times> 'v lrow) list"

definition prev_row :: "('k :: linorder) \<Rightarrow> ('k, 'v) rows \<Rightarrow> ('k \<times> 'v lrow) option" where
  "prev_row key rows = (case takeWhile (\<lambda>(k, _). k < key) rows of [] \<Rightarrow> None | xs \<Rightarrow> Some (last xs))"

definition next_row :: "('k :: linorder) \<Rightarrow> ('k, 'v) rows \<Rightarrow> ('k \<times> 'v lrow) option" where
  "next_row key rows = (case dropWhile (\<lambda>(k, _). k \<le> key) rows of [] \<Rightarrow> None | x # _ \<Rightarrow> Some x)"

definition set_row :: "'k \<Rightarrow> 'v lrow \<Rightarrow> ('k, 'v) rows \<Rightarrow> ('k, 'v) rows" where
  "set_row key r rows = map (\<lambda>(k, x). if k = key then (k, r) else (k, x)) rows"

definition insert_row :: "('k :: linorder) \<Rightarrow> 'v lrow \<Rightarrow> ('k, 'v) rows \<Rightarrow> ('k, 'v) rows" where
  "insert_row key r rows =
     takeWhile (\<lambda>(k, _). k < key) rows @ (key, r) # dropWhile (\<lambda>(k, _). k < key) rows"

definition remove_row :: "'k \<Rightarrow> ('k, 'v) rows \<Rightarrow> ('k, 'v) rows" where
  "remove_row key rows = filter (\<lambda>(k, _). k \<noteq> key) rows"

section \<open>The CXL index\<close>

text \<open>
  A B-tree index ignores the row it is asked to remove and aborts on a missing key; a hash index
  removes the given row only. Neither is asked to insert a key it has: see \<open>part_inv\<close>.
\<close>

definition index_insert :: "'k \<Rightarrow> u64 \<Rightarrow> ('k \<rightharpoonup> u64) \<Rightarrow> bool \<times> ('k \<rightharpoonup> u64)" where
  "index_insert key row idx = (if idx key = None then (True, idx(key \<mapsto> row)) else (False, idx))"

definition index_remove :: "table_type \<Rightarrow> 'k \<Rightarrow> u64 option \<Rightarrow> ('k \<rightharpoonup> u64) \<Rightarrow> (bool \<times> ('k \<rightharpoonup> u64)) res" where
  "index_remove t key row idx =
     (case t of
        BTREE \<Rightarrow> check (idx key \<noteq> None) (Inr (True, idx(key := None)))
      | HASHMAP \<Rightarrow> (if idx key \<noteq> None \<and> idx key = row then Inr (True, idx(key := None)) else Inr (False, idx)))"

section \<open>Moving a row in\<close>

datatype migration_result = SUCCESS | FAIL_ALREADY_IN_CXL | FAIL_OOM

record 'v alloc =
  a_smeta :: "u64 option"
  a_scc :: "(u64 \<times> 'v scc_data) option"

abbreviation (input) smeta_size :: u64 where "smeta_size \<equiv> 8"
abbreviation (input) scc_size :: "table_info \<Rightarrow> u64" where "scc_size ti \<equiv> 40 + value_size ti"

text \<open>
  The new atomic word, from the constructor to the release of the latch: \<open>kinfo\<close> sets the next-key
  and previous-key bits of a B-tree row.
\<close>

definition new_smeta :: "helper \<Rightarrow> (u64 \<Rightarrow> u64) \<Rightarrow> u64 \<Rightarrow> u64 \<Rightarrow> u64 res" where
  "new_smeta H kinfo off tid =
     (case sm_lock (init_scc_metadata (manager H) (coordinator_id H) (sm_new off)) of
        None \<Rightarrow> Inl Latch_held
      | Some w \<Rightarrow>
          let w = sm_set_reader_count (read_lock_num tid) w;
              w = (if is_write_locked tid then sm_set_write_locked w else sm_clear_write_locked w) in
          dcheck (ndebug H) (read_lock_num tid = sm_get_reader_count w)
            (dcheck (ndebug H) (is_write_locked tid = sm_is_write_locked w)
              (bind_res (finish_write (manager H) (coordinator_id H)
                  (kinfo (sm_clear_is_data_modified_since_moved_in w))) (\<lambda>(w, _). Inr (sm_unlock w)))))"

text \<open>The new contents of the data block.\<close>

definition fill_scc_data :: "helper \<Rightarrow> bool \<Rightarrow> 'v lrow \<Rightarrow> 'v scc_data \<Rightarrow> 'v scc_data" where
  "fill_scc_data H inc_ref_cnt r d =
     (let d = (put_valid (l_is_valid r) d)\<lparr>s_tid := l_tid r\<rparr>;
          d = (if l_is_data_modified_since_moved_out r \<or> \<not> enable_migration_optimization H
               then d\<lparr>s_data := l_data r\<rparr> else d) in
      if inc_ref_cnt then d\<lparr>s_ref_cnt := s_ref_cnt d + 1\<rparr> else d)"

text \<open>
  Allocate, fill and publish the shared copy of a row that is not migrated. The result is the
  policy metadata of the new block (\<open>None\<close> when memory has run out), the row and the memory.
\<close>

definition alloc_scc_data ::
  "helper \<Rightarrow> table_info \<Rightarrow> 'v alloc \<Rightarrow> 'v lrow \<Rightarrow> ('k, 'v, 'p) cxl \<Rightarrow>
     ((u64 \<times> 'v scc_data) option \<times> ('k, 'v, 'p) cxl) res" where
  "alloc_scc_data H ti a r c =
     (if l_scc_data r = None \<or> \<not> enable_scc H
      then bind_res (malloc_wrapper H (scc_size ti) DATA_ALLOCATION (mem c)) (\<lambda>m. Inr (a_scc a, c\<lparr>mem := m\<rparr>))
      else bind_res (deref (sccs c) (l_scc_data r)) (\<lambda>d. Inr (Some (the (l_scc_data r), d), c)))"

definition move_in_row ::
  "helper \<Rightarrow> table_info \<Rightarrow> ('k \<Rightarrow> u64 \<Rightarrow> 'p \<Rightarrow> 'p) \<Rightarrow> 'v alloc \<Rightarrow> (u64 \<Rightarrow> u64) \<Rightarrow> bool \<Rightarrow> 'k \<Rightarrow> 'v lrow \<Rightarrow>
     ('k, 'v, 'p) cxl \<Rightarrow> ((u64 option \<times> 'v lrow) \<times> ('k, 'v, 'p) cxl) res" where
  "move_in_row H ti pinit a kinfo inc_ref_cnt key r c =
     bind_res (malloc_wrapper H smeta_size METADATA_ALLOCATION (mem c)) (\<lambda>m.
       let c = c\<lparr>mem := m\<rparr> in
       case a_smeta a of
         None \<Rightarrow> Inr ((None, r), c)
       | Some p \<Rightarrow>
           bind_res (alloc_scc_data H ti a r c) (\<lambda>(x, c).
             case x of
               None \<Rightarrow> Inr ((None, r), c)
             | Some (off, d) \<Rightarrow>
                 bind_res (new_smeta H kinfo off (l_tid r)) (\<lambda>w.
                   let (insert_ret, idx) = index_insert key p (index c) in
                   dcheck (ndebug H) insert_ret
                     (Inr ((Some off,
                        r\<lparr>l_scc_data := Some off, l_is_data_modified_since_moved_out := False,
                          l_migrated_row := Some p, l_is_migrated := True\<rparr>),
                      c\<lparr>smetas := (smetas c)(p \<mapsto> w), sccs := (sccs c)(off \<mapsto> fill_scc_data H inc_ref_cnt r d),
                        index := idx, policy := pinit key off (policy c)\<rparr>)))))"

text \<open>A row that is already in CXL memory: only the reference count moves.\<close>

definition inc_ref_cnt_via_row :: "bool \<Rightarrow> 'v lrow \<Rightarrow> ('k, 'v, 'p) cxl \<Rightarrow> (unit \<times> ('k, 'v, 'p) cxl) res" where
  "inc_ref_cnt_via_row inc_ref_cnt r c =
     (if inc_ref_cnt
      then latched (l_migrated_row r) c (\<lambda>w d. Inr ((), w, d\<lparr>s_ref_cnt := s_ref_cnt d + 1\<rparr>))
      else Inr ((), c))"

definition move_from_hashmap_to_shared_region ::
  "helper \<Rightarrow> table_info \<Rightarrow> ('k \<Rightarrow> u64 \<Rightarrow> 'p \<Rightarrow> 'p) \<Rightarrow> 'v alloc \<Rightarrow> bool \<Rightarrow> 'k \<Rightarrow> ('k, 'v) rows \<Rightarrow>
     ('k, 'v, 'p) cxl \<Rightarrow> ((migration_result \<times> u64 option) \<times> ('k, 'v) rows \<times> ('k, 'v, 'p) cxl) res" where
  "move_from_hashmap_to_shared_region H ti pinit a inc_ref_cnt key rows c =
     (case map_of rows key of
        None \<Rightarrow> Inl Bad_pointer
      | Some r \<Rightarrow>
          if \<not> l_is_migrated r then
            bind_res (move_in_row H ti pinit a (\<lambda>w. w) inc_ref_cnt key r c) (\<lambda>((x, r), c).
              Inr ((if x = None then FAIL_OOM else SUCCESS, x), set_row key r rows, c))
          else
            bind_res (inc_ref_cnt_via_row inc_ref_cnt r c) (\<lambda>(_, c). Inr ((FAIL_ALREADY_IN_CXL, None), rows, c)))"

text \<open>One bit of the atomic word of a neighbour, under its latch, when the neighbour is migrated.\<close>

definition update_neighbour ::
  "(u64 \<Rightarrow> u64) \<Rightarrow> ('k \<times> 'v lrow) option \<Rightarrow> ('k, 'v, 'p) cxl \<Rightarrow> ('k, 'v, 'p) cxl res" where
  "update_neighbour f nb c =
     (case nb of
        None \<Rightarrow> Inr c
      | Some (_, r) \<Rightarrow>
          if l_is_migrated r then
            bind_res (deref (smetas c) (l_migrated_row r)) (\<lambda>w.
              case sm_lock w of
                None \<Rightarrow> Inl Latch_held
              | Some w \<Rightarrow> Inr (c\<lparr>smetas := (smetas c)(the (l_migrated_row r) \<mapsto> sm_unlock (f w))\<rparr>))
          else Inr c)"

definition update_neighbours ::
  "(u64 \<Rightarrow> u64) \<Rightarrow> (u64 \<Rightarrow> u64) \<Rightarrow> ('k :: linorder) \<Rightarrow> ('k, 'v) rows \<Rightarrow> ('k, 'v, 'p) cxl \<Rightarrow> ('k, 'v, 'p) cxl res" where
  "update_neighbours f g key rows c =
     bind_res (update_neighbour f (prev_row key rows) c) (update_neighbour g (next_row key rows))"

definition nb_migrated :: "('k \<times> 'v lrow) option \<Rightarrow> bool" where
  "nb_migrated nb = (case nb of None \<Rightarrow> False | Some (_, r) \<Rightarrow> l_is_migrated r)"

definition key_info_bits :: "bool \<Rightarrow> bool \<Rightarrow> u64 \<Rightarrow> u64" where
  "key_info_bits is_next_key_migrated is_prev_key_migrated w =
     (let w = (if is_next_key_migrated then sm_set_next_key_real_bit w else sm_clear_next_key_real_bit w) in
      if is_prev_key_migrated then sm_set_prev_key_real_bit w else sm_clear_prev_key_real_bit w)"

definition move_from_btree_to_shared_region ::
  "helper \<Rightarrow> table_info \<Rightarrow> ('k \<Rightarrow> u64 \<Rightarrow> 'p \<Rightarrow> 'p) \<Rightarrow> 'v alloc \<Rightarrow> bool \<Rightarrow> ('k :: linorder) \<Rightarrow> ('k, 'v) rows \<Rightarrow>
     ('k, 'v, 'p) cxl \<Rightarrow> ((migration_result \<times> u64 option) \<times> ('k, 'v) rows \<times> ('k, 'v, 'p) cxl) res" where
  "move_from_btree_to_shared_region H ti pinit a inc_ref_cnt key rows c =
     (case map_of rows key of
        None \<Rightarrow> dcheck (ndebug H) False (Inr ((FAIL_OOM, None), rows, c))
      | Some r \<Rightarrow>
          if \<not> l_is_migrated r then
            bind_res (move_in_row H ti pinit a
                (key_info_bits (nb_migrated (next_row key rows)) (nb_migrated (prev_row key rows)))
                inc_ref_cnt key r c) (\<lambda>((x, r), c).
              if x = None then Inr ((FAIL_OOM, None), set_row key r rows, c)
              else bind_res (update_neighbours sm_set_next_key_real_bit sm_set_prev_key_real_bit key rows c) (\<lambda>c.
                Inr ((SUCCESS, x), set_row key r rows, c)))
          else
            bind_res (update_neighbours sm_set_next_key_real_bit sm_set_prev_key_real_bit key rows c) (\<lambda>c.
              bind_res (inc_ref_cnt_via_row inc_ref_cnt r c) (\<lambda>(_, c).
                Inr ((FAIL_ALREADY_IN_CXL, None), rows, c))))"

definition move_from_partition_to_shared_region ::
  "helper \<Rightarrow> table_info \<Rightarrow> ('k \<Rightarrow> u64 \<Rightarrow> 'p \<Rightarrow> 'p) \<Rightarrow> 'v alloc \<Rightarrow> bool \<Rightarrow> ('k :: linorder) \<Rightarrow> ('k, 'v) rows \<Rightarrow>
     ('k, 'v, 'p) cxl \<Rightarrow> ((migration_result \<times> u64 option) \<times> ('k, 'v) rows \<times> ('k, 'v, 'p) cxl) res" where
  "move_from_partition_to_shared_region H ti =
     (if enable_phantom_detection H \<and> tableType ti = BTREE
      then move_from_btree_to_shared_region H ti else move_from_hashmap_to_shared_region H ti)"

section \<open>Moving a row out\<close>

text \<open>What is copied back under the latch: the row, the word and the data block.\<close>

definition copy_back ::
  "helper \<Rightarrow> 'v lrow \<Rightarrow> u64 \<Rightarrow> 'v scc_data \<Rightarrow> ('v lrow \<times> u64 \<times> 'v scc_data) res" where
  "copy_back H r w d =
     (let w = fst (prepare_read (manager H) (coordinator_id H) w);
          t = set_read_lock_num (s_tid d) (sm_get_reader_count w);
          t = (if sm_is_write_locked w then set_write_lock_bit t else clear_write_lock_bit t);
          copy = sm_is_data_modified_since_moved_in w \<or> \<not> enable_migration_optimization H in
      dcheck (ndebug H) (read_lock_num t = sm_get_reader_count w)
        (dcheck (ndebug H) (is_write_locked t = sm_is_write_locked w)
          (Inr (r\<lparr>l_is_valid := get_flag valid_flag_index d, l_tid := t, l_data := (if copy then s_data d else l_data r),
              l_is_data_modified_since_moved_out := False, l_migrated_row := None, l_is_migrated := False\<rparr>,
            sm_clear_is_data_modified_since_moved_in w, clear_flag valid_flag_index d))))"

text \<open>The row is given back to the allocator through epoch-based reclamation.\<close>

definition free_cxl_row ::
  "helper \<Rightarrow> table_info \<Rightarrow> u64 \<Rightarrow> u64 \<Rightarrow> ('k, 'v, 'p) cxl \<Rightarrow> ('k, 'v, 'p) cxl res" where
  "free_cxl_row H ti off p c =
     bind_res
       (if \<not> enable_scc H
        then bind_res (free_wrapper H (scc_size ti) DATA_FREE (mem c)) (\<lambda>m.
          Inr (c\<lparr>mem := m, retired := retired c @ [Retired off (scc_size ti) DATA_FREE]\<rparr>))
        else Inr c) (\<lambda>c.
       bind_res (free_wrapper H smeta_size METADATA_FREE (mem c)) (\<lambda>m.
         Inr (c\<lparr>mem := m, retired := retired c @ [Retired p smeta_size METADATA_FREE]\<rparr>)))"

text \<open>\<open>None\<close>: the row is referenced, so it stays.\<close>

definition move_out_row ::
  "helper \<Rightarrow> 'v lrow \<Rightarrow> ('k, 'v, 'p) cxl \<Rightarrow> (('v lrow \<times> u64) option \<times> ('k, 'v, 'p) cxl) res" where
  "move_out_row H r c =
     latched (l_migrated_row r) c (\<lambda>w d.
       if s_ref_cnt d > 0 then Inr (None, w, d)
       else bind_res (copy_back H r w d) (\<lambda>(r', w', d'). Inr (Some (r', sm_get_scc_data w'), w', d')))"

definition move_from_hashmap_to_partition ::
  "helper \<Rightarrow> table_info \<Rightarrow> 'k \<Rightarrow> ('k, 'v) rows \<Rightarrow> ('k, 'v, 'p) cxl \<Rightarrow>
     (bool \<times> ('k, 'v) rows \<times> ('k, 'v, 'p) cxl) res" where
  "move_from_hashmap_to_partition H ti key rows c =
     (case map_of rows key of
        None \<Rightarrow> Inl Bad_pointer
      | Some r \<Rightarrow>
          if l_is_migrated r then
            bind_res (move_out_row H r c) (\<lambda>(x, c).
              case x of
                None \<Rightarrow> Inr (False, rows, c)
              | Some (r', off) \<Rightarrow>
                  bind_res (index_remove (tableType ti) key (l_migrated_row r) (index c)) (\<lambda>(ret, idx).
                    dcheck (ndebug H) ret
                      (bind_res (free_cxl_row H ti off (the (l_migrated_row r)) (c\<lparr>index := idx\<rparr>)) (\<lambda>c.
                        Inr (True, set_row key r' rows, c)))))
          else dcheck (ndebug H) False (Inr (True, rows, c)))"

text \<open>
  The assertion \<open>DCHECK(cur_lmeta->is_valid = true)\<close> is an assignment: a build with assertions marks
  the row valid. The neighbours' bits are cleared before the reference count is looked at.
\<close>

definition move_from_btree_to_partition ::
  "helper \<Rightarrow> table_info \<Rightarrow> ('k :: linorder) \<Rightarrow> ('k, 'v) rows \<Rightarrow> ('k, 'v, 'p) cxl \<Rightarrow>
     (bool \<times> ('k, 'v) rows \<times> ('k, 'v, 'p) cxl) res" where
  "move_from_btree_to_partition H ti key rows c =
     (case map_of rows key of
        None \<Rightarrow> dcheck (ndebug H) False (Inr (False, rows, c))
      | Some r \<Rightarrow>
          bind_res (update_neighbours sm_clear_next_key_real_bit sm_clear_prev_key_real_bit key rows c) (\<lambda>c.
            let r = (if ndebug H then r else r\<lparr>l_is_valid := True\<rparr>) in
            if l_is_migrated r then
              bind_res (move_out_row H r c) (\<lambda>(x, c).
                case x of
                  None \<Rightarrow> Inr (False, set_row key r rows, c)
                | Some (r', off) \<Rightarrow>
                    bind_res (free_cxl_row H ti off (the (l_migrated_row r)) c) (\<lambda>c.
                      bind_res (index_remove (tableType ti) key None (index c)) (\<lambda>(ret, idx).
                        dcheck (ndebug H) ret (Inr (True, set_row key r' rows, c\<lparr>index := idx\<rparr>)))))
            else dcheck (ndebug H) False (Inr (True, set_row key r rows, c))))"

definition move_from_shared_region_to_partition ::
  "helper \<Rightarrow> table_info \<Rightarrow> ('k :: linorder) \<Rightarrow> ('k, 'v) rows \<Rightarrow> ('k, 'v, 'p) cxl \<Rightarrow>
     (bool \<times> ('k, 'v) rows \<times> ('k, 'v, 'p) cxl) res" where
  "move_from_shared_region_to_partition H ti =
     (if enable_phantom_detection H \<and> tableType ti = BTREE
      then move_from_btree_to_partition H ti else move_from_hashmap_to_partition H ti)"

section \<open>Inserting and deleting rows\<close>

text \<open>
  A new row is a placeholder that becomes valid at commit. With \<open>require_lock_next_key\<close> the insert
  needs the write lock of the next row, which it returns; the B-tree aborts when there is none.
\<close>

definition insert_and_update_next_key_info ::
  "helper \<Rightarrow> ('k :: linorder) \<Rightarrow> 'v \<Rightarrow> bool \<Rightarrow> ('k, 'v) rows \<Rightarrow> ('k, 'v, 'p) cxl \<Rightarrow>
     ((bool \<times> 'k option) \<times> ('k, 'v) rows \<times> ('k, 'v, 'p) cxl) res" where
  "insert_and_update_next_key_info H key value require_lock_next_key rows c =
     (if map_of rows key \<noteq> None then Inr ((False, None), rows, c)
      else case next_row key rows of
        None \<Rightarrow> Inl Check_failed
      | Some (next_key, next) \<Rightarrow>
          if require_lock_next_key then
            bind_res (write_lock H next c) (\<lambda>(((_, lock_success), next), c).
              let rows' = set_row next_key next rows in
              if lock_success then
                bind_res (update_neighbours sm_clear_next_key_real_bit sm_clear_prev_key_real_bit key rows' c) (\<lambda>c.
                  Inr ((True, Some next_key), insert_row key (metadata_local_init False value) rows', c))
              else Inr ((False, None), rows', c))
          else
            bind_res (update_neighbours sm_clear_next_key_real_bit sm_clear_prev_key_real_bit key rows c) (\<lambda>c.
              Inr ((True, None), insert_row key (metadata_local_init False value) rows, c)))"

text \<open>
  The result is the policy metadata of the block of a migrated row, which the policy stops
  tracking. A row another host deletes has been marked invalid before.
\<close>

definition delete_and_update_next_key_info ::
  "helper \<Rightarrow> table_info \<Rightarrow> ('k :: linorder) \<Rightarrow> bool \<Rightarrow> ('k, 'v) rows \<Rightarrow> ('k, 'v, 'p) cxl \<Rightarrow>
     (u64 option \<times> ('k, 'v) rows \<times> ('k, 'v, 'p) cxl) res" where
  "delete_and_update_next_key_info H ti key is_local_delete rows c =
     (case map_of rows key of
        None \<Rightarrow> Inl Check_failed
      | Some r \<Rightarrow>
          bind_res (update_neighbours sm_clear_next_key_real_bit sm_clear_prev_key_real_bit key rows c) (\<lambda>c.
            if l_is_migrated r then
              bind_res (latched (l_migrated_row r) c (\<lambda>w d.
                if is_local_delete
                then dcheck (ndebug H) (get_flag valid_flag_index d)
                  (Inr (sm_get_scc_data w, w, clear_flag valid_flag_index d))
                else dcheck (ndebug H) (\<not> get_flag valid_flag_index d) (Inr (sm_get_scc_data w, w, d)))) (\<lambda>(off, c).
              bind_res (free_cxl_row H ti off (the (l_migrated_row r)) c) (\<lambda>c.
              bind_res (index_remove (tableType ti) key None (index c)) (\<lambda>(ret, idx).
                dcheck (ndebug H) ret (Inr (Some off, remove_row key rows, c\<lparr>index := idx\<rparr>)))))
            else Inr (None, remove_row key rows, c)))"

section \<open>The new atomic word\<close>

lemma sm_view_init: "h < 16 \<Longrightarrow> k < 47 \<or> k = 63 \<Longrightarrow> bit (init_scc_metadata m h w) k = bit w k"
  by (cases m) (auto simp: manager_defs fields bit_upd_fld dest: bit_imp_le_length)

lemma finish_write_low:
  "h < 16 \<Longrightarrow> finish_write m h w = Inr (w', b) \<Longrightarrow> k < 47 \<or> k = 63 \<Longrightarrow> bit w' k = bit w k"
  by (cases m) (auto simp: manager_defs fields bit_upd_fld Let_def res_iffs dest: bit_imp_le_length)

lemma prepare_read_low: "h < 16 \<Longrightarrow> k < 47 \<or> k = 63 \<Longrightarrow> bit (fst (prepare_read m h w)) k = bit w k"
  by (cases m) (auto simp: manager_defs fields bit_upd_fld Let_def dest: bit_imp_le_length)

lemma finish_write_after_init:
  assumes "h < 16" "\<And>k. 47 \<le> k \<Longrightarrow> k < 63 \<Longrightarrow> bit w k = bit (init_scc_metadata m h v) k"
  shows "\<exists>w' b. finish_write m h w = Inr (w', b)"
proof -
  have "m = TwoPLPashaSCCWriteThrough \<Longrightarrow> bit w (h + 47)"
    using assms by (simp add: manager_defs fields bit_upd_fld)
  then show ?thesis
    by (cases m) (auto simp: manager_defs fields Let_def)
qed

lemma small_offset_bits: "unat (off :: u64) < 2 ^ 37 \<Longrightarrow> 37 \<le> k \<Longrightarrow> \<not> bit off k"
  using small_and_mask [of off 37] by (metis bit_and_iff bit_mask_iff not_le)

lemma key_info_bits_fields:
  "key_info_bits n p w = upd_fld 38 1 (of_bool p) (upd_fld 39 1 (of_bool n) w)"
  by (simp add: key_info_bits_def fields)

lemma bit_key_info_bits:
  "bit (key_info_bits n p w) k \<longleftrightarrow> (if k = 39 then n else if k = 38 then p else bit w k)"
  by (auto simp: key_info_bits_fields bit_upd_fld dest: bit_imp_le_length)

lemma new_smeta_ok:
  assumes h: "coordinator_id H < 16" and off: "unat off < 2 ^ 37"
  shows "\<exists>w. new_smeta H (key_info_bits n p) off tid = Inr w \<and>
    sm_view w = (tid_readers tid, is_write_locked tid, False, off) \<and> \<not> bit w 63 \<and>
    bit w 39 = n \<and> bit w 38 = p"
proof -
  let ?i = "init_scc_metadata (manager H) (coordinator_id H) (sm_new off)"
  let ?r = "upd_fld 42 5 (read_lock_num tid) (upd_fld 63 1 1 ?i)"
  let ?w = "upd_fld 41 1 (of_bool (is_write_locked tid)) ?r"
  let ?k = "key_info_bits n p (upd_fld 40 1 0 ?w)"
  have i: "bit ?i k = bit off k" if "k < 47 \<or> k = 63" for k
    using sm_view_init [OF h that] by (simp add: sm_new_def)
  have lock: "sm_lock ?i = Some (upd_fld 63 1 1 ?i)"
    using i [of 63] small_offset_bits [OF off, of 63] by (simp add: fields)
  have rd: "sm_set_reader_count (read_lock_num tid) v = upd_fld 42 5 (read_lock_num tid) v" for v
    using unat_fld_less [of 58 5 tid] by (simp add: fields)
  have wr: "(if is_write_locked tid then sm_set_write_locked v else sm_clear_write_locked v) =
      upd_fld 41 1 (of_bool (is_write_locked tid)) v" for v
    by (simp add: sm_writes)
  have "\<exists>w b. finish_write (manager H) (coordinator_id H) ?k = Inr (w, b)"
    using h by (intro finish_write_after_init [where v = "sm_new off"])
      (auto simp: bit_key_info_bits bit_upd_fld)
  then obtain w b where w: "finish_write (manager H) (coordinator_id H) ?k = Inr (w, b)" by blast
  have low: "bit w k = bit ?k k" if "k < 47" for k
    using finish_write_low [OF h w] that by simp
  have rc: "read_lock_num tid = sm_get_reader_count ?w" "is_write_locked tid = sm_is_write_locked ?w"
    by (simp_all add: field_calculus) (intro bit_word_eqI, auto simp: bit_fld bit_simps)
  have "new_smeta H (key_info_bits n p) off tid = Inr (sm_unlock w)"
    unfolding new_smeta_def lock option.case Let_def rd wr sm_writes(6)
    by (simp only: rc [symmetric] w simp_thms dcheck_True bind_res_Inr prod.case)
  moreover have "sm_view (sm_unlock w) = (tid_readers tid, is_write_locked tid, False, off)"
  proof -
    have eq: "sm_view (sm_unlock w) = sm_view ?k"
      unfolding sm_view_latch(1) using low by (rule sm_view_cong)
    have "sm_is_write_locked ?k = is_write_locked tid" "\<not> sm_is_data_modified_since_moved_in ?k"
      by (simp_all add: fields bit_key_info_bits bit_upd_fld)
    moreover have "sm_get_reader_count ?k = read_lock_num tid"
      by (intro bit_word_eqI) (auto simp: fields bit_fld bit_key_info_bits bit_upd_fld)
    moreover have "sm_get_scc_data ?k = off"
      using i small_offset_bits [OF off]
      by (intro bit_word_eqI) (auto simp: fields bit_fld bit_key_info_bits bit_upd_fld not_less leI intro: ccontr)
    ultimately show ?thesis
      unfolding eq by (simp add: sm_view_def sm_readers_def tid_readers_def)
  qed
  moreover have "bit (sm_unlock w) 39 = n" "bit (sm_unlock w) 38 = p"
    using low [of 39] low [of 38] by (simp_all add: fields bit_key_info_bits bit_upd_fld)
  ultimately show ?thesis
    using sm_unlock_free by blast
qed

lemma new_smeta_plain:
  assumes "coordinator_id H < 16" "unat off < 2 ^ 37"
  shows "new_smeta H (\<lambda>w. w) off tid = new_smeta H (key_info_bits False False) off tid"
proof -
  let ?i = "init_scc_metadata (manager H) (coordinator_id H) (sm_new off)"
  have i: "bit ?i k = bit off k" if "k < 47 \<or> k = 63" for k
    using sm_view_init [OF assms(1) that] by (simp add: sm_new_def)
  have rd: "sm_set_reader_count (fld 58 5 tid) v = upd_fld 42 5 (fld 58 5 tid) v" for v
    using unat_fld_less [of 58 5 tid] by (simp add: fields)
  have "key_info_bits False False w = w" if "\<not> bit w 38" "\<not> bit w 39" for w
    using that by (intro bit_word_eqI) (auto simp: bit_key_info_bits)
  then show ?thesis
    using i [of 38] i [of 39] small_offset_bits [OF assms(2), of 38] small_offset_bits [OF assms(2), of 39]
    by (simp add: new_smeta_def rd fields Let_def bit_upd_fld split: option.split)
qed

section \<open>One row\<close>

text \<open>
  \<open>row_ok\<close>: the invariant of a row, and its data block is there at an offset the word can hold.
  \<open>frame\<close>: a step on another row leaves what this row is made of.
\<close>

definition row_ok :: "'v lrow \<Rightarrow> ('k, 'v, 'p) cxl \<Rightarrow> bool" where
  "row_ok r c \<longleftrightarrow> row_inv r c \<and> (\<forall>off. l_scc_data r = Some off \<longrightarrow> sccs c off \<noteq> None \<and> unat off < 2 ^ 37)"

definition same_word :: "u64 option \<Rightarrow> u64 option \<Rightarrow> bool" where
  "same_word = rel_option (\<lambda>w w'. sm_view w' = sm_view w \<and> bit w' 63 = bit w 63)"

definition frame :: "'v lrow \<Rightarrow> ('k, 'v, 'p) cxl \<Rightarrow> ('k, 'v, 'p) cxl \<Rightarrow> bool" where
  "frame r c c' \<longleftrightarrow> (l_is_migrated r \<longrightarrow> (\<forall>p. l_migrated_row r = Some p \<longrightarrow> same_word (smetas c p) (smetas c' p))) \<and>
     (\<forall>off. l_scc_data r = Some off \<longrightarrow> sccs c' off = sccs c off)"

lemma same_word_refl [simp]: "same_word w w"
  by (simp add: same_word_def option.rel_refl)

lemma same_word_Some: "same_word (Some w) w' \<Longrightarrow> \<exists>v. w' = Some v \<and> sm_view v = sm_view w \<and> bit v 63 = bit w 63"
  by (cases w') (auto simp: same_word_def)

lemma frame_row:
  assumes "row_ok r c" "frame r c c'"
  shows "row_ok r c' \<and> row_abs r c' = row_abs r c"
proof (cases "l_is_migrated r")
  case True
  from assms(1) have inv: "row_inv r c" by (simp add: row_ok_def)
  from row_inv_migratedE [OF inv True] obtain p w d where r: "l_migrated_row r = Some p" "shared_at c p w d"
    "l_scc_data r = Some (sm_get_scc_data w)" "\<not> sm_is_data_modified_since_moved_in w \<Longrightarrow> l_data r = s_data d"
    "row_abs r c = abs_shared w d" "sm_is_write_locked w \<Longrightarrow> sm_readers w = 0" by metis
  then obtain v where v: "smetas c' p = Some v" "sm_view v = sm_view w" "bit v 63 = bit w 63"
    using assms(2) True same_word_Some [of w "smetas c' p"] by (auto simp: frame_def shared_at_def)
  note vw = sm_viewD [OF v(2)]
  have at: "shared_at c' p v d"
    using assms(2) r v vw by (auto simp: shared_at_def frame_def)
  have abs: "row_abs r c' = abs_shared w d"
    using at True r(1) vw by (simp add: row_abs_def shared_at_def abs_shared_def)
  have "row_inv r c'"
    using r abs vw by (intro row_inv_migratedI [OF True r(1) at]) (simp_all add: abs_shared_def)
  then show ?thesis
    using assms r(5) abs by (auto simp: row_ok_def frame_def)
next
  case False
  then show ?thesis
    using assms by (auto simp: row_ok_def row_inv_def frame_def row_abs_def)
qed

text \<open>Moving a row in keeps its lock, version, validity and value.\<close>

lemma fill_scc_data [simp]:
  "s_tid (fill_scc_data H inc r d) = l_tid r" "get_flag 0 (fill_scc_data H inc r d) = l_is_valid r"
  "s_data (fill_scc_data H inc r d) =
     (if l_is_data_modified_since_moved_out r \<or> \<not> enable_migration_optimization H then l_data r else s_data d)"
  by (simp_all add: fill_scc_data_def put_valid_def Let_def)

lemma alloc_scc_data_ok:
  assumes "row_ok r c" "\<not> l_is_migrated r" "enable_scc H \<or> \<not> enable_migration_optimization H"
    "a_scc a = Some (o0, d0)" "unat o0 < 2 ^ 37"
  shows "\<exists>off d m. alloc_scc_data H ti a r c = Inr (Some (off, d), c\<lparr>mem := m\<rparr>) \<and> unat off < 2 ^ 37 \<and>
    (l_scc_data r = Some off \<or> off = o0) \<and> s_data (fill_scc_data H inc r d) = l_data r"
proof (cases "l_scc_data r = None \<or> \<not> enable_scc H")
  case True
  have "enable_migration_optimization H \<Longrightarrow> l_is_data_modified_since_moved_out r"
    using True assms(1-3) by (auto simp: row_ok_def row_inv_def)
  then show ?thesis
    using True assms(4,5) by (auto simp: alloc_scc_data_def malloc_wrapper_def)
next
  case False
  then obtain off d where "l_scc_data r = Some off" "sccs c off = Some d" "unat off < 2 ^ 37"
    using assms(1) by (auto simp: row_ok_def)
  moreover from this have "l_is_data_modified_since_moved_out r \<or> s_data d = l_data r"
    using assms(1,2) by (auto simp: row_ok_def row_inv_def)
  moreover have "c = c\<lparr>mem := mem c\<rparr>" by simp
  ultimately show ?thesis
    using False by (auto simp: alloc_scc_data_def intro!: exI [of _ off] exI [of _ d] exI [of _ "mem c"])
qed

definition key_info :: "('k, 'v, 'p) cxl \<Rightarrow> 'v lrow \<Rightarrow> bool \<times> bool \<times> bool" where
  "key_info c r =
     (let w = the (smetas c (the (l_migrated_row r))) in
      (l_is_migrated r, l_is_migrated r \<and> sm_get_next_key_real_bit w, l_is_migrated r \<and> sm_get_prev_key_real_bit w))"

lemma move_in_row_ok:
  assumes r: "row_ok r c" "\<not> l_is_migrated r" and H: "coordinator_id H < 16"
    and opt: "enable_scc H \<or> \<not> enable_migration_optimization H"
    and a: "a_smeta a = Some p" "a_scc a = Some (o0, d0)" "unat o0 < 2 ^ 37" and idx: "index c key = None"
  shows "\<exists>off r' c'. move_in_row H ti pinit a (key_info_bits n q) inc key r c = Inr ((Some off, r'), c') \<and>
    row_ok r' c' \<and> row_abs r' c' = row_abs r c \<and> l_is_migrated r' \<and> l_migrated_row r' = Some p \<and>
    l_scc_data r' = Some off \<and> (l_scc_data r = Some off \<or> off = o0) \<and> key_info c' r' = (True, n, q) \<and>
    (\<forall>k. k \<noteq> p \<longrightarrow> smetas c' k = smetas c k) \<and> (\<forall>k. k \<noteq> off \<longrightarrow> sccs c' k = sccs c k) \<and>
    index c' = (index c)(key \<mapsto> p)"
proof -
  obtain m where m: "malloc_wrapper H smeta_size METADATA_ALLOCATION (mem c) = Inr m"
    by (simp add: malloc_wrapper_def)
  have "row_ok r (c\<lparr>mem := m\<rparr>)"
    using frame_row [OF r(1)] by (simp add: frame_def)
  from alloc_scc_data_ok [OF this r(2) opt a(2,3), of ti inc] obtain off d m'
    where al: "alloc_scc_data H ti a r (c\<lparr>mem := m\<rparr>) = Inr (Some (off, d), c\<lparr>mem := m'\<rparr>)"
      and off: "unat off < 2 ^ 37" "l_scc_data r = Some off \<or> off = o0"
      and d: "s_data (fill_scc_data H inc r d) = l_data r" by auto
  from new_smeta_ok [OF H off(1), of n q "l_tid r"] obtain w
    where w: "new_smeta H (key_info_bits n q) off (l_tid r) = Inr w"
      "sm_view w = (tid_readers (l_tid r), is_write_locked (l_tid r), False, off)" "\<not> bit w 63"
      "bit w 39 = n" "bit w 38 = q" by blast
  define r' where "r' = r\<lparr>l_scc_data := Some off, l_is_data_modified_since_moved_out := False,
    l_migrated_row := Some p, l_is_migrated := True\<rparr>"
  define c' where "c' = c\<lparr>mem := m', smetas := (smetas c)(p \<mapsto> w),
    sccs := (sccs c)(off \<mapsto> fill_scc_data H inc r d), index := (index c)(key \<mapsto> p), policy := pinit key off (policy c)\<rparr>"
  have run: "move_in_row H ti pinit a (key_info_bits n q) inc key r c = Inr ((Some off, r'), c')"
    using m a(1) al w(1) idx by (simp add: move_in_row_def index_insert_def r'_def c'_def Let_def)
  have wv: "sm_readers w = tid_readers (l_tid r)" "sm_is_write_locked w = is_write_locked (l_tid r)"
    "\<not> sm_is_data_modified_since_moved_in w" "sm_get_scc_data w = off"
    using w(2) by (simp_all add: sm_view_def)
  have at: "shared_at c' p w (fill_scc_data H inc r d)"
    using w(3) wv(4) by (simp add: shared_at_def c'_def)
  have abs: "row_abs r' c' = row_abs r c"
    using r(2) wv d by (simp add: row_abs_def r'_def c'_def abs_shared_def abs_local_def)
  have "row_inv r' c'"
    using r abs wv d by (intro row_inv_migratedI [OF _ _ at]) (simp_all add: r'_def row_ok_def row_inv_def)
  then have "row_ok r' c'"
    using off(1) by (simp add: row_ok_def r'_def c'_def)
  then show ?thesis
    using run abs off(2) w(4,5) by (auto simp: r'_def c'_def key_info_def fields)
qed

text \<open>Moving a row out keeps them too; a referenced row stays.\<close>

lemma copy_back_ok:
  assumes H: "coordinator_id H < 16" and inv: "\<not> sm_is_data_modified_since_moved_in w \<Longrightarrow> l_data r = s_data d"
    and v: "sm_view w' = sm_view w"
  shows "\<exists>r' w2. copy_back H r w' d = Inr (r', w2, clear_flag valid_flag_index d) \<and> abs_local r' = abs_shared w d \<and>
    \<not> l_is_migrated r' \<and> l_migrated_row r' = None \<and> l_scc_data r' = l_scc_data r \<and> l_data r' = s_data d \<and>
    sm_get_scc_data w2 = sm_get_scc_data w \<and> (\<forall>k. k \<noteq> 40 \<longrightarrow> k < 47 \<longrightarrow> bit w2 k = bit w' k)"
proof -
  let ?w = "fst (prepare_read (manager H) (coordinator_id H) w')"
  let ?t = "upd_fld 63 1 (of_bool (sm_is_write_locked ?w)) (upd_fld 58 5 (sm_get_reader_count ?w) (s_tid d))"
  have vw: "sm_view ?w = sm_view w"
    using H v by (simp add: sm_view_prepare_read)
  have rd: "set_read_lock_num (s_tid d) (sm_get_reader_count ?w) = upd_fld 58 5 (sm_get_reader_count ?w) (s_tid d)"
    using unat_fld_less [of 42 5 ?w] by (simp add: fields)
  have wr: "(if sm_is_write_locked ?w then set_write_lock_bit v else clear_write_lock_bit v) =
      upd_fld 63 1 (of_bool (sm_is_write_locked ?w)) v" for v
    by (simp add: tid_writes)
  have t: "read_lock_num ?t = sm_get_reader_count ?w" "is_write_locked ?t = sm_is_write_locked ?w"
    "remove_lock_bit ?t = remove_lock_bit (s_tid d)"
  proof -
    show "read_lock_num ?t = sm_get_reader_count ?w"
      by (intro bit_word_eqI) (auto simp: fields bit_fld bit_upd_fld)
    show "is_write_locked ?t = sm_is_write_locked ?w" by (simp add: fields bit_upd_fld)
    show "remove_lock_bit ?t = remove_lock_bit (s_tid d)"
      by (intro bit_word_eqI) (auto simp: fields bit_upd_fld)
  qed
  define r' where "r' = r\<lparr>l_is_valid := get_flag valid_flag_index d, l_tid := ?t,
    l_data := (if sm_is_data_modified_since_moved_in ?w \<or> \<not> enable_migration_optimization H then s_data d else l_data r),
    l_is_data_modified_since_moved_out := False, l_migrated_row := None, l_is_migrated := False\<rparr>"
  have "copy_back H r w' d = Inr (r', sm_clear_is_data_modified_since_moved_in ?w, clear_flag valid_flag_index d)"
    unfolding copy_back_def Let_def rd wr t dcheck_def r'_def by simp
  moreover have "l_data r' = s_data d"
    using inv sm_viewD [OF vw] by (simp add: r'_def)
  moreover from this have "abs_local r' = abs_shared w d"
    using t sm_viewD [OF vw]
    by (simp add: abs_local_def abs_shared_def r'_def tid_readers_def) (simp add: sm_readers_def)
  moreover have "sm_get_scc_data (sm_clear_is_data_modified_since_moved_in ?w) = sm_get_scc_data w"
    using sm_viewD(4) [OF vw] by (simp add: field_calculus)
  moreover have "\<forall>k. k \<noteq> 40 \<longrightarrow> k < 47 \<longrightarrow> bit (sm_clear_is_data_modified_since_moved_in ?w) k = bit w' k"
    using H by (auto simp: sm_writes bit_upd_fld prepare_read_low)
  ultimately show ?thesis
    by (auto simp: r'_def)
qed

definition row_refs :: "'v lrow \<Rightarrow> ('k, 'v, 'p) cxl \<Rightarrow> u8" where
  "row_refs r c = s_ref_cnt (the (sccs c (the (l_scc_data r))))"

lemma sm_unlock_lock: "\<not> bit w 63 \<Longrightarrow> sm_unlock (upd_fld 63 1 1 w) = w"
  by (intro bit_word_eqI) (auto simp: fields bit_upd_fld dest!: le_imp_less_or_eq)

lemma latched_id:
  assumes "shared_at c p w d"
  shows "c\<lparr>smetas := (smetas c)(p \<mapsto> sm_unlock (upd_fld 63 1 1 w)), sccs := (sccs c)(sm_get_scc_data w \<mapsto> d)\<rparr> = c"
proof -
  have "sm_unlock (upd_fld 63 1 1 w) = w" "smetas c p = Some w" "sccs c (sm_get_scc_data w) = Some d"
    using assms sm_unlock_lock by (auto simp: shared_at_def)
  then show ?thesis by (simp add: map_upd_triv)
qed

lemma move_out_row_ok:
  assumes r: "row_ok r c" "l_is_migrated r" and H: "coordinator_id H < 16"
  shows "\<exists>x c'. move_out_row H r c = Inr (x, c') \<and> index c' = index c \<and>
    (if 0 < row_refs r c then x = None \<and> c' = c
     else \<exists>r' off. x = Some (r', off) \<and> l_scc_data r = Some off \<and> row_ok r' c' \<and> row_abs r' c' = row_abs r c \<and>
       \<not> l_is_migrated r' \<and> l_scc_data r' = Some off \<and> l_migrated_row r' = None \<and>
       (\<forall>k. l_migrated_row r \<noteq> Some k \<longrightarrow> smetas c' k = smetas c k) \<and> (\<forall>k. k \<noteq> off \<longrightarrow> sccs c' k = sccs c k))"
proof -
  have inv: "row_inv r c" using r(1) by (simp add: row_ok_def)
  from row_inv_migratedE [OF inv r(2)] obtain p w d where p: "l_migrated_row r = Some p" and at: "shared_at c p w d"
    and s: "l_scc_data r = Some (sm_get_scc_data w)"
    and copy: "\<not> sm_is_data_modified_since_moved_in w \<Longrightarrow> l_data r = s_data d"
    and abs: "row_abs r c = abs_shared w d" and excl: "sm_is_write_locked w \<Longrightarrow> sm_readers w = 0" by metis
  have refs: "row_refs r c = s_ref_cnt d"
    using at s by (simp add: row_refs_def shared_at_def)
  let ?w = "upd_fld 63 (Suc 0) 1 w"
  show ?thesis
  proof (cases "0 < s_ref_cnt d")
    case True
    then have "move_out_row H r c = Inr (None, c)"
      using latched_id [OF at] by (simp add: move_out_row_def p latched_at [OF at])
    then show ?thesis using True refs by auto
  next
    case False
    have "sm_view ?w = sm_view w" by simp
    from copy_back_ok [OF H copy this] obtain r' w2 where cb: "copy_back H r ?w d = Inr (r', w2, clear_flag 0 d)"
      and r': "abs_local r' = abs_shared w d" "\<not> l_is_migrated r'" "l_migrated_row r' = None"
        "l_scc_data r' = l_scc_data r" "l_data r' = s_data d" "sm_get_scc_data w2 = sm_get_scc_data w" by metis
    define c' where "c' = c\<lparr>smetas := (smetas c)(p \<mapsto> sm_unlock w2), sccs := (sccs c)(sm_get_scc_data w \<mapsto> clear_flag 0 d)\<rparr>"
    have run: "move_out_row H r c = Inr (Some (r', sm_get_scc_data w), c')"
      using False cb r'(6) by (simp add: move_out_row_def p latched_at [OF at] c'_def)
    have a: "row_abs r' c' = row_abs r c"
      using r'(1,2) abs by (simp add: row_abs_def)
    have "row_inv r' c'"
      using r' s a abs excl by (auto simp: row_inv_def c'_def abs_shared_def)
    then have "row_ok r' c'"
      using r(1) r'(4) s by (auto simp: row_ok_def c'_def)
    then show ?thesis
      using run a r' s p False refs by (auto simp: c'_def)
  qed
qed

section \<open>The rows of a partition\<close>

text \<open>
  Rows in key order that share no memory, each of them in order, and the CXL index lists exactly
  the migrated ones.
\<close>

definition apart :: "'v lrow \<Rightarrow> 'v lrow \<Rightarrow> bool" where
  "apart r1 r2 \<longleftrightarrow>
     (l_is_migrated r1 \<and> l_is_migrated r2 \<longrightarrow> l_migrated_row r1 \<noteq> l_migrated_row r2) \<and>
     (l_scc_data r1 \<noteq> None \<longrightarrow> l_scc_data r1 \<noteq> l_scc_data r2)"

definition index_of :: "('k, 'v) rows \<Rightarrow> 'k \<rightharpoonup> u64" where
  "index_of rows key = Option.bind (map_of rows key) (\<lambda>r. if l_is_migrated r then l_migrated_row r else None)"

definition part_inv :: "('k :: linorder, 'v) rows \<Rightarrow> ('k, 'v, 'p) cxl \<Rightarrow> bool" where
  "part_inv rows c \<longleftrightarrow>
     sorted_wrt (\<lambda>x y. fst x < fst y \<and> apart (snd x) (snd y)) rows \<and>
     (\<forall>x\<in>set rows. row_ok (snd x) c) \<and> index c = index_of rows"

definition table_abs :: "('k, 'v) rows \<Rightarrow> ('k, 'v, 'p) cxl \<Rightarrow> ('k \<times> 'v arow) list" where
  "table_abs rows c = map (\<lambda>(k, r). (k, row_abs r c)) rows"

lemma apart_sym: "apart r1 r2 \<longleftrightarrow> apart r2 r1"
  by (auto simp: apart_def)

text \<open>The list around a key.\<close>

lemma sorted_split:
  assumes "sorted_wrt (\<lambda>x y. fst x < fst y \<and> P x y) rows" "map_of rows (key :: 'k :: linorder) = Some r"
  obtains xs ys where "rows = xs @ (key, r) # ys" "\<forall>x\<in>set xs. fst x < key" "\<forall>y\<in>set ys. key < fst y"
proof -
  from map_of_SomeD [OF assms(2)] obtain xs ys where rows: "rows = xs @ (key, r) # ys"
    by (auto simp: in_set_conv_decomp)
  from assms(1) have "\<forall>x\<in>set xs. fst x < key" "\<forall>y\<in>set ys. key < fst y"
    by (auto simp: rows sorted_wrt_append)
  with rows show thesis by (rule that)
qed

lemma takeWhile_less:
  assumes "\<forall>x\<in>set xs. fst x < (key :: 'k :: linorder)" "\<forall>y\<in>set ys. key \<le> fst y"
  shows "takeWhile (\<lambda>(k, _). k < key) (xs @ ys) = xs" "dropWhile (\<lambda>(k, _). k < key) (xs @ ys) = ys"
proof -
  have "takeWhile (\<lambda>(k, _). k < key) ys = []" "dropWhile (\<lambda>(k, _). k < key) ys = ys"
    using assms(2) by (cases ys; force)+
  then show "takeWhile (\<lambda>(k, _). k < key) (xs @ ys) = xs" "dropWhile (\<lambda>(k, _). k < key) (xs @ ys) = ys"
    using assms(1) by (auto simp: takeWhile_append dropWhile_append)
qed

lemma dropWhile_le:
  assumes "\<forall>x\<in>set xs. fst x \<le> (key :: 'k :: linorder)" "\<forall>y\<in>set ys. key < fst y"
  shows "dropWhile (\<lambda>(k, _). k \<le> key) (xs @ ys) = ys"
proof -
  have "dropWhile (\<lambda>(k, _). k \<le> key) ys = ys"
    using assms(2) by (cases ys; force)
  then show ?thesis
    using assms(1) by (auto simp: dropWhile_append)
qed

lemma around_key:
  assumes "\<forall>x\<in>set xs. fst x < (key :: 'k :: linorder)" "\<forall>y\<in>set ys. key < fst y"
  shows "prev_row key (xs @ (key, r) # ys) = last_opt xs" "next_row key (xs @ (key, r) # ys) = hd_opt ys"
    "set_row key r' (xs @ (key, r) # ys) = xs @ (key, r') # ys" "remove_row key (xs @ (key, r) # ys) = xs @ ys"
proof -
  have le: "\<forall>y\<in>set ((key, r) # ys). key \<le> fst y" "\<forall>x\<in>set (xs @ [(key, r)]). fst x \<le> key"
    using assms by (auto intro: less_imp_le)
  show "prev_row key (xs @ (key, r) # ys) = last_opt xs"
    unfolding prev_row_def takeWhile_less(1) [OF assms(1) le(1)]
    by (auto simp: last_opt_def split: list.split)
  show "next_row key (xs @ (key, r) # ys) = hd_opt ys"
    using dropWhile_le [OF le(2) assms(2)]
    by (auto simp: next_row_def hd_opt_def split: list.split)
  have ne: "\<forall>x\<in>set xs. fst x \<noteq> key" "\<forall>y\<in>set ys. fst y \<noteq> key"
    using assms by auto
  have "map (\<lambda>(k, x). if k = key then (k, r') else (k, x)) zs = zs" "filter (\<lambda>(k, _). k \<noteq> key) zs = zs"
    if "\<forall>z\<in>set zs. fst z \<noteq> key" for zs
    using that by (force intro!: map_idI filter_True)+
  then show "set_row key r' (xs @ (key, r) # ys) = xs @ (key, r') # ys"
    "remove_row key (xs @ (key, r) # ys) = xs @ ys"
    using ne by (simp_all add: set_row_def remove_row_def)
qed

lemma around_gap:
  assumes "\<forall>x\<in>set xs. fst x < (key :: 'k :: linorder)" "\<forall>y\<in>set ys. key < fst y"
  shows "prev_row key (xs @ ys) = last_opt xs" "next_row key (xs @ ys) = hd_opt ys"
    "insert_row key r (xs @ ys) = xs @ (key, r) # ys"
proof -
  have le: "\<forall>y\<in>set ys. key \<le> fst y" "\<forall>x\<in>set xs. fst x \<le> key"
    using assms by (auto intro: less_imp_le)
  show "prev_row key (xs @ ys) = last_opt xs" "insert_row key r (xs @ ys) = xs @ (key, r) # ys"
    using takeWhile_less [OF assms(1) le(1)]
    by (auto simp: prev_row_def insert_row_def last_opt_def split: list.split)
  show "next_row key (xs @ ys) = hd_opt ys"
    using dropWhile_le [OF le(2) assms(2)] by (auto simp: next_row_def hd_opt_def split: list.split)
qed

lemma sorted_gap:
  assumes "sorted_wrt (\<lambda>x y. fst x < fst y \<and> P x y) rows" "map_of rows (key :: 'k :: linorder) = None"
  obtains xs ys where "rows = xs @ ys" "\<forall>x\<in>set xs. fst x < key" "\<forall>y\<in>set ys. key < fst y"
proof -
  let ?xs = "takeWhile (\<lambda>(k, _). k < key) rows" and ?ys = "dropWhile (\<lambda>(k, _). k < key) rows"
  have rows: "rows = ?xs @ ?ys" by simp
  have xs: "\<forall>x\<in>set ?xs. fst x < key" by (auto dest: set_takeWhileD)
  have ne: "fst y \<noteq> key" if "y \<in> set rows" for y
    using assms(2) that by (auto simp: map_of_eq_None_iff)
  have "\<forall>y\<in>set ?ys. key < fst y"
  proof (cases ?ys)
    case Nil
    then show ?thesis unfolding Nil by simp
  next
    case (Cons y zs)
    have "key \<le> fst y"
      using hd_dropWhile [of "\<lambda>(k, _). k < key" rows] Cons by (auto simp: case_prod_beta not_less)
    moreover have "y \<in> set rows"
      using Cons set_dropWhileD [of y "\<lambda>(k, _). k < key" rows] by simp
    ultimately have "key < fst y" using ne [of y] by (simp add: less_le)
    moreover have "sorted_wrt (\<lambda>x y. fst x < fst y \<and> P x y) (?xs @ y # zs)"
      using assms(1) rows Cons by simp
    then have "\<forall>z\<in>set zs. fst y < fst z"
      by (simp add: sorted_wrt_append)
    ultimately show ?thesis unfolding Cons by auto
  qed
  with rows xs show thesis by (rule that)
qed

section \<open>Next-key and previous-key bits\<close>

text \<open>
  A set next-key bit of a migrated row says that the row with the next key is migrated, a set
  previous-key bit that the row before is.
\<close>

definition link :: "bool \<times> bool \<times> bool \<Rightarrow> bool \<times> bool \<times> bool \<Rightarrow> bool" where
  "link a b \<longleftrightarrow> (fst (snd a) \<longrightarrow> fst b) \<and> (snd (snd b) \<longrightarrow> fst a)"

definition no_row :: "bool \<times> bool \<times> bool" where "no_row = (False, False, False)"

fun path :: "bool \<times> bool \<times> bool \<Rightarrow> (bool \<times> bool \<times> bool) list \<Rightarrow> bool \<times> bool \<times> bool \<Rightarrow> bool" where
  "path a [] b = link a b"
| "path a (x # xs) b \<longleftrightarrow> link a x \<and> path x xs b"

definition links :: "(bool \<times> bool \<times> bool) list \<Rightarrow> bool" where
  "links xs = path no_row xs no_row"

definition key_info_ok :: "('k, 'v) rows \<Rightarrow> ('k, 'v, 'p) cxl \<Rightarrow> bool" where
  "key_info_ok rows c = links (map (\<lambda>x. key_info c (snd x)) rows)"

definition set_nb :: "bool \<Rightarrow> bool \<times> bool \<times> bool \<Rightarrow> bool \<times> bool \<times> bool" where
  "set_nb v a = (fst a, fst a \<and> v, snd (snd a))"

definition set_pb :: "bool \<Rightarrow> bool \<times> bool \<times> bool \<Rightarrow> bool \<times> bool \<times> bool" where
  "set_pb v a = (fst a, fst (snd a), fst a \<and> v)"

definition upd_last :: "('a \<Rightarrow> 'a) \<Rightarrow> 'a list \<Rightarrow> 'a list" where
  "upd_last f xs = (if xs = [] then [] else butlast xs @ [f (last xs)])"

definition upd_hd :: "('a \<Rightarrow> 'a) \<Rightarrow> 'a list \<Rightarrow> 'a list" where
  "upd_hd f xs = (case xs of [] \<Rightarrow> [] | x # xs \<Rightarrow> f x # xs)"

lemma path_append [simp]: "path a (xs @ y # ys) b \<longleftrightarrow> path a xs y \<and> path y ys b"
  by (induction xs arbitrary: a) auto

lemma path_last: "path a xs b \<Longrightarrow> fst b' = fst b \<Longrightarrow> (snd (snd b') \<Longrightarrow> snd (snd b)) \<Longrightarrow> path a xs b'"
  by (induction xs arbitrary: a) (auto simp: link_def)

lemma path_first: "path a xs b \<Longrightarrow> fst a' = fst a \<Longrightarrow> (fst (snd a') \<Longrightarrow> fst (snd a)) \<Longrightarrow> path a' xs b"
  by (cases xs) (auto simp: link_def)

text \<open>
  Clearing the bits that point at a place keeps every other link, whatever comes to stand there;
  setting them is right when a migrated row comes to stand there.
\<close>

lemma path_upd_last:
  assumes "path no_row xs a" "snd (snd y) \<Longrightarrow> xs \<noteq> [] \<and> fst (last xs)" "v \<Longrightarrow> fst y"
  shows "path no_row (upd_last (set_nb v) xs) y"
proof (cases xs rule: rev_cases)
  case (snoc zs z)
  then have "path no_row zs (set_nb v z)"
    using assms(1) by (auto simp: set_nb_def intro!: path_last [of no_row zs z])
  then show ?thesis
    using assms snoc by (auto simp: upd_last_def link_def set_nb_def)
qed (use assms in \<open>auto simp: upd_last_def link_def no_row_def\<close>)

lemma path_upd_hd:
  assumes "path a ys no_row" "fst (snd y) \<Longrightarrow> ys \<noteq> [] \<and> fst (hd ys)" "v \<Longrightarrow> fst y"
  shows "path y (upd_hd (set_pb v) ys) no_row"
proof (cases ys)
  case (Cons z zs)
  then have "path (set_pb v z) zs no_row"
    using assms(1) by (auto simp: set_pb_def intro!: path_first [of z zs no_row])
  then show ?thesis
    using assms Cons by (auto simp: upd_hd_def link_def set_pb_def)
qed (use assms in \<open>auto simp: upd_hd_def link_def no_row_def\<close>)

lemma links_replace:
  assumes "links (xs @ x # ys)" "fst (snd y) \<Longrightarrow> ys \<noteq> [] \<and> fst (hd ys)" "snd (snd y) \<Longrightarrow> xs \<noteq> [] \<and> fst (last xs)"
    "v \<Longrightarrow> fst y"
  shows "links (upd_last (set_nb v) xs @ y # upd_hd (set_pb v) ys)"
  using assms path_upd_last [of xs x y v] path_upd_hd [of x ys y v] by (auto simp: links_def)

lemma links_own:
  assumes "links (xs @ x # ys)"
  shows "fst (snd x) \<Longrightarrow> ys \<noteq> [] \<and> fst (hd ys)" "snd (snd x) \<Longrightarrow> xs \<noteq> [] \<and> fst (last xs)"
  using assms by (cases ys; auto simp: links_def link_def no_row_def)
    (cases xs rule: rev_cases; use assms in \<open>auto simp: links_def link_def no_row_def\<close>)+

lemma links_join:
  assumes "path no_row xs a" "path b ys no_row"
  shows "links (upd_last (set_nb False) xs @ upd_hd (set_pb False) ys)"
proof (cases ys)
  case Nil
  then show ?thesis
    using path_upd_last [OF assms(1), of no_row False] by (simp add: links_def upd_hd_def no_row_def)
next
  case (Cons z zs)
  have "path no_row (upd_last (set_nb False) xs) (set_pb False z)"
    using path_upd_last [OF assms(1), of "set_pb False z" False] by (simp add: set_pb_def)
  moreover have "path (set_pb False z) zs no_row"
    using assms(2) Cons by (auto simp: set_pb_def intro!: path_first [of z zs no_row])
  ultimately show ?thesis
    using Cons by (simp add: links_def upd_hd_def)
qed

lemma links_delete: "links (xs @ x # ys) \<Longrightarrow> links (upd_last (set_nb False) xs @ upd_hd (set_pb False) ys)"
  using links_join [of xs x x ys] by (simp add: links_def)

lemma links_insert:
  assumes "links (xs @ ys)" "snd y = (False, False)"
  shows "links (upd_last (set_nb False) xs @ y # upd_hd (set_pb False) ys)"
proof -
  obtain a where "path no_row xs a"
    using assms(1) by (cases ys) (auto simp: links_def)
  moreover obtain b where "path b ys no_row"
    using assms(1) by (cases xs rule: rev_cases) (auto simp: links_def)
  ultimately show ?thesis
    using path_upd_last [of xs _ y False] path_upd_hd [of _ ys y False] assms(2) by (auto simp: links_def)
qed

definition rows_ok :: "('k :: linorder, 'v) rows \<Rightarrow> ('k, 'v, 'p) cxl \<Rightarrow> bool" where
  "rows_ok rows c \<longleftrightarrow> sorted_wrt (\<lambda>x y. fst x < fst y \<and> apart (snd x) (snd y)) rows \<and> (\<forall>x\<in>set rows. row_ok (snd x) c)"

lemma part_inv_rows_ok: "part_inv rows c \<longleftrightarrow> rows_ok rows c \<and> index c = index_of rows"
  by (simp add: part_inv_def rows_ok_def)

lemma row_ok_ptr: "row_ok r c \<Longrightarrow> l_is_migrated r \<Longrightarrow> \<exists>p w. l_migrated_row r = Some p \<and> smetas c p = Some w \<and> \<not> bit w 63"
  by (auto simp: row_ok_def row_inv_def shared_at_def)

text \<open>A step on a neighbour's word.\<close>

definition only_words :: "('k, 'v, 'p) cxl \<Rightarrow> ('k, 'v, 'p) cxl \<Rightarrow> bool" where
  "only_words c c' \<longleftrightarrow> sccs c' = sccs c \<and> index c' = index c \<and> policy c' = policy c \<and> mem c' = mem c \<and>
     retired c' = retired c \<and> (\<forall>p. same_word (smetas c p) (smetas c' p))"

lemma only_words_refl [simp]: "only_words c c"
  by (simp add: only_words_def)

lemma same_word_trans: "same_word a b \<Longrightarrow> same_word b c \<Longrightarrow> same_word a c"
  by (cases a; cases b; cases c) (auto simp: same_word_def)

lemma only_words_trans: "only_words a b \<Longrightarrow> only_words b c \<Longrightarrow> only_words a c"
  by (auto simp: only_words_def intro: same_word_trans)

lemma only_words_frame: "only_words c c' \<Longrightarrow> frame r c c'"
  by (simp add: only_words_def frame_def)

lemma only_words_rows_ok: "only_words c c' \<Longrightarrow> rows_ok rows c \<Longrightarrow> rows_ok rows c'"
  using frame_row [OF _ only_words_frame] by (auto simp: rows_ok_def)

lemma update_neighbour_ok:
  assumes nb: "\<And>k r. nb = Some (k, r) \<Longrightarrow> row_ok r c"
    and f: "\<And>w. f w = upd_fld b 1 (of_bool v) w" and b: "b = 38 \<or> b = 39"
  shows "\<exists>c'. update_neighbour f nb c = Inr c' \<and> only_words c c' \<and>
    (\<forall>r'. row_ok r' c \<longrightarrow> (\<forall>k r. nb = Some (k, r) \<longrightarrow> apart r' r) \<longrightarrow> key_info c' r' = key_info c r') \<and>
    (\<forall>k r. nb = Some (k, r) \<longrightarrow> key_info c' r = (if b = 39 then set_nb v else set_pb v) (key_info c r))"
proof (cases "\<exists>k r. nb = Some (k, r) \<and> l_is_migrated r")
  case True
  then obtain k r where r: "nb = Some (k, r)" "l_is_migrated r" by auto
  from row_ok_ptr [OF nb [OF r(1)] r(2)] obtain p w
    where p: "l_migrated_row r = Some p" "smetas c p = Some w" "\<not> bit w 63" by blast
  let ?w = "sm_unlock (f (upd_fld 63 1 1 w))"
  define c' where "c' = c\<lparr>smetas := (smetas c)(p \<mapsto> ?w)\<rparr>"
  have run: "update_neighbour f nb c = Inr c'"
    using r p by (simp add: update_neighbour_def c'_def sm_lock_fields)
  have "sm_view ?w = sm_view w \<and> bit ?w 63 = bit w 63"
    using b p(3) by (auto simp: f sm_view_def sm_readers_def field_calculus)
  then have "only_words c c'"
    using p(2) by (auto simp: only_words_def c'_def same_word_def option.rel_refl)
  moreover have "key_info c' r' = key_info c r'" if "row_ok r' c" "apart r' r" for r'
    using that r(2) p(1) row_ok_ptr [of r' c] by (auto simp: key_info_def c'_def apart_def Let_def)
  moreover have "key_info c' r = (if b = 39 then set_nb v else set_pb v) (key_info c r)"
    using b p r by (auto simp: key_info_def c'_def set_nb_def set_pb_def f field_calculus)
  ultimately show ?thesis using run r by auto
next
  case False
  then have "update_neighbour f nb c = Inr c"
    by (auto simp: update_neighbour_def split: option.split)
  moreover have "key_info c r = (if b = 39 then set_nb v else set_pb v) (key_info c r)" if "nb = Some (k, r)" for k r
    using False that by (auto simp: key_info_def set_nb_def set_pb_def)
  ultimately show ?thesis by auto
qed

lemma update_neighbours_ok:
  assumes ok: "rows_ok (xs @ ys) c" and f: "\<And>w. f w = upd_fld 39 1 (of_bool v) w" "\<And>w. g w = upd_fld 38 1 (of_bool v) w"
    and nb: "prev_row key rows = last_opt xs" "next_row key rows = hd_opt ys"
  shows "\<exists>c'. update_neighbours f g key rows c = Inr c' \<and> only_words c c' \<and>
    (\<forall>r. row_ok r c \<longrightarrow> (\<forall>x\<in>set (xs @ ys). apart r (snd x)) \<longrightarrow> key_info c' r = key_info c r) \<and>
    map (\<lambda>x. key_info c' (snd x)) xs = upd_last (set_nb v) (map (\<lambda>x. key_info c (snd x)) xs) \<and>
    map (\<lambda>x. key_info c' (snd x)) ys = upd_hd (set_pb v) (map (\<lambda>x. key_info c (snd x)) ys)"
proof -
  let ?ki = "\<lambda>c. map (\<lambda>x. key_info c (snd x))"
  have okD: "row_ok (snd x) c" if "x \<in> set (xs @ ys)" for x
    using ok that by (auto simp: rows_ok_def)
  have ap: "apart (snd x) (snd y)" if "x \<in> set xs" "y \<in> set ys" for x y
    using ok that by (auto simp: rows_ok_def sorted_wrt_append)
  have l: "row_ok r c" if "last_opt xs = Some (k, r)" for k r
    using okD [of "(k, r)"] end_in_set(1) [OF that] by simp
  have "\<exists>c1. update_neighbour f (last_opt xs) c = Inr c1 \<and> only_words c c1 \<and>
      (\<forall>r'. row_ok r' c \<longrightarrow> (\<forall>k r. last_opt xs = Some (k, r) \<longrightarrow> apart r' r) \<longrightarrow> key_info c1 r' = key_info c r') \<and>
      (\<forall>k r. last_opt xs = Some (k, r) \<longrightarrow> key_info c1 r = set_nb v (key_info c r))"
    using update_neighbour_ok [of "last_opt xs" c f 39 v, OF l f(1)] by simp
  then obtain c1 where c1: "update_neighbour f (last_opt xs) c = Inr c1" "only_words c c1"
    "\<And>r'. row_ok r' c \<Longrightarrow> (\<forall>k r. last_opt xs = Some (k, r) \<longrightarrow> apart r' r) \<Longrightarrow> key_info c1 r' = key_info c r'"
    "\<And>k r. last_opt xs = Some (k, r) \<Longrightarrow> key_info c1 r = set_nb v (key_info c r)" by blast
  have ok1: "row_ok (snd x) c1" if "x \<in> set (xs @ ys)" for x
    using frame_row [OF okD [OF that] only_words_frame [OF c1(2)]] by simp
  have h: "row_ok r c1" if "hd_opt ys = Some (k, r)" for k r
    using ok1 [of "(k, r)"] end_in_set(2) [OF that] by simp
  have "\<exists>c2. update_neighbour g (hd_opt ys) c1 = Inr c2 \<and> only_words c1 c2 \<and>
      (\<forall>r'. row_ok r' c1 \<longrightarrow> (\<forall>k r. hd_opt ys = Some (k, r) \<longrightarrow> apart r' r) \<longrightarrow> key_info c2 r' = key_info c1 r') \<and>
      (\<forall>k r. hd_opt ys = Some (k, r) \<longrightarrow> key_info c2 r = set_pb v (key_info c1 r))"
    using update_neighbour_ok [of "hd_opt ys" c1 g 38 v, OF h f(2)] by simp
  then obtain c2 where c2: "update_neighbour g (hd_opt ys) c1 = Inr c2" "only_words c1 c2"
    "\<And>r'. row_ok r' c1 \<Longrightarrow> (\<forall>k r. hd_opt ys = Some (k, r) \<longrightarrow> apart r' r) \<Longrightarrow> key_info c2 r' = key_info c1 r'"
    "\<And>k r. hd_opt ys = Some (k, r) \<Longrightarrow> key_info c2 r = set_pb v (key_info c1 r)" by blast
  have keep: "key_info c2 r = key_info c r"
    if r: "row_ok r c" and "xs \<noteq> [] \<Longrightarrow> apart r (snd (last xs))" "ys \<noteq> [] \<Longrightarrow> apart r (snd (hd ys))" for r
  proof -
    have "row_ok r c1" using frame_row [OF r only_words_frame [OF c1(2)]] by simp
    moreover have "\<forall>k s. last_opt xs = Some (k, s) \<longrightarrow> apart r s" "\<forall>k s. hd_opt ys = Some (k, s) \<longrightarrow> apart r s"
      using that by (metis last_opt_def hd_opt_def option.distinct(1) option.inject snd_conv)+
    ultimately show ?thesis
      using c1(3) [OF r] c2(3) [of r] by simp
  qed
  have "?ki c2 xs = upd_last (set_nb v) (?ki c xs)"
  proof (cases xs rule: rev_cases)
    case (snoc zs z)
    have "key_info c2 (snd z) = key_info c1 (snd z)"
      using c2(3) [OF ok1 [of z]] ap [of z] end_in_set(2) [of ys] snoc by fastforce
    moreover have "key_info c1 (snd z) = set_nb v (key_info c (snd z))"
      using c1(4) [of "fst z" "snd z"] snoc by (simp add: last_opt_def)
    moreover have "key_info c2 (snd x) = key_info c (snd x)" if "x \<in> set zs" for x
      using that snoc ok ap [of x "hd ys"] okD [of x] by (intro keep) (auto simp: rows_ok_def sorted_wrt_append)
    ultimately show ?thesis using snoc by (simp add: upd_last_def)
  qed (simp add: upd_last_def)
  moreover have "?ki c2 ys = upd_hd (set_pb v) (?ki c ys)"
  proof (cases ys)
    case (Cons z zs)
    have "key_info c1 (snd z) = key_info c (snd z)"
      using c1(3) [OF okD [of z]] ap [of _ z] end_in_set(1) [of xs] Cons apart_sym by fastforce
    then have "key_info c2 (snd z) = set_pb v (key_info c (snd z))"
      using c2(4) [of "fst z" "snd z"] Cons by (simp add: hd_opt_def)
    moreover have "key_info c2 (snd x) = key_info c (snd x)" if "x \<in> set zs" for x
    proof (rule keep)
      show "row_ok (snd x) c" using okD [of x] that Cons by simp
      show "apart (snd x) (snd (last xs))" if "xs \<noteq> []"
        unfolding apart_sym [of "snd x"] using \<open>x \<in> set zs\<close> that Cons by (intro ap) auto
      show "apart (snd x) (snd (hd ys))"
        unfolding apart_sym [of "snd x"] using that Cons ok by (auto simp: rows_ok_def sorted_wrt_append)
    qed
    ultimately show ?thesis using Cons by (simp add: upd_hd_def)
  qed (simp add: upd_hd_def)
  moreover have "update_neighbours f g key rows c = Inr c2"
    using c1(1) c2(1) nb by (simp add: update_neighbours_def)
  ultimately show ?thesis
    using only_words_trans [OF c1(2) c2(2)] keep by auto
qed

section \<open>Replacing a row\<close>

lemma table_abs_frame:
  assumes "rows_ok rows c" "\<forall>x\<in>set rows. frame (snd x) c c'"
  shows "table_abs rows c' = table_abs rows c"
  using assms frame_row by (force simp: table_abs_def rows_ok_def)

lemma index_of_replace:
  assumes "\<forall>x\<in>set xs. fst x \<noteq> key"
  shows "index_of (xs @ (key, r') # ys) = (index_of (xs @ (key, r) # ys))(key := if l_is_migrated r' then l_migrated_row r' else None)"
proof
  fix k
  have "map_of xs key = None" using assms by (auto simp: map_of_eq_None_iff)
  then show "index_of (xs @ (key, r') # ys) k =
      ((index_of (xs @ (key, r) # ys))(key := if l_is_migrated r' then l_migrated_row r' else None)) k"
    by (auto simp: index_of_def map_add_def split: option.split)
qed

lemma part_inv_split:
  assumes "part_inv (xs @ (key, r) # ys) c"
  shows "\<forall>x\<in>set xs. fst x < key" "\<forall>y\<in>set ys. key < fst y" "row_ok r c" "rows_ok (xs @ ys) c"
    "\<forall>x\<in>set (xs @ ys). row_ok (snd x) c" "\<forall>x\<in>set (xs @ ys). apart r (snd x)"
    "index c key = (if l_is_migrated r then l_migrated_row r else None)"
proof -
  show xs: "\<forall>x\<in>set xs. fst x < key" and "\<forall>y\<in>set ys. key < fst y" "row_ok r c" "rows_ok (xs @ ys) c"
    "\<forall>x\<in>set (xs @ ys). row_ok (snd x) c"
    using assms by (auto simp: part_inv_def rows_ok_def sorted_wrt_append)
  show "\<forall>x\<in>set (xs @ ys). apart r (snd x)"
    using assms apart_sym [of r] by (auto simp: part_inv_def sorted_wrt_append)
  have "map_of xs key = None" using xs by (auto simp: map_of_eq_None_iff)
  then show "index c key = (if l_is_migrated r then l_migrated_row r else None)"
    using assms by (auto simp: part_inv_def index_of_def map_add_def)
qed

lemma change_row:
  assumes inv: "part_inv (xs @ (key, r) # ys) c" and fr: "\<forall>x\<in>set (xs @ ys). frame (snd x) c c'"
    and r': "row_ok r' c'" "\<forall>x\<in>set (xs @ ys). apart r' (snd x)"
    and idx: "index c' = (index c)(key := if l_is_migrated r' then l_migrated_row r' else None)"
  shows "part_inv (xs @ (key, r') # ys) c'"
    "table_abs (xs @ (key, r') # ys) c' = table_abs xs c @ (key, row_abs r' c') # table_abs ys c"
proof -
  note s = part_inv_split [OF inv]
  have ok': "\<forall>x\<in>set (xs @ ys). row_ok (snd x) c'"
    using s(5) fr frame_row by blast
  have "sorted_wrt (\<lambda>x y. fst x < fst y \<and> apart (snd x) (snd y)) (xs @ (key, r') # ys)"
    using inv r'(2) apart_sym by (auto simp: part_inv_def sorted_wrt_append)
  moreover have "index c' = index_of (xs @ (key, r') # ys)"
  proof -
    have "\<forall>x\<in>set xs. fst x \<noteq> key" using s(1) by auto
    then show ?thesis
      using idx inv index_of_replace [of xs key r' ys r] by (simp add: part_inv_def)
  qed
  ultimately show "part_inv (xs @ (key, r') # ys) c'"
    using ok' r'(1) by (auto simp: part_inv_def)
  show "table_abs (xs @ (key, r') # ys) c' = table_abs xs c @ (key, row_abs r' c') # table_abs ys c"
    using table_abs_frame [OF s(4), of c'] fr by (simp add: table_abs_def)
qed

lemma replace_row:
  assumes inv: "part_inv (xs @ (key, r) # ys) c" and fr: "\<forall>x\<in>set (xs @ ys). frame (snd x) c c'"
    and r': "row_ok r' c'" "\<forall>x\<in>set (xs @ ys). apart r' (snd x)" "row_abs r' c' = row_abs r c"
    and idx: "index c' = (index c)(key := if l_is_migrated r' then l_migrated_row r' else None)"
  shows "part_inv (xs @ (key, r') # ys) c'" "table_abs (xs @ (key, r') # ys) c' = table_abs (xs @ (key, r) # ys) c"
  using change_row [OF inv fr r'(1,2) idx] r'(3) by (simp_all add: table_abs_def)

text \<open>Taking a row out of the list and putting a new one in.\<close>

lemma drop_row:
  assumes inv: "part_inv (xs @ (key, r) # ys) c" and fr: "\<forall>x\<in>set (xs @ ys). frame (snd x) c c'"
    and idx: "index c' = (index c)(key := None)"
  shows "part_inv (xs @ ys) c'" "table_abs (xs @ ys) c' = table_abs (xs @ ys) c"
proof -
  note s = part_inv_split [OF inv]
  have "map_of xs key = None" "map_of ys key = None"
    using s(1,2) by (auto simp: map_of_eq_None_iff)
  then have "index c' = index_of (xs @ ys)"
    using idx inv by (auto simp: part_inv_def index_of_def map_add_def fun_eq_iff split: option.split)
  moreover have "\<forall>x\<in>set (xs @ ys). row_ok (snd x) c'"
    using s(5) fr frame_row by blast
  ultimately show "part_inv (xs @ ys) c'"
    using s(4) by (simp add: part_inv_def rows_ok_def)
  show "table_abs (xs @ ys) c' = table_abs (xs @ ys) c"
    using table_abs_frame [OF s(4) fr] .
qed

lemma add_row:
  assumes inv: "part_inv (xs @ ys) c" and k: "\<forall>x\<in>set xs. fst x < key" "\<forall>y\<in>set ys. key < fst y"
    and r: "row_ok r c" "\<not> l_is_migrated r" "l_scc_data r = None"
  shows "part_inv (xs @ (key, r) # ys) c"
proof -
  have "map_of xs key = None" "map_of ys key = None"
    using k by (auto simp: map_of_eq_None_iff)
  then have "index_of (xs @ (key, r) # ys) = index_of (xs @ ys)"
    using r(2) by (auto simp: index_of_def map_add_def fun_eq_iff split: option.split)
  moreover have "apart r x" "apart x r" for x
    using r(2,3) by (auto simp: apart_def)
  ultimately show ?thesis
    using inv k r(1) by (auto simp: part_inv_def sorted_wrt_append)
qed

lemma part_inv_key:
  assumes "part_inv rows c" "map_of rows key = Some r"
  obtains xs ys where "rows = xs @ (key, r) # ys" "\<forall>x\<in>set xs. fst x < key" "\<forall>y\<in>set ys. key < fst y"
  using assms by (auto simp: part_inv_def elim: sorted_split)

text \<open>What the allocator has to promise: addresses no row of the table uses, offsets of 37 bits.\<close>

definition fresh_alloc :: "'v alloc \<Rightarrow> ('k, 'v) rows \<Rightarrow> bool" where
  "fresh_alloc a rows \<longleftrightarrow> (\<exists>p off d. a_smeta a = Some p \<and> a_scc a = Some (off, d) \<and> unat off < 2 ^ 37 \<and>
     (\<forall>x\<in>set rows. l_is_migrated (snd x) \<longrightarrow> l_migrated_row (snd x) \<noteq> Some p) \<and>
     (\<forall>x\<in>set rows. l_scc_data (snd x) \<noteq> Some off))"

section \<open>Moving in\<close>

lemma move_in_row_plain:
  assumes "coordinator_id H < 16" "row_ok r c" "a_scc a = Some (o0, d0)" "unat o0 < 2 ^ 37"
  shows "move_in_row H ti pinit a (\<lambda>w. w) inc key r c = move_in_row H ti pinit a (key_info_bits False False) inc key r c"
proof -
  have "unat off < 2 ^ 37" if "alloc_scc_data H ti a r (c\<lparr>mem := m\<rparr>) = Inr (Some (off, d), c')" for off d c' m
    using that assms by (auto simp: alloc_scc_data_def row_ok_def res_iffs malloc_wrapper_def split: if_splits)
  then have "new_smeta H (\<lambda>w. w) off t = new_smeta H (key_info_bits False False) off t"
    if "alloc_scc_data H ti a r (c\<lparr>mem := m\<rparr>) = Inr (Some (off, d), c')" for off d c' m t
    using that new_smeta_plain [OF assms(1)] by blast
  then show ?thesis
    by (auto simp: move_in_row_def Let_def bind_res_def split: sum.split option.split)
qed

lemma move_in_step:
  assumes inv: "part_inv (xs @ (key, r) # ys) c" and r: "\<not> l_is_migrated r" and H: "coordinator_id H < 16"
    and opt: "enable_scc H \<or> \<not> enable_migration_optimization H" and a: "fresh_alloc a (xs @ (key, r) # ys)"
  shows "\<exists>off r' c'. move_in_row H ti pinit a (key_info_bits n q) inc key r c = Inr ((Some off, r'), c') \<and>
    part_inv (xs @ (key, r') # ys) c' \<and> table_abs (xs @ (key, r') # ys) c' = table_abs (xs @ (key, r) # ys) c \<and>
    index c' = (index c)(key \<mapsto> the (a_smeta a)) \<and> l_is_migrated r' \<and> key_info c' r' = (True, n, q) \<and>
    (\<forall>x\<in>set (xs @ ys). key_info c' (snd x) = key_info c (snd x))"
proof -
  note s = part_inv_split [OF inv]
  from a obtain p o0 d0 where al: "a_smeta a = Some p" "a_scc a = Some (o0, d0)" "unat o0 < 2 ^ 37"
    and fresh: "\<forall>x\<in>set (xs @ (key, r) # ys). l_is_migrated (snd x) \<longrightarrow> l_migrated_row (snd x) \<noteq> Some p"
      "\<forall>x\<in>set (xs @ (key, r) # ys). l_scc_data (snd x) \<noteq> Some o0" unfolding fresh_alloc_def by blast
  have fp: "l_is_migrated (snd x) \<Longrightarrow> l_migrated_row (snd x) \<noteq> Some p" and fo: "l_scc_data (snd x) \<noteq> Some o0"
    if "x \<in> set (xs @ ys)" for x using fresh that by auto
  have "index c key = None" using s(7) r by simp
  from move_in_row_ok [OF s(3) r H opt al this, of ti pinit n q inc] obtain off r' c'
    where run: "move_in_row H ti pinit a (key_info_bits n q) inc key r c = Inr ((Some off, r'), c')"
      and r': "row_ok r' c'" "row_abs r' c' = row_abs r c" "l_is_migrated r'" "l_migrated_row r' = Some p"
        "l_scc_data r' = Some off" "l_scc_data r = Some off \<or> off = o0" "key_info c' r' = (True, n, q)"
      and c': "\<forall>k. k \<noteq> p \<longrightarrow> smetas c' k = smetas c k" "\<forall>k. k \<noteq> off \<longrightarrow> sccs c' k = sccs c k"
        "index c' = (index c)(key \<mapsto> p)" by blast
  have off: "l_scc_data (snd x) \<noteq> Some off" if "x \<in> set (xs @ ys)" for x
    using that s(6) r'(6) fo [OF that] by (fastforce simp: apart_def)
  have fr: "\<forall>x\<in>set (xs @ ys). frame (snd x) c c'"
  proof
    fix x assume x: "x \<in> set (xs @ ys)"
    show "frame (snd x) c c'"
      using c' off [OF x] fp [OF x] by (auto simp: frame_def)
  qed
  have ap: "\<forall>x\<in>set (xs @ ys). apart r' (snd x)"
    using off fp r'(4,5) by (fastforce simp: apart_def)
  have "key_info c' (snd x) = key_info c (snd x)" if x: "x \<in> set (xs @ ys)" for x
  proof -
    have "row_ok (snd x) c" using s(5) x by blast
    then show ?thesis
      using row_ok_ptr [of "snd x" c] fp [OF x] c'(1) by (auto simp: key_info_def Let_def)
  qed
  then show ?thesis
    using run replace_row [OF inv fr r'(1) ap r'(2)] r' c' al by auto
qed

lemma links_arrive:
  assumes "links (xs @ x # ys)" "y = (True, False, False)"
  shows "links (xs @ y # ys)"
proof -
  have "path no_row xs y" if "path no_row xs x"
    using that assms(2) by (cases xs rule: rev_cases) (auto simp: link_def)
  moreover have "path y ys no_row" if "path x ys no_row"
    using that assms(2) by (cases ys) (auto simp: link_def)
  ultimately show ?thesis using assms(1) by (simp add: links_def)
qed

lemma key_info_ok_split: "key_info_ok (xs @ (key, r) # ys) c \<longleftrightarrow>
    links (map (\<lambda>x. key_info c (snd x)) xs @ key_info c r # map (\<lambda>x. key_info c (snd x)) ys)"
  by (simp add: key_info_ok_def)

lemma key_info_ends:
  "xs \<noteq> [] \<and> fst (last (map (\<lambda>x. key_info c (snd x)) xs)) \<longleftrightarrow> nb_migrated (last_opt xs)"
  "ys \<noteq> [] \<and> fst (hd (map (\<lambda>x. key_info c (snd x)) ys)) \<longleftrightarrow> nb_migrated (hd_opt ys)"
  by (cases xs rule: rev_cases; cases ys; auto simp: nb_migrated_def last_opt_def hd_opt_def key_info_def Let_def)+

end
