(* ===== verification/Policy.thy ===== *)
theory Policy
  imports Tracker Migration
begin

text \<open>
  The migration policies, \<open>protocol/Pasha/Policy*.h\<close>: what to move out of CXL memory, and when. A policy
  calls the functions it was constructed with (\<open>std::function\<close> members of \<open>MigrationManager\<close>) to move rows
  and delete them; they are the fields of \<open>env\<close>, over an arbitrary state \<open>'s\<close> of tables and memory. A row
  entity (table, key and local row, identified by table and key) is an element of \<open>'e\<close>; \<open>row_entity\<close> reads
  the \<open>row_entity_ptr\<close> of the policy metadata at an address. The latch of a tracker, taken first and
  released last in every operation, makes an operation one function of the state.
\<close>

section \<open>What a policy calls\<close>

record ('e, 's) env =
  move_in :: "'e \<Rightarrow> bool \<Rightarrow> 's \<Rightarrow> ((migration_result \<times> u64 option) \<times> 's) res"
  move_out :: "'e \<Rightarrow> 's \<Rightarrow> (bool \<times> 's) res"
  delete_row :: "'e \<Rightarrow> bool \<Rightarrow> 's \<Rightarrow> (u64 option \<times> 's) res"
  hw_cc_usage :: "'s \<Rightarrow> u64"
  get_tracker :: "'s \<Rightarrow> 'e tracker"
  put_tracker :: "'e tracker \<Rightarrow> 's \<Rightarrow> 's"
  row_entity :: "'s \<Rightarrow> u64 \<rightharpoonup> 'e"

section \<open>PolicyNoMoveOut\<close>

definition nomoveout_move_row_in :: "('e, 's) env \<Rightarrow> 'e \<Rightarrow> bool \<Rightarrow> 's \<Rightarrow> (migration_result \<times> 's) res" where
  "nomoveout_move_row_in V e inc_ref_cnt s = bind_res (move_in V e inc_ref_cnt s) (\<lambda>((ret, _), s). Inr (ret, s))"

definition nomoveout_move_row_out :: "'s \<Rightarrow> bool \<times> 's" where
  "nomoveout_move_row_out s = (True, s)"

definition nomoveout_delete :: "('e, 's) env \<Rightarrow> 'e \<Rightarrow> bool \<Rightarrow> 's \<Rightarrow> (bool \<times> 's) res" where
  "nomoveout_delete V e is_delete_local s = bind_res (delete_row V e is_delete_local s) (\<lambda>(_, s). Inr (True, s))"

section \<open>PolicyFIFO and PolicyEagerly\<close>

text \<open>The queue \<open>fifo_queue\<close> is a list of row entities in the owner's memory.\<close>

definition fifo_move_row_in ::
  "('e, 's) env \<Rightarrow> 'e \<Rightarrow> bool \<Rightarrow> 'e list \<times> 's \<Rightarrow> (migration_result \<times> 'e list \<times> 's) res" where
  "fifo_move_row_in V e inc_ref_cnt = (\<lambda>(q, s).
     bind_res (move_in V e inc_ref_cnt s) (\<lambda>((ret, meta), s).
       if ret = SUCCESS
       then check (meta \<noteq> None) (bind_res (deref (row_entity V s) meta) (\<lambda>x. Inr (ret, q @ [x], s)))
       else Inr (ret, q, s)))"

text \<open>The loop over the queue; \<open>kept\<close> is the part already passed.\<close>

fun fifo_loop :: "('e, 's) env \<Rightarrow> u64 \<Rightarrow> bool \<Rightarrow> 'e list \<Rightarrow> 'e list \<Rightarrow> 's \<Rightarrow> (bool \<times> 'e list \<times> 's) res" where
  "fifo_loop V budget ret kept [] s = Inr (ret, kept, s)"
| "fifo_loop V budget ret kept (e # q) s =
     bind_res (move_out V e s) (\<lambda>(ret, s).
       if ret then
         if hw_cc_usage V s < budget then Inr (True, kept @ q, s) else fifo_loop V budget True kept q s
       else fifo_loop V budget False (kept @ [e]) q s)"

definition fifo_move_row_out :: "('e, 's) env \<Rightarrow> u64 \<Rightarrow> 'e list \<times> 's \<Rightarrow> (bool \<times> 'e list \<times> 's) res" where
  "fifo_move_row_out V budget = (\<lambda>(q, s).
     if hw_cc_usage V s < budget then Inr (False, q, s) else fifo_loop V budget False [] q s)"

definition fifo_delete :: "('e, 's) env \<Rightarrow> 'e \<Rightarrow> bool \<Rightarrow> 'e list \<times> 's \<Rightarrow> (bool \<times> 'e list \<times> 's) res" where
  "fifo_delete V e is_delete_local = (\<lambda>(q, s).
     bind_res (delete_row V e is_delete_local s) (\<lambda>(meta, s).
       if meta \<noteq> None then check (e \<in> set q) (Inr (True, remove1 e q, s)) else Inr (True, q, s)))"

fun eagerly_loop :: "('e, 's) env \<Rightarrow> 'e list \<Rightarrow> 'e list \<Rightarrow> 's \<Rightarrow> ('e list \<times> 's) res" where
  "eagerly_loop V kept [] s = Inr (kept, s)"
| "eagerly_loop V kept (e # q) s =
     bind_res (move_out V e s) (\<lambda>(ret, s).
       if ret then eagerly_loop V kept q s else eagerly_loop V (kept @ [e]) q s)"

definition eagerly_move_row_in ::
  "('e, 's) env \<Rightarrow> 'e \<Rightarrow> bool \<Rightarrow> 'e list \<times> 's \<Rightarrow> (migration_result \<times> 'e list \<times> 's) res" where
  "eagerly_move_row_in V e inc_ref_cnt = (\<lambda>(q, s).
     bind_res (move_in V e inc_ref_cnt s) (\<lambda>((ret, meta), s).
       if ret = SUCCESS
       then check (meta \<noteq> None) (bind_res (deref (row_entity V s) meta) (\<lambda>x. Inr (ret, q @ [x], s)))
       else Inr (ret, q, s)))"

definition eagerly_move_row_out :: "('e, 's) env \<Rightarrow> 'e list \<times> 's \<Rightarrow> (bool \<times> 'e list \<times> 's) res" where
  "eagerly_move_row_out V = (\<lambda>(q, s). bind_res (eagerly_loop V [] q s) (\<lambda>(q, s). Inr (True, q, s)))"

definition eagerly_delete :: "('e, 's) env \<Rightarrow> 'e \<Rightarrow> bool \<Rightarrow> 'e list \<times> 's \<Rightarrow> (bool \<times> 'e list \<times> 's) res" where
  "eagerly_delete V e is_delete_local = (\<lambda>(q, s).
     bind_res (delete_row V e is_delete_local s) (\<lambda>(meta, s).
       if meta \<noteq> None then check (e \<in> set q) (Inr (True, remove1 e q, s)) else Inr (True, q, s)))"

section \<open>PolicyLRU\<close>

definition lru_init_migration_policy_metadata :: "'e \<Rightarrow> u64 \<Rightarrow> 'e tracker \<Rightarrow> 'e tracker" where
  "lru_init_migration_policy_metadata e a t = t\<lparr>nodes := (nodes t)(a \<mapsto> \<lparr>entity = e, prev = None, nxt = None\<rparr>)\<rparr>"

definition lru_access_row :: "('e, 's) env \<Rightarrow> u64 \<Rightarrow> 's \<Rightarrow> 's res" where
  "lru_access_row V lru_meta s = bind_res (lru_promote lru_meta (get_tracker V s)) (\<lambda>t. Inr (put_tracker V t s))"

definition lru_move_row_in :: "('e, 's) env \<Rightarrow> 'e \<Rightarrow> bool \<Rightarrow> 's \<Rightarrow> (migration_result \<times> 's) res" where
  "lru_move_row_in V e inc_ref_cnt s =
     bind_res (move_in V e inc_ref_cnt s) (\<lambda>((ret, meta), s).
       if ret = SUCCESS then
         check (meta \<noteq> None)
           (bind_res (deref (nodes (get_tracker V s)) meta) (\<lambda>n. check (nxt n = None) (check (prev n = None)
             (bind_res (lru_track (the meta) (get_tracker V s)) (\<lambda>t. Inr (ret, put_tracker V t s))))))
       else Inr (ret, s))"

text \<open>One turn of the loop of \<open>move_row_out\<close>: \<open>Inl\<close> is the value with which it ends.\<close>

definition lru_turn :: "('e, 's) env \<Rightarrow> u64 \<Rightarrow> 's \<Rightarrow> ((bool \<times> 's) + 's) res" where
  "lru_turn V budget s =
     bind_res (get_next_victim (get_tracker V s)) (\<lambda>(victim, t).
       let s = put_tracker V t s in
       if victim = None then Inr (Inl (False, s))
       else
         bind_res (deref (nodes t) victim) (\<lambda>n.
         bind_res (move_out V (entity n) s) (\<lambda>(move_out_success, s).
           if move_out_success then
             bind_res (lru_untrack (the victim) (get_tracker V s)) (\<lambda>t.
               let s = put_tracker V (reset_cur_victim t) s in
               if hw_cc_usage V s < budget then Inr (Inl (True, s)) else Inr (Inr s))
           else Inr (Inr s))))"

text \<open>The loop with fuel; \<open>None\<close> means that the fuel has run out.\<close>

fun lru_loop :: "nat \<Rightarrow> ('e, 's) env \<Rightarrow> u64 \<Rightarrow> 's \<Rightarrow> (bool \<times> 's) res option" where
  "lru_loop 0 V budget s = None"
| "lru_loop (Suc k) V budget s =
     (case lru_turn V budget s of
        Inl x \<Rightarrow> Some (Inl x)
      | Inr (Inl r) \<Rightarrow> Some (Inr r)
      | Inr (Inr s) \<Rightarrow> lru_loop k V budget s)"

definition lru_move_row_out :: "nat \<Rightarrow> ('e, 's) env \<Rightarrow> u64 \<Rightarrow> 's \<Rightarrow> (bool \<times> 's) res option" where
  "lru_move_row_out fuel V budget s =
     (if hw_cc_usage V s < budget then Some (Inr (False, s))
      else map_option (map_sum id (\<lambda>(ret, s). (ret, put_tracker V (reset_cur_victim (get_tracker V s)) s)))
        (lru_loop fuel V budget s))"

definition lru_delete :: "('e, 's) env \<Rightarrow> 'e \<Rightarrow> bool \<Rightarrow> 's \<Rightarrow> (bool \<times> 's) res" where
  "lru_delete V e is_delete_local s =
     bind_res (delete_row V e is_delete_local s) (\<lambda>(meta, s).
       if meta \<noteq> None then
         bind_res (lru_untrack (the meta) (get_tracker V s)) (\<lambda>t. Inr (True, put_tracker V t s))
       else Inr (True, s))"

section \<open>PolicyClock\<close>

text \<open>
  The tracker is in the owner's memory and its nodes carry the entity and the address of the
  second-chance byte in CXL memory, \<open>chance\<close>; \<open>new_node\<close> is the address \<open>new\<close> returns.
\<close>

record ('e, 's) clock_env = "('e, 's) env" +
  get_chance :: "u64 \<Rightarrow> 's \<Rightarrow> u8"
  set_chance :: "u64 \<Rightarrow> u8 \<Rightarrow> 's \<Rightarrow> 's"

type_synonym ('e, 's) clock = "('e \<times> u64 option) tracker \<times> 's"

definition clock_access_row :: "('e, 's) clock_env \<Rightarrow> u64 \<Rightarrow> 's \<Rightarrow> 's" where
  "clock_access_row V clock_meta s = set_chance V clock_meta 1 s"

definition clock_move_row_in ::
  "('e, 's) clock_env \<Rightarrow> u64 \<Rightarrow> 'e \<Rightarrow> bool \<Rightarrow> ('e, 's) clock \<Rightarrow> (migration_result \<times> ('e, 's) clock) res" where
  "clock_move_row_in V new_node e inc_ref_cnt = (\<lambda>(t, s).
     bind_res (move_in V e inc_ref_cnt s) (\<lambda>((ret, meta), s).
       if ret = SUCCESS then
         bind_res (clock_track new_node
             (t\<lparr>nodes := (nodes t)(new_node \<mapsto> \<lparr>entity = (e, meta), prev = None, nxt = None\<rparr>)\<rparr>)) (\<lambda>t. Inr (ret, t, s))
       else Inr (ret, t, s)))"

definition clock_turn :: "('e, 's) clock_env \<Rightarrow> u64 \<Rightarrow> ('e, 's) clock \<Rightarrow> ((bool \<times> ('e, 's) clock) + ('e, 's) clock) res" where
  "clock_turn V budget = (\<lambda>(t, s).
     bind_res (move_forward_and_get_cursor t) (\<lambda>(victim, t).
       if victim = None then Inr (Inl (False, t, s))
       else
         bind_res (deref (nodes t) victim) (\<lambda>n.
           case entity n of
             (_, None) \<Rightarrow> Inl Bad_pointer
           | (e, Some m) \<Rightarrow>
               if get_chance V m s = 1 then Inr (Inr (t, set_chance V m 0 s))
               else
                 bind_res (move_out V e s) (\<lambda>(move_out_success, s).
                   if move_out_success then
                     bind_res (move_forward_and_get_cursor t) (\<lambda>(_, t).
                     bind_res (clock_untrack (the victim) t) (\<lambda>t.
                       if hw_cc_usage V s < budget then Inr (Inl (True, t, s)) else Inr (Inr (t, s))))
                   else Inr (Inr (t, s))))))"

fun clock_loop :: "nat \<Rightarrow> ('e, 's) clock_env \<Rightarrow> u64 \<Rightarrow> ('e, 's) clock \<Rightarrow> (bool \<times> ('e, 's) clock) res option" where
  "clock_loop 0 V budget s = None"
| "clock_loop (Suc k) V budget s =
     (case clock_turn V budget s of
        Inl x \<Rightarrow> Some (Inl x)
      | Inr (Inl r) \<Rightarrow> Some (Inr r)
      | Inr (Inr s) \<Rightarrow> clock_loop k V budget s)"

definition clock_move_row_out ::
  "nat \<Rightarrow> ('e, 's) clock_env \<Rightarrow> u64 \<Rightarrow> ('e, 's) clock \<Rightarrow> (bool \<times> ('e, 's) clock) res option" where
  "clock_move_row_out fuel V budget = (\<lambda>(t, s).
     if hw_cc_usage V s < budget then Some (Inr (False, t, s)) else clock_loop fuel V budget (t, s))"

definition clock_delete :: "('e, 's) clock_env \<Rightarrow> 'e \<Rightarrow> bool \<Rightarrow> ('e, 's) clock \<Rightarrow> (bool \<times> ('e, 's) clock) res" where
  "clock_delete V e is_delete_local = (\<lambda>(t, s).
     bind_res (delete_row V e is_delete_local s) (\<lambda>(meta, s). check (meta = None) (Inr (True, t, s))))"

section \<open>Choosing a policy\<close>

datatype migration_policy_kind = PolicyFIFO | PolicyEagerly | PolicyNoMoveOut | PolicyLRU | PolicyClock

datatype move_out_time = OnDemand | Reactive

definition create_migration_manager :: "string \<Rightarrow> string \<Rightarrow> string \<Rightarrow> (migration_policy_kind \<times> move_out_time) res" where
  "create_migration_manager protocol policy_name when_to_move_out_str =
     bind_res
       (if protocol = ''SundialPasha'' \<or> protocol = ''TwoPLPasha'' then
          if policy_name = ''FIFO'' then Inr PolicyFIFO
          else if policy_name = ''Eagerly'' then Inr PolicyEagerly
          else if policy_name = ''NoMoveOut'' then Inr PolicyNoMoveOut
          else if policy_name = ''LRU'' then Inr PolicyLRU
          else if policy_name = ''Clock'' then Inr PolicyClock
          else Inl Check_failed
        else Inl Check_failed) (\<lambda>k.
       if when_to_move_out_str = ''OnDemand'' then Inr (k, OnDemand)
       else if when_to_move_out_str = ''Reactive'' then Inr (k, Reactive)
       else Inl Check_failed)"

end
