(* ===== verification/MigrationProps.thy ===== *)
theory MigrationProps
  imports Migration RowProps
begin

text \<open>
  The properties of migration: moving rows between the partition and CXL memory, inserting and
  deleting them changes nothing a transaction can see of the other rows, the CXL index lists the
  migrated rows, and the next-key and previous-key bits never claim a neighbour that is not there.
\<close>

section \<open>Moving in\<close>

lemma inc_ref_cnt_step:
  assumes inv: "part_inv (xs @ (key, r) # ys) c" and r: "l_is_migrated r"
  shows "\<exists>c'. inc_ref_cnt_via_row inc r c = Inr ((), c') \<and> part_inv (xs @ (key, r) # ys) c' \<and>
    table_abs (xs @ (key, r) # ys) c' = table_abs (xs @ (key, r) # ys) c \<and> index c' = index c \<and> smetas c' = smetas c"
proof (cases inc)
  case True
  note s = part_inv_split [OF inv]
  have ri: "row_inv r c" using s(3) by (simp add: row_ok_def)
  from row_inv_migratedE [OF ri r] obtain p w d where p: "l_migrated_row r = Some p" and at: "shared_at c p w d"
    and sc: "l_scc_data r = Some (sm_get_scc_data w)"
    and copy: "\<not> sm_is_data_modified_since_moved_in w \<Longrightarrow> l_data r = s_data d"
    and abs: "row_abs r c = abs_shared w d" and excl: "sm_is_write_locked w \<Longrightarrow> sm_readers w = 0" by metis
  define d' where "d' = d\<lparr>s_ref_cnt := s_ref_cnt d + 1\<rparr>"
  define c' where "c' = c\<lparr>sccs := (sccs c)(sm_get_scc_data w \<mapsto> d')\<rparr>"
  have w: "sm_unlock (upd_fld 63 1 1 w) = w" "smetas c p = Some w"
    using at sm_unlock_lock by (auto simp: shared_at_def)
  have run: "inc_ref_cnt_via_row inc r c = Inr ((), c')"
    using True p w by (simp add: inc_ref_cnt_via_row_def latched_at [OF at] c'_def d'_def map_upd_triv)
  have at': "shared_at c' p w d'"
    using at by (simp add: shared_at_def c'_def)
  have abs': "row_abs r c' = row_abs r c"
    using abs at' p r by (simp add: row_abs_def shared_at_def abs_shared_def d'_def)
  have "row_inv r c'"
    using row_inv_migratedI [OF r p at' sc] copy abs' abs excl by (simp add: d'_def abs_shared_def)
  then have ok: "row_ok r c'"
    using s(3) by (auto simp: row_ok_def c'_def)
  have fr: "\<forall>x\<in>set (xs @ ys). frame (snd x) c c'"
    using s(6) sc by (fastforce simp: frame_def c'_def apart_def)
  have idx: "index c' = (index c)(key := if l_is_migrated r then l_migrated_row r else None)"
    using s(7) by (auto simp: c'_def)
  from replace_row [OF inv fr ok s(6) abs' idx] run show ?thesis
    by (auto simp: c'_def)
qed (use inv in \<open>auto simp: inc_ref_cnt_via_row_def\<close>)

lemma set_bits:
  "sm_set_next_key_real_bit w = upd_fld 39 1 (of_bool True) w" "sm_set_prev_key_real_bit w = upd_fld 38 1 (of_bool True) w"
  "sm_clear_next_key_real_bit w = upd_fld 39 1 (of_bool False) w" "sm_clear_prev_key_real_bit w = upd_fld 38 1 (of_bool False) w"
  by (simp_all add: sm_writes)

lemma neighbours_step:
  assumes inv: "part_inv (xs @ (key, r) # ys) c"
    and f: "\<And>w. f w = upd_fld 39 1 (of_bool v) w" "\<And>w. g w = upd_fld 38 1 (of_bool v) w"
    and ends: "prev_row key rows = last_opt xs" "next_row key rows = hd_opt ys"
  shows "\<exists>c'. update_neighbours f g key rows c = Inr c' \<and> part_inv (xs @ (key, r) # ys) c' \<and>
    table_abs (xs @ (key, r) # ys) c' = table_abs (xs @ (key, r) # ys) c \<and> only_words c c' \<and> key_info c' r = key_info c r \<and>
    map (\<lambda>x. key_info c' (snd x)) xs = upd_last (set_nb v) (map (\<lambda>x. key_info c (snd x)) xs) \<and>
    map (\<lambda>x. key_info c' (snd x)) ys = upd_hd (set_pb v) (map (\<lambda>x. key_info c (snd x)) ys)"
proof -
  note s = part_inv_split [OF inv]
  from update_neighbours_ok [OF s(4) f ends] obtain c'
    where c': "update_neighbours f g key rows c = Inr c'" "only_words c c'"
      "\<forall>r. row_ok r c \<longrightarrow> (\<forall>x\<in>set (xs @ ys). apart r (snd x)) \<longrightarrow> key_info c' r = key_info c r"
      "map (\<lambda>x. key_info c' (snd x)) xs = upd_last (set_nb v) (map (\<lambda>x. key_info c (snd x)) xs)"
      "map (\<lambda>x. key_info c' (snd x)) ys = upd_hd (set_pb v) (map (\<lambda>x. key_info c (snd x)) ys)" by blast
  have "part_inv (xs @ (key, r) # ys) c'"
    using inv only_words_rows_ok [OF c'(2)] c'(2) by (auto simp: part_inv_rows_ok only_words_def)
  moreover have "table_abs (xs @ (key, r) # ys) c' = table_abs (xs @ (key, r) # ys) c"
    using inv only_words_frame [OF c'(2)] by (intro table_abs_frame) (auto simp: part_inv_rows_ok)
  ultimately show ?thesis using c' s(3,6) by auto
qed

lemma map_of_mid:
  assumes "\<forall>x\<in>set xs. fst x < (key :: 'k :: linorder)"
  shows "map_of (xs @ (key, r) # ys) key = Some r"
proof -
  have "map_of xs key = None" using assms by (auto simp: map_of_eq_None_iff)
  then show ?thesis by (simp add: map_add_def)
qed

lemma move_in_new:
  assumes inv: "part_inv (xs @ (key, r) # ys) c" and ki: "key_info_ok (xs @ (key, r) # ys) c" and r: "\<not> l_is_migrated r"
    and H: "coordinator_id H < 16" and opt: "enable_scc H \<or> \<not> enable_migration_optimization H"
    and a: "fresh_alloc a (xs @ (key, r) # ys)"
  shows "\<exists>off rows' c'. move_from_partition_to_shared_region H ti pinit a inc key (xs @ (key, r) # ys) c =
      Inr ((SUCCESS, Some off), rows', c') \<and> part_inv rows' c' \<and> key_info_ok rows' c' \<and>
      table_abs rows' c' = table_abs (xs @ (key, r) # ys) c \<and> index c' = (index c)(key \<mapsto> the (a_smeta a))"
proof -
  note s = part_inv_split [OF inv]
  note around = around_key [OF s(1,2)]
  let ?ki = "\<lambda>c. map (\<lambda>x. key_info c (snd x))"
  have m: "map_of (xs @ (key, r) # ys) key = Some r"
    by (rule map_of_mid [OF s(1)])
  have plain: "move_in_row H ti pinit a (\<lambda>w. w) inc key r c = move_in_row H ti pinit a (key_info_bits False False) inc key r c"
    using a move_in_row_plain [OF H s(3)] by (auto simp: fresh_alloc_def)
  show ?thesis
  proof (cases "enable_phantom_detection H \<and> tableType ti = BTREE")
    case True
    let ?n = "nb_migrated (hd_opt ys)" and ?q = "nb_migrated (last_opt xs)"
    from move_in_step [OF inv r H opt a, of ti pinit ?n ?q inc] obtain off r' c1
      where c1: "move_in_row H ti pinit a (key_info_bits ?n ?q) inc key r c = Inr ((Some off, r'), c1)"
        "part_inv (xs @ (key, r') # ys) c1" "table_abs (xs @ (key, r') # ys) c1 = table_abs (xs @ (key, r) # ys) c"
        "index c1 = (index c)(key \<mapsto> the (a_smeta a))" "key_info c1 r' = (True, ?n, ?q)"
        "\<forall>x\<in>set (xs @ ys). key_info c1 (snd x) = key_info c (snd x)" by blast
    from neighbours_step [OF c1(2) set_bits(1,2) around(1,2)] obtain c2
      where c2: "update_neighbours sm_set_next_key_real_bit sm_set_prev_key_real_bit key (xs @ (key, r) # ys) c1 = Inr c2"
        "part_inv (xs @ (key, r') # ys) c2" "table_abs (xs @ (key, r') # ys) c2 = table_abs (xs @ (key, r') # ys) c1"
        "only_words c1 c2" "key_info c2 r' = key_info c1 r'"
        "?ki c2 xs = upd_last (set_nb True) (?ki c1 xs)" "?ki c2 ys = upd_hd (set_pb True) (?ki c1 ys)" by blast
    have eq: "?ki c1 xs = ?ki c xs" "?ki c1 ys = ?ki c ys" using c1(6) by auto
    have "key_info_ok (xs @ (key, r') # ys) c2"
      unfolding key_info_ok_split c2(5-7) c1(5) eq
      using ki key_info_ends [of xs c] key_info_ends [of ys c]
      by (intro links_replace [where x = "key_info c r"]) (auto simp: key_info_ok_split)
    moreover have "move_from_partition_to_shared_region H ti pinit a inc key (xs @ (key, r) # ys) c =
        Inr ((SUCCESS, Some off), xs @ (key, r') # ys, c2)"
      using True m r c1(1) c2(1)
      by (simp add: move_from_partition_to_shared_region_def move_from_btree_to_shared_region_def around)
    ultimately show ?thesis
      using c1(3,4) c2(2-4) by (auto simp: only_words_def)
  next
    case False
    from move_in_step [OF inv r H opt a, of ti pinit False False inc] obtain off r' c1
      where c1: "move_in_row H ti pinit a (key_info_bits False False) inc key r c = Inr ((Some off, r'), c1)"
        "part_inv (xs @ (key, r') # ys) c1" "table_abs (xs @ (key, r') # ys) c1 = table_abs (xs @ (key, r) # ys) c"
        "index c1 = (index c)(key \<mapsto> the (a_smeta a))" "key_info c1 r' = (True, False, False)"
        "\<forall>x\<in>set (xs @ ys). key_info c1 (snd x) = key_info c (snd x)" by blast
    have eq: "?ki c1 xs = ?ki c xs" "?ki c1 ys = ?ki c ys" using c1(6) by auto
    have "key_info_ok (xs @ (key, r') # ys) c1"
      unfolding key_info_ok_split c1(5) eq using ki links_arrive by (simp add: key_info_ok_split)
    moreover have "move_from_partition_to_shared_region H ti pinit a inc key (xs @ (key, r) # ys) c =
        Inr ((SUCCESS, Some off), xs @ (key, r') # ys, c1)"
      unfolding move_from_partition_to_shared_region_def if_not_P [OF False]
      using m r c1(1) plain by (simp add: move_from_hashmap_to_shared_region_def around)
    ultimately show ?thesis
      using c1(2-4) by auto
  qed
qed

lemma move_in_again:
  assumes inv: "part_inv (xs @ (key, r) # ys) c" and ki: "key_info_ok (xs @ (key, r) # ys) c" and r: "l_is_migrated r"
  shows "\<exists>c'. move_from_partition_to_shared_region H ti pinit a inc key (xs @ (key, r) # ys) c =
      Inr ((FAIL_ALREADY_IN_CXL, None), xs @ (key, r) # ys, c') \<and> part_inv (xs @ (key, r) # ys) c' \<and>
      key_info_ok (xs @ (key, r) # ys) c' \<and> table_abs (xs @ (key, r) # ys) c' = table_abs (xs @ (key, r) # ys) c \<and>
      index c' = index c"
proof -
  note s = part_inv_split [OF inv]
  note around = around_key [OF s(1,2)]
  let ?rows = "xs @ (key, r) # ys" and ?ki = "\<lambda>c. map (\<lambda>x. key_info c (snd x))"
  have m: "map_of ?rows key = Some r" by (rule map_of_mid [OF s(1)])
  have same: "key_info_ok ?rows c2 = key_info_ok ?rows c1" if "smetas c2 = smetas c1" for c1 c2 :: "('a, 'b, 'c) cxl"
    using that by (simp add: key_info_ok_def key_info_def)
  show ?thesis
  proof (cases "enable_phantom_detection H \<and> tableType ti = BTREE")
    case True
    from neighbours_step [OF inv set_bits(1,2) around(1,2)] obtain c1
      where c1: "update_neighbours sm_set_next_key_real_bit sm_set_prev_key_real_bit key ?rows c = Inr c1"
        "part_inv ?rows c1" "table_abs ?rows c1 = table_abs ?rows c" "only_words c c1" "key_info c1 r = key_info c r"
        "?ki c1 xs = upd_last (set_nb True) (?ki c xs)" "?ki c1 ys = upd_hd (set_pb True) (?ki c ys)" by blast
    from inc_ref_cnt_step [OF c1(2) r, of inc] obtain c2
      where c2: "inc_ref_cnt_via_row inc r c1 = Inr ((), c2)" "part_inv ?rows c2" "table_abs ?rows c2 = table_abs ?rows c1"
        "index c2 = index c1" "smetas c2 = smetas c1" by blast
    have "fst (key_info c r)" using r by (simp add: key_info_def Let_def)
    then have "key_info_ok ?rows c1"
      unfolding key_info_ok_split c1(5-7)
      using links_own [OF ki [unfolded key_info_ok_split]]
      by (intro links_replace [OF ki [unfolded key_info_ok_split]]) auto
    moreover have "move_from_partition_to_shared_region H ti pinit a inc key ?rows c =
        Inr ((FAIL_ALREADY_IN_CXL, None), ?rows, c2)"
      unfolding move_from_partition_to_shared_region_def if_P [OF True]
      using m r c1(1) c2(1) by (simp add: move_from_btree_to_shared_region_def)
    ultimately show ?thesis
      using c1 c2 same [OF c2(5)] by (auto simp: only_words_def)
  next
    case False
    from inc_ref_cnt_step [OF inv r, of inc] obtain c2
      where c2: "inc_ref_cnt_via_row inc r c = Inr ((), c2)" "part_inv ?rows c2" "table_abs ?rows c2 = table_abs ?rows c"
        "index c2 = index c" "smetas c2 = smetas c" by blast
    have "move_from_partition_to_shared_region H ti pinit a inc key ?rows c = Inr ((FAIL_ALREADY_IN_CXL, None), ?rows, c2)"
      unfolding move_from_partition_to_shared_region_def if_not_P [OF False]
      using m r c2(1) by (simp add: move_from_hashmap_to_shared_region_def)
    then show ?thesis
      using c2 same [OF c2(5)] ki by auto
  qed
qed


text \<open>A table of three rows: one in CXL memory, one of version 7 in the partition, one placeholder at the end.\<close>

definition demo_private :: "nat lrow" where
  "demo_private = (metadata_local_init True 20)\<lparr>l_tid := 7\<rparr>"

definition demo_rows :: "(nat, nat) rows" where
  "demo_rows = [(1, demo_row), (2, demo_private), (9, metadata_local_init True 0)]"

definition demo_alloc :: "nat alloc" where
  "demo_alloc = \<lparr>a_smeta = Some 8192, a_scc = Some (256, \<lparr>s_tid = 0, s_flags = 0, s_ref_cnt = 0, s_data = 99\<rparr>)\<rparr>"

definition demo_table :: table_info where
  "demo_table = \<lparr>value_size = 8, tableType = BTREE\<rparr>"

lemma new_row_ok: "row_ok (metadata_local_init b v) c"
  by (simp add: row_ok_def row_inv_def row_abs_def abs_local_def metadata_local_init_def is_write_locked_def)

lemma demo_private_inv: "row_ok demo_private c"
  by (simp add: row_ok_def row_inv_def row_abs_def abs_local_def metadata_local_init_def demo_private_def
      is_write_locked_def)

lemma demo_part: "part_inv demo_rows demo_cxl" "key_info_ok demo_rows demo_cxl" "fresh_alloc demo_alloc demo_rows"
proof -
  have "row_ok demo_row demo_cxl"
    using demo_inv(1) by (simp add: row_ok_def) (simp add: demo_row_def demo_cxl_def)
  moreover have "index demo_cxl = index_of demo_rows"
    by (auto simp: index_of_def demo_rows_def demo_cxl_def demo_row_def demo_private_def metadata_local_init_def)
  ultimately show "part_inv demo_rows demo_cxl"
    using demo_private_inv new_row_ok [of True 0 demo_cxl]
    by (auto simp: part_inv_def demo_rows_def apart_def demo_private_def metadata_local_init_def)
  show "key_info_ok demo_rows demo_cxl"
    by (simp add: key_info_ok_def demo_rows_def links_def link_def key_info_def no_row_def demo_exec demo_private_def
        metadata_local_init_def)
  show "fresh_alloc demo_alloc demo_rows"
    by (simp add: fresh_alloc_def demo_alloc_def demo_rows_def demo_row_def demo_private_def metadata_local_init_def)
qed

lemma demo_config: "coordinator_id (owner_helper m) < 16" "enable_scc (owner_helper m)"
  by (simp_all add: owner_helper_def)


section \<open>Moving out\<close>

lemma free_cxl_row_ok:
  "\<exists>c'. free_cxl_row H ti off p c = Inr c' \<and> smetas c' = smetas c \<and> sccs c' = sccs c \<and> index c' = index c"
  by (simp add: free_cxl_row_def free_wrapper_def)

lemma move_out_step:
  fixes c :: "('k :: linorder, 'v, 'p) cxl"
  assumes inv: "part_inv (xs @ (key, r) # ys) c" and r: "l_is_migrated r" "row_refs r c = 0" and H: "coordinator_id H < 16"
  shows "\<exists>r' off c'. move_out_row H r c = Inr (Some (r', off), c') \<and> index c' = index c \<and> \<not> l_is_migrated r' \<and>
    l_migrated_row r = Some (the (l_migrated_row r)) \<and>
    (\<forall>c2 :: ('k, 'v, 'p) cxl. smetas c2 = smetas c' \<longrightarrow> sccs c2 = sccs c' \<longrightarrow> index c2 = (index c)(key := None) \<longrightarrow>
      part_inv (xs @ (key, r') # ys) c2 \<and> table_abs (xs @ (key, r') # ys) c2 = table_abs (xs @ (key, r) # ys) c \<and>
      (\<forall>x\<in>set (xs @ ys). key_info c2 (snd x) = key_info c (snd x)))"
proof -
  note s = part_inv_split [OF inv]
  from move_out_row_ok [OF s(3) r(1) H] r(2) obtain r' off c'
    where run: "move_out_row H r c = Inr (Some (r', off), c')" and idx: "index c' = index c"
      and r': "l_scc_data r = Some off" "row_ok r' c'" "row_abs r' c' = row_abs r c" "\<not> l_is_migrated r'"
        "l_scc_data r' = Some off"
      and c': "\<And>k. l_migrated_row r \<noteq> Some k \<Longrightarrow> smetas c' k = smetas c k" "\<And>k. k \<noteq> off \<Longrightarrow> sccs c' k = sccs c k"
    by auto
  from row_ok_ptr [OF s(3) r(1)] obtain p where p: "l_migrated_row r = Some p" by blast
  have "part_inv (xs @ (key, r') # ys) c2 \<and> table_abs (xs @ (key, r') # ys) c2 = table_abs (xs @ (key, r) # ys) c \<and>
      (\<forall>x\<in>set (xs @ ys). key_info c2 (snd x) = key_info c (snd x))"
    if c2: "smetas c2 = smetas c'" "sccs c2 = sccs c'" "index c2 = (index c)(key := None)"
    for c2 :: "('k, 'v, 'p) cxl"
  proof -
    have "frame r' c' c2" using c2 by (simp add: frame_def)
    from frame_row [OF r'(2) this] have ok: "row_ok r' c2" "row_abs r' c2 = row_abs r c" using r'(3) by auto
    have fr: "frame (snd x) c c2" if "x \<in> set (xs @ ys)" for x
      using s(6) that r(1) r'(1) c' c2 by (fastforce simp: frame_def apart_def)
    have ap: "\<forall>x\<in>set (xs @ ys). apart r' (snd x)"
      using s(6) r' by (auto simp: apart_def)
    have "key_info c2 (snd x) = key_info c (snd x)" if x: "x \<in> set (xs @ ys)" for x
    proof -
      have "row_ok (snd x) c" "apart r (snd x)" using s(5,6) x by blast+
      then show ?thesis
        using row_ok_ptr [of "snd x" c] r(1) c'(1) c2(1) by (auto simp: key_info_def Let_def apart_def)
    qed
    then show ?thesis
      using replace_row [OF inv _ ok(1) ap ok(2)] fr c2(3) r'(4) by auto
  qed
  then show ?thesis
    using run idx r'(4) p by auto
qed

lemma index_remove_ok:
  "idx key = Some p \<Longrightarrow> index_remove HASHMAP key (Some p) idx = Inr (True, idx(key := None))"
  "idx key = Some p \<Longrightarrow> index_remove BTREE key x idx = Inr (True, idx(key := None))"
  by (simp_all add: index_remove_def)

lemma row_refs_cong: "sccs c' = sccs c \<Longrightarrow> row_refs r c' = row_refs r c" "row_refs (r\<lparr>l_is_valid := b\<rparr>) c = row_refs r c"
  by (simp_all add: row_refs_def)

lemma mark_valid_ok:
  assumes inv: "part_inv (xs @ (key, r) # ys) c" and r: "l_is_migrated r"
  shows "part_inv (xs @ (key, r\<lparr>l_is_valid := b\<rparr>) # ys) c"
    "table_abs (xs @ (key, r\<lparr>l_is_valid := b\<rparr>) # ys) c = table_abs (xs @ (key, r) # ys) c"
proof -
  note s = part_inv_split [OF inv]
  have "row_abs (r\<lparr>l_is_valid := b\<rparr>) c = row_abs r c" using r by (simp add: row_abs_def)
  moreover from this have "row_ok (r\<lparr>l_is_valid := b\<rparr>) c" using s(3) r by (simp add: row_ok_def row_inv_def)
  moreover have "index c = (index c)(key := if l_is_migrated (r\<lparr>l_is_valid := b\<rparr>) then l_migrated_row (r\<lparr>l_is_valid := b\<rparr>) else None)"
    using s(7) by auto
  ultimately show "part_inv (xs @ (key, r\<lparr>l_is_valid := b\<rparr>) # ys) c"
    "table_abs (xs @ (key, r\<lparr>l_is_valid := b\<rparr>) # ys) c = table_abs (xs @ (key, r) # ys) c"
    using replace_row [OF inv, of c "r\<lparr>l_is_valid := b\<rparr>"] s(6) by (auto simp: frame_def apart_def)
qed

lemma key_info_valid [simp]: "key_info c (r\<lparr>l_is_valid := b\<rparr>) = key_info c r"
  by (simp add: key_info_def)

lemma move_out_hash:
  fixes c :: "('k :: linorder, 'v, 'p) cxl"
  assumes inv: "part_inv (xs @ (key, r) # ys) c" and r: "l_is_migrated r" and H: "coordinator_id H < 16"
  shows "\<exists>rows' c'. move_from_hashmap_to_partition H ti key (xs @ (key, r) # ys) c = Inr (row_refs r c = 0, rows', c') \<and>
    part_inv rows' c' \<and> table_abs rows' c' = table_abs (xs @ (key, r) # ys) c \<and>
    index c' = (if row_refs r c = 0 then (index c)(key := None) else index c)"
proof -
  note s = part_inv_split [OF inv]
  note around = around_key [OF s(1,2)]
  have m: "map_of (xs @ (key, r) # ys) key = Some r" by (rule map_of_mid [OF s(1)])
  show ?thesis
  proof (cases "row_refs r c = 0")
    case True
    from move_out_step [OF inv r True H] obtain r' off c1
      where c1: "move_out_row H r c = Inr (Some (r', off), c1)" "index c1 = index c"
        "l_migrated_row r = Some (the (l_migrated_row r))"
        and post: "\<And>c2 :: ('k, 'v, 'p) cxl. smetas c2 = smetas c1 \<Longrightarrow> sccs c2 = sccs c1 \<Longrightarrow> index c2 = (index c)(key := None) \<Longrightarrow>
          part_inv (xs @ (key, r') # ys) c2 \<and> table_abs (xs @ (key, r') # ys) c2 = table_abs (xs @ (key, r) # ys) c" by blast
    have "index c key = Some (the (l_migrated_row r))"
      using s(7) r c1(3) by simp
    then have rem: "index_remove (tableType ti) key (l_migrated_row r) (index c) = Inr (True, (index c)(key := None))"
      using index_remove_ok [of "index c" key "the (l_migrated_row r)"] c1(3) by (cases "tableType ti") auto
    obtain c2 where c2: "free_cxl_row H ti off (the (l_migrated_row r)) (c1\<lparr>index := (index c)(key := None)\<rparr>) = Inr c2"
      "smetas c2 = smetas c1" "sccs c2 = sccs c1" "index c2 = (index c)(key := None)"
      using free_cxl_row_ok [of H ti off "the (l_migrated_row r)" "c1\<lparr>index := (index c)(key := None)\<rparr>"] by auto
    have "move_from_hashmap_to_partition H ti key (xs @ (key, r) # ys) c = Inr (True, xs @ (key, r') # ys, c2)"
      using m r c1(1,2) rem c2(1) by (simp add: move_from_hashmap_to_partition_def around)
    then show ?thesis
      using post [OF c2(2-4)] c2(4) True by auto
  next
    case False
    then have "move_out_row H r c = Inr (None, c)"
      using move_out_row_ok [OF s(3) r H] by (auto simp: word_neq_0_conv)
    then have "move_from_hashmap_to_partition H ti key (xs @ (key, r) # ys) c = Inr (False, xs @ (key, r) # ys, c)"
      using m r by (simp add: move_from_hashmap_to_partition_def)
    then show ?thesis using False inv by auto
  qed
qed

lemma move_out_btree:
  fixes c :: "('k :: linorder, 'v, 'p) cxl"
  assumes inv: "part_inv (xs @ (key, r) # ys) c" and ki: "key_info_ok (xs @ (key, r) # ys) c" and r: "l_is_migrated r"
    and H: "coordinator_id H < 16" and ti: "tableType ti = BTREE"
  shows "\<exists>rows' c'. move_from_btree_to_partition H ti key (xs @ (key, r) # ys) c = Inr (row_refs r c = 0, rows', c') \<and>
    part_inv rows' c' \<and> key_info_ok rows' c' \<and> table_abs rows' c' = table_abs (xs @ (key, r) # ys) c \<and>
    index c' = (if row_refs r c = 0 then (index c)(key := None) else index c)"
proof -
  let ?rows = "xs @ (key, r) # ys" and ?ki = "\<lambda>c. map (\<lambda>x. key_info c (snd x))"
  note around = around_key [OF part_inv_split(1,2) [OF inv]]
  have m: "map_of ?rows key = Some r" by (rule map_of_mid [OF part_inv_split(1) [OF inv]])
  from neighbours_step [OF inv set_bits(3,4) around(1,2)] obtain c1
    where c1: "update_neighbours sm_clear_next_key_real_bit sm_clear_prev_key_real_bit key ?rows c = Inr c1"
      "part_inv ?rows c1" "table_abs ?rows c1 = table_abs ?rows c" "only_words c c1" "key_info c1 r = key_info c r"
      "?ki c1 xs = upd_last (set_nb False) (?ki c xs)" "?ki c1 ys = upd_hd (set_pb False) (?ki c ys)" by blast
  define r0 where "r0 = (if ndebug H then r else r\<lparr>l_is_valid := True\<rparr>)"
  have r0: "part_inv (xs @ (key, r0) # ys) c1" "table_abs (xs @ (key, r0) # ys) c1 = table_abs ?rows c"
    "l_is_migrated r0" "key_info c1 r0 = key_info c r" "row_refs r0 c1 = row_refs r c" "index c1 = index c"
  proof -
    show "part_inv (xs @ (key, r0) # ys) c1" "table_abs (xs @ (key, r0) # ys) c1 = table_abs ?rows c"
      using mark_valid_ok [OF c1(2) r, of True] c1(2,3) by (simp_all add: r0_def)
    show "l_is_migrated r0" "key_info c1 r0 = key_info c r"
      using r c1(5) by (simp_all add: r0_def)
    show "row_refs r0 c1 = row_refs r c" "index c1 = index c"
      using c1(4) row_refs_cong(1) [of c1 c r] by (simp_all add: r0_def only_words_def row_refs_cong(2))
  qed
  note s = part_inv_split [OF r0(1)]
  show ?thesis
  proof (cases "row_refs r c = 0")
    case True
    have refs: "row_refs r0 c1 = 0" using True r0(5) by simp
    from move_out_step [OF r0(1,3) refs H] obtain r' off c2
      where c2: "move_out_row H r0 c1 = Inr (Some (r', off), c2)" "index c2 = index c1" "\<not> l_is_migrated r'"
        "l_migrated_row r0 = Some (the (l_migrated_row r0))"
        and post: "\<And>c3 :: ('k, 'v, 'p) cxl. smetas c3 = smetas c2 \<Longrightarrow> sccs c3 = sccs c2 \<Longrightarrow> index c3 = (index c1)(key := None) \<Longrightarrow>
          part_inv (xs @ (key, r') # ys) c3 \<and> table_abs (xs @ (key, r') # ys) c3 = table_abs (xs @ (key, r0) # ys) c1 \<and>
          (\<forall>x\<in>set (xs @ ys). key_info c3 (snd x) = key_info c1 (snd x))" by blast
    obtain c3 where c3: "free_cxl_row H ti off (the (l_migrated_row r0)) c2 = Inr c3"
      "smetas c3 = smetas c2" "sccs c3 = sccs c2" "index c3 = index c1"
      using free_cxl_row_ok [of H ti off "the (l_migrated_row r0)" c2] c2(2) by auto
    have "index c1 key = Some (the (l_migrated_row r0))"
      using s(7) r0(3) c2(4) by simp
    then have rem: "index_remove BTREE key None (index c3) = Inr (True, (index c1)(key := None))"
      unfolding c3(4) by (rule index_remove_ok(2))
    define c4 where "c4 = c3\<lparr>index := (index c1)(key := None)\<rparr>"
    have p4: "part_inv (xs @ (key, r') # ys) c4" "table_abs (xs @ (key, r') # ys) c4 = table_abs (xs @ (key, r0) # ys) c1"
      "\<forall>x\<in>set (xs @ ys). key_info c4 (snd x) = key_info c1 (snd x)"
      using post [of c4] c3 by (auto simp: c4_def)
    have "snd (key_info c4 r') = (False, False)" using c2(3) by (simp add: key_info_def Let_def)
    moreover have "?ki c4 xs = ?ki c1 xs" "?ki c4 ys = ?ki c1 ys" using p4(3) by auto
    ultimately have "key_info_ok (xs @ (key, r') # ys) c4"
      unfolding key_info_ok_split c1(6,7)
      by (simp only: c1(6,7)) (rule links_replace [OF ki [unfolded key_info_ok_split]], auto)
    moreover have "move_from_btree_to_partition H ti key ?rows c = Inr (True, xs @ (key, r') # ys, c4)"
      using m c1(1) c2(1) c3(1) rem r0(3) ti unfolding r0_def
      by (simp add: move_from_btree_to_partition_def around c4_def Let_def)
    ultimately show ?thesis
      using p4 r0(2,6) True by (auto simp: c4_def)
  next
    case False
    then have "move_out_row H r0 c1 = Inr (None, c1)"
      using move_out_row_ok [OF s(3) r0(3) H] r0(5) by (auto simp: word_neq_0_conv)
    then have "move_from_btree_to_partition H ti key ?rows c = Inr (False, xs @ (key, r0) # ys, c1)"
      using m c1(1) r0(3) unfolding r0_def by (simp add: move_from_btree_to_partition_def around Let_def)
    moreover have "key_info_ok (xs @ (key, r0) # ys) c1"
      unfolding key_info_ok_split c1(6,7) r0(4)
      using links_own [OF ki [unfolded key_info_ok_split]]
      by (intro links_replace [OF ki [unfolded key_info_ok_split]]) auto
    ultimately show ?thesis using False r0 by auto
  qed
qed

text \<open>
  C20: Moving a migrated row out of CXL memory: the call returns, and reports success exactly when no
  transaction of another host holds a reference. Either way no transaction can tell the difference
  on any row (lock, version, validity and value are kept), and on success the row has left the CXL index.
\<close>

theorem move_out_refines:
  assumes "part_inv rows c" "key_info_ok rows c" "map_of rows key = Some r" "l_is_migrated r" "coordinator_id H < 16"
  shows "\<exists>rows' c'. move_from_shared_region_to_partition H ti key rows c = Inr (row_refs r c = 0, rows', c') \<and>
    part_inv rows' c' \<and> table_abs rows' c' = table_abs rows c \<and>
    index c' = (if row_refs r c = 0 then (index c)(key := None) else index c)"
proof -
  obtain xs ys where rows: "rows = xs @ (key, r) # ys"
    using part_inv_key [OF assms(1,3)] by metis
  show ?thesis
  proof (cases "enable_phantom_detection H \<and> tableType ti = BTREE")
    case True
    then show ?thesis
      using move_out_btree [of xs key r ys c H ti] assms
      unfolding rows move_from_shared_region_to_partition_def if_P [OF True] by blast
  next
    case False
    show ?thesis
      using move_out_hash [of xs key r ys c H ti] assms
      unfolding rows move_from_shared_region_to_partition_def if_not_P [OF False] by blast
  qed
qed

theorem move_out_refines_witness:
  "\<exists>rows' c'. move_from_shared_region_to_partition (owner_helper TwoPLPashaSCCWriteThrough) demo_table 1 demo_rows demo_cxl =
      Inr (True, rows', c') \<and> index c' 1 = None \<and> table_abs rows' c' = table_abs demo_rows demo_cxl"
proof -
  have m: "map_of demo_rows 1 = Some demo_row" "l_is_migrated demo_row" "row_refs demo_row demo_cxl = 0"
    by (simp_all add: demo_rows_def demo_row_def row_refs_def demo_cxl_def demo_data_def)
  show ?thesis
    using move_out_refines [OF demo_part(1,2) m(1,2) demo_config(1), of TwoPLPashaSCCWriteThrough demo_table] m(3) by auto
qed

section \<open>Inserting and deleting\<close>

lemma write_lock_frame:
  assumes r: "row_ok r c" and H: "coordinator_id H < 16" and run: "write_lock H r c = Inr (((tid, ok), r'), c')"
  shows "(\<forall>k. l_is_migrated r \<longrightarrow> l_migrated_row r \<noteq> Some k \<longrightarrow> smetas c' k = smetas c k) \<and>
    (\<not> l_is_migrated r \<longrightarrow> c' = c) \<and> sccs c' = sccs c \<and> index c' = index c \<and> key_info c' r' = key_info c r"
proof (cases "l_is_migrated r")
  case True
  have inv: "row_inv r c" using r by (simp add: row_ok_def)
  from row_inv_migratedE [OF inv True] obtain p w d
    where p: "l_migrated_row r = Some p" and at: "shared_at c p w d" by metis
  define w0 where "w0 = fst (prepare_read (manager H) (coordinator_id H) (upd_fld 63 (Suc 0) 1 w))"
  have w: "bit w0 k = bit w k" if "k = 38 \<or> k = 39" for k
    using H that by (auto simp: w0_def prepare_read_low bit_upd_fld)
  have at': "smetas c p = Some w" "sccs c (sm_get_scc_data w) = Some d"
    using at by (simp_all add: shared_at_def)
  have lv: "bit w' 38 = bit w 38 \<and> bit w' 39 = bit w 39 \<and> same_place r s"
    if "local_view w0 d r = Some (t, w', s)" for t w' s
    using that w [of 38] w [of 39]
    by (simp add: local_view_def split: if_splits) (clarsimp simp: same_place_def sm_writes(6) bit_upd_fld)+
  have tw: "bit w'' 38 = bit w' 38 \<and> bit w'' 39 = bit w' 39" if "sm_try_write w' = Some w''" for w' w'' :: u64
    using that by (auto simp: sm_try_write_fields bit_upd_fld split: if_splits)
  let ?c = "\<lambda>w2. c\<lparr>smetas := (smetas c)(p \<mapsto> sm_unlock w2), sccs := (sccs c)(sm_get_scc_data w \<mapsto> d)\<rparr>"
  note run' = run [unfolded write_lock_def, simplified True p latched_at [OF at] Let_def w0_def [symmetric]]
  have "\<exists>w2. bit w2 38 = bit w 38 \<and> bit w2 39 = bit w 39 \<and> same_place r r' \<and> c' = ?c w2"
  proof (cases "local_view w0 d r")
    case None
    then show ?thesis using run' w by (intro exI [of _ w0]) simp
  next
    case (Some x)
    then obtain t w1 s where x: "local_view w0 d r = Some (t, w1, s)" by (cases x) auto
    show ?thesis
      using run' x lv [OF x] tw [of w1]
      by (cases "sm_try_write w1") (auto intro: exI [of _ w1])
  qed
  then obtain w2 where "bit w2 38 = bit w 38" "bit w2 39 = bit w 39" "same_place r r'" "c' = ?c w2" by blast
  then show ?thesis
    using True p at' by (auto simp: key_info_def same_place_def sm_reads sm_writes bit_upd_fld map_upd_triv)
next
  case False
  then show ?thesis
    using run by (auto simp: write_lock_def Let_def key_info_def split: if_splits option.splits)
qed

lemma write_lock_step:
  assumes inv: "part_inv (xs @ (key, r) # ys) c" and H: "coordinator_id H < 16"
  shows "\<exists>tid ok r' c'. write_lock H r c = Inr (((tid, ok), r'), c') \<and> part_inv (xs @ (key, r') # ys) c' \<and>
    table_abs (xs @ (key, r') # ys) c' = table_abs xs c @
      (key, if ok then (row_abs r c)\<lparr>a_writer := True\<rparr> else row_abs r c) # table_abs ys c \<and>
    map (\<lambda>x. key_info c' (snd x)) (xs @ (key, r') # ys) = map (\<lambda>x. key_info c (snd x)) (xs @ (key, r) # ys) \<and>
    (ok \<longrightarrow> \<not> a_writer (row_abs r c) \<and> a_readers (row_abs r c) = 0) \<and> index c' = index c"
proof -
  note s = part_inv_split [OF inv]
  have ri: "row_inv r c" using s(3) by (simp add: row_ok_def)
  obtain tid ok v r' c' where lr: "lock_and_read tid_try_write sm_try_write H r c = Inr (((tid, ok, v), r'), c')"
    using lock_and_read_returns [OF ri] by (metis prod.collapse)
  then have run: "write_lock H r c = Inr (((tid, ok), r'), c')"
    by (simp add: lock_without_read drop_data_def)
  from wk.lock_correct [OF ri H lr]
  have post: "row_inv r' c'" "same_place r r'" "lock_post write_free (\<lambda>n. n) (\<lambda>_. True) (row_abs r c) ok (row_abs r' c')" by auto
  note f = write_lock_frame [OF s(3) H run]
  have ok': "row_ok r' c'"
    using post(1,2) s(3) f by (auto simp: row_ok_def same_place_def)
  have fr: "\<forall>x\<in>set (xs @ ys). frame (snd x) c c'"
    using f s(6) by (fastforce simp: frame_def apart_def)
  have ap: "\<forall>x\<in>set (xs @ ys). apart r' (snd x)"
    using s(6) post(2) by (simp add: apart_def same_place_def)
  have idx: "index c' = (index c)(key := if l_is_migrated r' then l_migrated_row r' else None)"
    using f s(7) post(2) by (auto simp: same_place_def)
  have "key_info c' (snd x) = key_info c (snd x)" if x: "x \<in> set (xs @ ys)" for x
  proof -
    have "row_ok (snd x) c" "apart r (snd x)" using s(5,6) x by blast+
    then show ?thesis
      using row_ok_ptr [of "snd x" c] f by (cases "l_is_migrated r") (auto simp: key_info_def Let_def apart_def)
  qed
  moreover have "row_abs r' c' = (if ok then (row_abs r c)\<lparr>a_writer := True\<rparr> else row_abs r c)"
    "ok \<longrightarrow> \<not> a_writer (row_abs r c) \<and> a_readers (row_abs r c) = 0"
    using post(3) by (auto simp: lock_post_def write_free_def split: if_splits)
  ultimately show ?thesis
    using run change_row [OF inv fr ok' ap idx] f by auto
qed

lemma delete_step:
  assumes inv: "part_inv (xs @ (key, r) # ys) c" and ki: "key_info_ok (xs @ (key, r) # ys) c"
    and ti: "tableType ti = BTREE"
    and valid: "l_is_migrated r \<Longrightarrow> ndebug H \<or> is_local_delete = a_valid (row_abs r c)"
  shows "\<exists>x c'. delete_and_update_next_key_info H ti key is_local_delete (xs @ (key, r) # ys) c = Inr (x, xs @ ys, c') \<and>
    part_inv (xs @ ys) c' \<and> key_info_ok (xs @ ys) c' \<and> table_abs (xs @ ys) c' = table_abs (xs @ ys) c \<and>
    index c' = (index c)(key := None)"
proof -
  let ?rows = "xs @ (key, r) # ys" and ?ki = "\<lambda>c. map (\<lambda>x. key_info c (snd x))"
  note around = around_key [OF part_inv_split(1,2) [OF inv]]
  have m: "map_of ?rows key = Some r" by (rule map_of_mid [OF part_inv_split(1) [OF inv]])
  from neighbours_step [OF inv set_bits(3,4) around(1,2)] obtain c1
    where c1: "update_neighbours sm_clear_next_key_real_bit sm_clear_prev_key_real_bit key ?rows c = Inr c1"
      "part_inv ?rows c1" "table_abs ?rows c1 = table_abs ?rows c" "only_words c c1"
      "?ki c1 xs = upd_last (set_nb False) (?ki c xs)" "?ki c1 ys = upd_hd (set_pb False) (?ki c ys)" by blast
  have idx1: "index c1 = index c" using c1(4) by (simp add: only_words_def)
  have abs1: "table_abs (xs @ ys) c1 = table_abs (xs @ ys) c"
    using c1(3) by (simp add: table_abs_def)
  have ki1: "key_info_ok (xs @ ys) c1"
    unfolding key_info_ok_def map_append c1(5,6) using ki by (intro links_delete) (simp add: key_info_ok_def)
  note s = part_inv_split [OF c1(2)]
  show ?thesis
  proof (cases "l_is_migrated r")
    case True
    have ri: "row_inv r c1" using s(3) by (simp add: row_ok_def)
    from row_inv_migratedE [OF ri True] obtain p w d where p: "l_migrated_row r = Some p" and at: "shared_at c1 p w d"
      and sc: "l_scc_data r = Some (sm_get_scc_data w)" and abs: "row_abs r c1 = abs_shared w d" by metis
    have "row_abs r c = abs_shared w d" using c1(3) abs by (simp add: table_abs_def)
    then have v: "ndebug H \<or> is_local_delete = get_flag 0 d"
      using valid [OF True] by (simp add: abs_shared_def)
    have w: "sm_unlock (upd_fld 63 1 1 w) = w" "smetas c1 p = Some w"
      using at sm_unlock_lock by (auto simp: shared_at_def)
    have off: "sm_get_scc_data (upd_fld 63 (Suc 0) 1 w) = sm_get_scc_data w" by (simp add: field_calculus)
    define d' where "d' = (if is_local_delete then clear_flag 0 d else d)"
    define c2 where "c2 = c1\<lparr>sccs := (sccs c1)(sm_get_scc_data w \<mapsto> d')\<rparr>"
    have lat: "latched (l_migrated_row r) c1 (\<lambda>w d. if is_local_delete
          then dcheck (ndebug H) (get_flag 0 d) (Inr (sm_get_scc_data w, w, clear_flag 0 d))
          else dcheck (ndebug H) (\<not> get_flag 0 d) (Inr (sm_get_scc_data w, w, d))) = Inr (sm_get_scc_data w, c2)"
      using v w off by (auto simp: p latched_at [OF at] dcheck_def c2_def d'_def map_upd_triv)
    obtain c3 where c3: "free_cxl_row H ti (sm_get_scc_data w) p c2 = Inr c3"
      "smetas c3 = smetas c2" "sccs c3 = sccs c2" "index c3 = index c2"
      using free_cxl_row_ok [of H ti "sm_get_scc_data w" p c2] by auto
    have "index c3 key = Some p" using s(7) True p c3(4) by (simp add: c2_def)
    then have rem: "index_remove BTREE key None (index c3) = Inr (True, (index c3)(key := None))"
      by (rule index_remove_ok(2))
    define c4 where "c4 = c3\<lparr>index := (index c3)(key := None)\<rparr>"
    have run: "delete_and_update_next_key_info H ti key is_local_delete ?rows c = Inr (Some (sm_get_scc_data w), xs @ ys, c4)"
      using m c1(1) True lat c3(1) rem ti p
      by (simp add: delete_and_update_next_key_info_def around c4_def)
    have idx: "index c4 = (index c1)(key := None)"
      using c3(4) by (simp add: c4_def c2_def)
    have fr: "\<forall>x\<in>set (xs @ ys). frame (snd x) c1 c4"
      using s(6) sc c3 by (fastforce simp: frame_def c4_def c2_def apart_def)
    have "key_info_ok (xs @ ys) c4"
      using ki1 c3(2) by (simp add: key_info_ok_def key_info_def c4_def c2_def)
    then show ?thesis
      using run drop_row [OF c1(2) fr idx] abs1 idx idx1 by auto
  next
    case False
    have "delete_and_update_next_key_info H ti key is_local_delete ?rows c = Inr (None, xs @ ys, c1)"
      using m c1(1) False by (simp add: delete_and_update_next_key_info_def around)
    moreover have idx: "index c1 = (index c1)(key := None)" using s(7) False by auto
    ultimately show ?thesis
      using drop_row [OF c1(2) _ idx] abs1 idx1 ki1 by (auto simp: frame_def)
  qed
qed

lemma insert_gap:
  assumes inv: "part_inv (xs @ ys) c" and ki: "key_info_ok (xs @ ys) c"
    and k: "\<forall>x\<in>set xs. fst x < key" "\<forall>y\<in>set ys. key < fst y"
  shows "\<exists>c'. update_neighbours sm_clear_next_key_real_bit sm_clear_prev_key_real_bit key (xs @ ys) c = Inr c' \<and>
    part_inv (xs @ (key, metadata_local_init False value) # ys) c' \<and>
    key_info_ok (xs @ (key, metadata_local_init False value) # ys) c' \<and>
    table_abs (xs @ (key, metadata_local_init False value) # ys) c' =
      table_abs xs c @ (key, abs_local (metadata_local_init False value)) # table_abs ys c"
proof -
  let ?ki = "\<lambda>c. map (\<lambda>x. key_info c (snd x))"
  have ok: "rows_ok (xs @ ys) c" using inv by (simp add: part_inv_rows_ok)
  from update_neighbours_ok [OF ok set_bits(3,4) around_gap(1,2) [OF k]] obtain c1
    where c1: "update_neighbours sm_clear_next_key_real_bit sm_clear_prev_key_real_bit key (xs @ ys) c = Inr c1"
      "only_words c c1" "?ki c1 xs = upd_last (set_nb False) (?ki c xs)" "?ki c1 ys = upd_hd (set_pb False) (?ki c ys)" by blast
  have "part_inv (xs @ ys) c1"
    using inv only_words_rows_ok [OF c1(2)] c1(2) by (auto simp: part_inv_rows_ok only_words_def)
  then have p: "part_inv (xs @ (key, metadata_local_init False value) # ys) c1"
    using k new_row_ok by (intro add_row) (simp_all add: metadata_local_init_def)
  have "key_info_ok (xs @ (key, metadata_local_init False value) # ys) c1"
    unfolding key_info_ok_split c1(3,4)
    using ki by (intro links_insert) (simp_all add: key_info_ok_def key_info_def metadata_local_init_def)
  moreover have "table_abs (xs @ ys) c1 = table_abs (xs @ ys) c"
    using only_words_frame [OF c1(2)] by (intro table_abs_frame [OF ok]) auto
  then have "table_abs (xs @ (key, metadata_local_init False value) # ys) c1 =
      table_abs xs c @ (key, abs_local (metadata_local_init False value)) # table_abs ys c"
    by (simp add: table_abs_def row_abs_def metadata_local_init_def)
  ultimately show ?thesis using c1(1) p by auto
qed

lemma map_of_mid_abs:
  assumes "\<forall>x\<in>set xs. fst x \<noteq> key"
  shows "map_of (table_abs xs c @ (key, v) # table_abs ys c) = (map_of (table_abs (xs @ ys) c))(key \<mapsto> v)"
proof -
  have "map_of (table_abs xs c) key = None"
    using assms by (auto simp: table_abs_def map_of_eq_None_iff)
  then show ?thesis
    by (auto simp: table_abs_def map_add_def fun_eq_iff split: option.split)
qed

lemma table_abs_append: "table_abs (xs @ ys) c = table_abs xs c @ table_abs ys c"
  by (simp add: table_abs_def)

lemma insert_step:
  assumes inv: "part_inv rows c" and ki: "key_info_ok rows c" and k: "map_of rows key = None"
    and nx: "next_row key rows = Some (nk, nr)" and H: "coordinator_id H < 16"
  shows "\<exists>ok x rows' c'. insert_and_update_next_key_info H key v0 req rows c = Inr ((ok, x), rows', c') \<and>
    part_inv rows' c' \<and> key_info_ok rows' c' \<and> (\<not> req \<longrightarrow> ok) \<and>
    (req \<and> ok \<longrightarrow> \<not> a_writer (row_abs nr c) \<and> a_readers (row_abs nr c) = 0) \<and>
    map_of (table_abs rows' c') =
      (if \<not> ok then map_of (table_abs rows c)
       else if req then (map_of (table_abs rows c))(nk \<mapsto> (row_abs nr c)\<lparr>a_writer := True\<rparr>,
         key \<mapsto> abs_local (metadata_local_init False v0))
       else (map_of (table_abs rows c))(key \<mapsto> abs_local (metadata_local_init False v0)))"
proof -
  let ?new = "metadata_local_init False v0"
  from inv have "sorted_wrt (\<lambda>x y. fst x < fst y \<and> apart (snd x) (snd y)) rows" by (simp add: part_inv_def)
  from sorted_gap [OF this k] obtain xs ys
    where rows: "rows = xs @ ys" and lt: "\<forall>x\<in>set xs. fst x < key" "\<forall>y\<in>set ys. key < fst y" by metis
  have "hd_opt ys = Some (nk, nr)" using nx around_gap(2) [OF lt] rows by simp
  then obtain zs where ys: "ys = (nk, nr) # zs"
    by (cases ys) (auto simp: hd_opt_def)
  have ne: "\<forall>x\<in>set xs. fst x \<noteq> key" "\<forall>x\<in>set xs. fst x \<noteq> nk"
    using lt ys by auto
  show ?thesis
  proof (cases req)
    case False
    note inv0 = inv [unfolded rows] and ki0 = ki [unfolded rows]
    from insert_gap [OF inv0 ki0 lt, of v0] obtain c1
      where c1: "update_neighbours sm_clear_next_key_real_bit sm_clear_prev_key_real_bit key (xs @ ys) c = Inr c1"
        "part_inv (xs @ (key, ?new) # ys) c1" "key_info_ok (xs @ (key, ?new) # ys) c1"
        "table_abs (xs @ (key, ?new) # ys) c1 = table_abs xs c @ (key, abs_local ?new) # table_abs ys c" by blast
    have "insert_and_update_next_key_info H key v0 req rows c = Inr ((True, None), xs @ (key, ?new) # ys, c1)"
      using k nx False c1(1) around_gap(3) [OF lt]
      unfolding insert_and_update_next_key_info_def rows by simp
    then show ?thesis
      using c1(2-4) map_of_mid_abs [OF ne(1)] False rows by auto
  next
    case True
    note inv' = inv [unfolded rows ys] and ki' = ki [unfolded rows ys]
    from write_lock_step [OF inv' H] obtain tid ok r' c1
      where wl: "write_lock H nr c = Inr (((tid, ok), r'), c1)" "part_inv (xs @ (nk, r') # zs) c1"
        "table_abs (xs @ (nk, r') # zs) c1 = table_abs xs c @
          (nk, if ok then (row_abs nr c)\<lparr>a_writer := True\<rparr> else row_abs nr c) # table_abs zs c"
        "map (\<lambda>x. key_info c1 (snd x)) (xs @ (nk, r') # zs) = map (\<lambda>x. key_info c (snd x)) (xs @ (nk, nr) # zs)"
        "ok \<longrightarrow> \<not> a_writer (row_abs nr c) \<and> a_readers (row_abs nr c) = 0" by blast
    have ki1: "key_info_ok (xs @ (nk, r') # zs) c1"
      using ki' wl(4) by (simp only: key_info_ok_def)
    note s' = part_inv_split [OF inv']
    have sr: "set_row nk r' rows = xs @ (nk, r') # zs"
      using around_key(3) [OF s'(1,2)] rows ys by simp
    have lt': "\<forall>y\<in>set ((nk, r') # zs). key < fst y" using lt(2) ys by auto
    have abs1: "map_of (table_abs (xs @ (nk, r') # zs) c1) =
        (if ok then (map_of (table_abs rows c))(nk \<mapsto> (row_abs nr c)\<lparr>a_writer := True\<rparr>) else map_of (table_abs rows c))"
    proof -
      have eq: "table_abs rows c = table_abs xs c @ (nk, row_abs nr c) # table_abs zs c"
        by (simp add: rows ys table_abs_def)
      show ?thesis
        unfolding wl(3) eq map_of_mid_abs [OF ne(2)] by simp
    qed
    show ?thesis
    proof (cases ok)
      case ok: True
      from insert_gap [OF wl(2) ki1 lt(1) lt', of v0] obtain c2
        where c2: "update_neighbours sm_clear_next_key_real_bit sm_clear_prev_key_real_bit key (xs @ (nk, r') # zs) c1 = Inr c2"
          "part_inv (xs @ (key, ?new) # (nk, r') # zs) c2" "key_info_ok (xs @ (key, ?new) # (nk, r') # zs) c2"
          "table_abs (xs @ (key, ?new) # (nk, r') # zs) c2 = table_abs xs c1 @ (key, abs_local ?new) # table_abs ((nk, r') # zs) c1"
        by blast
      have "insert_and_update_next_key_info H key v0 req rows c =
          Inr ((True, Some nk), xs @ (key, ?new) # (nk, r') # zs, c2)"
        using k nx True wl(1) ok c2(1) around_gap(3) [OF lt(1) lt'] sr
        by (simp add: insert_and_update_next_key_info_def)
      moreover have "map_of (table_abs (xs @ (key, ?new) # (nk, r') # zs) c2) =
          (map_of (table_abs rows c))(nk \<mapsto> (row_abs nr c)\<lparr>a_writer := True\<rparr>, key \<mapsto> abs_local ?new)"
        using map_of_mid_abs [OF ne(1), where c = c1 and ys = "(nk, r') # zs"] c2(4) abs1 ok by simp
      ultimately show ?thesis using True ok c2(2,3) wl(5) by auto
    next
      case bad: False
      have "insert_and_update_next_key_info H key v0 req rows c = Inr ((False, None), xs @ (nk, r') # zs, c1)"
        using k nx True wl(1) bad sr by (simp add: insert_and_update_next_key_info_def)
      then show ?thesis using True bad wl(2) ki1 abs1 by auto
    qed
  qed
qed

text \<open>
  C21: Inserting a row below an existing one: the call returns, the table gains an invalid,
  unlocked placeholder with the given value and nothing else changes, except that with
  \<open>require_lock_next_key\<close> the next row, which nobody had locked, is then write-locked by the caller; if
  that lock is taken the insert fails and the table is as before.
\<close>

theorem insert_refines:
  assumes "part_inv rows c" "key_info_ok rows c" "map_of rows key = None" "next_row key rows = Some (nk, nr)"
    "coordinator_id H < 16"
  shows "\<exists>ok x rows' c'. insert_and_update_next_key_info H key v req rows c = Inr ((ok, x), rows', c') \<and>
    part_inv rows' c' \<and> (\<not> req \<longrightarrow> ok) \<and>
    (req \<and> ok \<longrightarrow> \<not> a_writer (row_abs nr c) \<and> a_readers (row_abs nr c) = 0) \<and>
    map_of (table_abs rows' c') =
      (if \<not> ok then map_of (table_abs rows c)
       else if req then (map_of (table_abs rows c))(nk \<mapsto> (row_abs nr c)\<lparr>a_writer := True\<rparr>,
         key \<mapsto> abs_local (metadata_local_init False v))
       else (map_of (table_abs rows c))(key \<mapsto> abs_local (metadata_local_init False v)))"
  using insert_step [OF assms, of v req] by blast

theorem insert_refines_witness:
  "\<exists>ok x rows' c'. insert_and_update_next_key_info (owner_helper SCCNoOP) 5 (50 :: nat) False demo_rows demo_cxl =
      Inr ((ok, x), rows', c') \<and> ok \<and> map_option a_val (map_of (table_abs rows' c') 5) = Some 50"
proof -
  have m: "map_of demo_rows 5 = None" "next_row 5 demo_rows = Some (9, metadata_local_init True 0)"
    by (simp_all add: demo_rows_def next_row_def)
  show ?thesis
    using insert_refines [OF demo_part(1,2) m demo_config(1), of SCCNoOP 50 False]
    by (auto simp: abs_local_def metadata_local_init_def)
qed

text \<open>
  C22: Deleting a row of a B-tree table, migrated or not: the row disappears from the table and from
  the CXL index and the others are unchanged. (In a build with assertions a migrated row has to be
  valid for a local delete and invalid for a remote one.)
\<close>

theorem delete_refines:
  assumes "part_inv rows c" "key_info_ok rows c" "map_of rows key = Some r" "tableType ti = BTREE"
    "ndebug H \<or> is_local_delete = a_valid (row_abs r c)"
  shows "\<exists>x rows' c'. delete_and_update_next_key_info H ti key is_local_delete rows c = Inr (x, rows', c') \<and>
    part_inv rows' c' \<and> map_of (table_abs rows' c') = (map_of (table_abs rows c))(key := None) \<and>
    index c' = (index c)(key := None)"
proof -
  obtain xs ys where rows: "rows = xs @ (key, r) # ys" "\<forall>x\<in>set xs. fst x < key" "\<forall>y\<in>set ys. key < fst y"
    using part_inv_key [OF assms(1,3)] by metis
  then have "map_of (table_abs xs c) key = None" "map_of (table_abs ys c) key = None"
    by (auto simp: table_abs_def map_of_eq_None_iff)
  then have "map_of (table_abs (xs @ ys) c) = (map_of (table_abs rows c))(key := None)"
    unfolding rows(1) by (auto simp: table_abs_def map_add_def fun_eq_iff split: option.split)
  then show ?thesis
    using delete_step [of xs key r ys c ti H is_local_delete] assms unfolding rows(1) by fastforce
qed

theorem delete_refines_witness:
  "\<exists>x rows' c'. delete_and_update_next_key_info (owner_helper SCCNoOP) demo_table 1 True demo_rows demo_cxl =
      Inr (x, rows', c') \<and> index c' 1 = None \<and> map_of (table_abs rows' c') 1 = None"
proof -
  have m: "map_of demo_rows 1 = Some demo_row" "tableType demo_table = BTREE" "ndebug (owner_helper SCCNoOP)"
    by (simp_all add: demo_rows_def demo_table_def owner_helper_def)
  show ?thesis
    using delete_refines [OF demo_part(1,2) m(1,2) disjI1 [OF m(3)], of True] by auto
qed

section \<open>Running out of memory\<close>

lemma set_row_id:
  assumes "distinct (map fst rows)" "map_of rows key = Some r"
  shows "set_row key r rows = rows"
  using assms by (auto simp: set_row_def intro!: map_idI dest: eq_key_imp_eq_value split: prod.split)

lemma sorted_distinct:
  "sorted_wrt (\<lambda>x y. fst x < (fst y :: 'k :: linorder) \<and> P x y) rows \<Longrightarrow> distinct (map fst rows)"
  by (induction rows) auto

lemma part_inv_distinct: "part_inv rows c \<Longrightarrow> distinct (map fst rows)"
  by (auto simp: part_inv_def intro: sorted_distinct)

text \<open>
  C23: When the allocator has no memory for the atomic word, or none for a data block that is
  needed, \<open>move_from_partition_to_shared_region\<close> reports \<open>FAIL_OOM\<close> and leaves the table, the words, the
  data and the index alone; but the attempt stays counted as 8 bytes of metadata, with nothing to
  release them.
\<close>

theorem move_in_out_of_memory:
  assumes "distinct (map fst rows)" "map_of rows key = Some r" "\<not> l_is_migrated r"
    "a_smeta a = None \<or> a_scc a = None \<and> (l_scc_data r = None \<or> \<not> enable_scc H)"
  shows "\<exists>m. move_from_partition_to_shared_region H ti pinit a inc key rows c = Inr ((FAIL_OOM, None), rows, c\<lparr>mem := m\<rparr>) \<and>
    size_metadata_usage m = size_metadata_usage (mem c) + 8"
proof -
  have "\<exists>m. move_in_row H ti pinit a kinfo inc key r c = Inr ((None, r), c\<lparr>mem := m\<rparr>) \<and>
      size_metadata_usage m = size_metadata_usage (mem c) + 8" for kinfo
  proof -
    obtain m1 where m1: "malloc_wrapper H smeta_size METADATA_ALLOCATION (mem c) = Inr m1"
      "size_metadata_usage m1 = size_metadata_usage (mem c) + 8" by (simp add: malloc_wrapper_def)
    show ?thesis
    proof (cases "a_smeta a")
      case None
      then show ?thesis using m1 by (auto simp: move_in_row_def Let_def)
    next
      case (Some p)
      then have "\<exists>m2. alloc_scc_data H ti a r (c\<lparr>mem := m1\<rparr>) = Inr (None, c\<lparr>mem := m2\<rparr>) \<and>
          size_metadata_usage m2 = size_metadata_usage m1"
        using assms(4) by (auto simp: alloc_scc_data_def malloc_wrapper_def)
      then show ?thesis using Some m1 by (auto simp: move_in_row_def Let_def)
    qed
  qed
  then obtain m m' where
    "move_in_row H ti pinit a (\<lambda>w. w) inc key r c = Inr ((None, r), c\<lparr>mem := m\<rparr>)"
    "size_metadata_usage m = size_metadata_usage (mem c) + 8"
    "move_in_row H ti pinit a (key_info_bits (nb_migrated (next_row key rows)) (nb_migrated (prev_row key rows)))
      inc key r c = Inr ((None, r), c\<lparr>mem := m'\<rparr>)"
    "size_metadata_usage m' = size_metadata_usage (mem c) + 8" by metis
  then show ?thesis
    using assms(2,3) set_row_id [OF assms(1,2)]
    by (auto simp: move_from_partition_to_shared_region_def move_from_btree_to_shared_region_def
        move_from_hashmap_to_shared_region_def)
qed

theorem move_in_out_of_memory_witness:
  "\<exists>m. move_from_partition_to_shared_region (owner_helper SCCNoOP) demo_table (\<lambda>_ _ p. p) (demo_alloc\<lparr>a_smeta := None\<rparr>)
      True 2 demo_rows demo_cxl = Inr ((FAIL_OOM, None), demo_rows, demo_cxl\<lparr>mem := m\<rparr>) \<and> size_metadata_usage m = 8"
proof -
  have m: "distinct (map fst demo_rows)" "map_of demo_rows 2 = Some demo_private" "\<not> l_is_migrated demo_private"
    "a_smeta (demo_alloc\<lparr>a_smeta := None\<rparr>) = None" "size_metadata_usage (mem demo_cxl) = 0"
    by (simp_all add: demo_rows_def demo_private_def metadata_local_init_def demo_cxl_def cxl_memory_init_def)
  show ?thesis
    using move_in_out_of_memory [OF m(1-3) disjI1 [OF m(4)], of "owner_helper SCCNoOP" demo_table "\<lambda>_ _ p. p" True demo_cxl]
      m(5) by simp
qed

section \<open>A copy that is skipped\<close>

definition hw_helper :: helper where
  "hw_helper = (owner_helper SCCNoOP)\<lparr>enable_scc := False, enable_phantom_detection := False\<rparr>"


section \<open>Histories of a table\<close>

text \<open>
  The operations on a B-tree table in any order, each under the leaf locks; a failed allocation is a
  move in that reports \<open>FAIL_OOM\<close>.
\<close>

inductive table_step ::
  "helper \<Rightarrow> table_info \<Rightarrow> ('k :: linorder, 'v) rows \<times> ('k, 'v, 'p) cxl \<Rightarrow> ('k, 'v) rows \<times> ('k, 'v, 'p) cxl \<Rightarrow> bool"
  for H :: helper and ti :: table_info where
  move_in: "table_step H ti (rows, c) (rows', c')"
    if "move_from_btree_to_shared_region H ti pinit a inc key rows c = Inr (res, rows', c')"
      "fresh_alloc a rows \<or> fst res = FAIL_OOM"
| move_out: "table_step H ti (rows, c) (rows', c')"
    if "move_from_btree_to_partition H ti key rows c = Inr (ok, rows', c')"
| insert: "table_step H ti (rows, c) (rows', c')"
    if "insert_and_update_next_key_info H key v req rows c = Inr (res, rows', c')"
| delete: "table_step H ti (rows, c) (rows', c')"
    if "delete_and_update_next_key_info H ti key is_local_delete rows c = Inr (res, rows', c')"

definition table_ok :: "('k :: linorder, 'v) rows \<times> ('k, 'v, 'p) cxl \<Rightarrow> bool" where
  "table_ok s \<longleftrightarrow> part_inv (fst s) (snd s) \<and> key_info_ok (fst s) (snd s)"

lemma part_inv_mem: "part_inv rows (c\<lparr>mem := m\<rparr>) = part_inv rows c" "key_info_ok rows (c\<lparr>mem := m\<rparr>) = key_info_ok rows c"
proof -
  have "row_ok r (c\<lparr>mem := m\<rparr>) = row_ok r c" for r
    by (simp add: row_ok_def row_inv_def row_abs_def shared_at_def)
  then show "part_inv rows (c\<lparr>mem := m\<rparr>) = part_inv rows c" by (simp add: part_inv_def)
  show "key_info_ok rows (c\<lparr>mem := m\<rparr>) = key_info_ok rows c" by (simp add: key_info_ok_def key_info_def)
qed

lemma move_in_row_oom:
  assumes "move_in_row H ti pinit a kinfo inc key r c = Inr ((None, r'), c')"
  shows "r' = r \<and> (\<exists>m. c' = c\<lparr>mem := m\<rparr>)"
  using assms
  by (auto simp: move_in_row_def alloc_scc_data_def Let_def res_iffs split: option.splits prod.splits if_splits)

lemma update_neighbours_rows:
  assumes inv: "part_inv (xs @ (key, r) # ys) c" and ki: "key_info_ok (xs @ (key, r) # ys) c"
    and run: "update_neighbours sm_clear_next_key_real_bit sm_clear_prev_key_real_bit key (xs @ (key, r) # ys) c = Inr c'"
  shows "part_inv (xs @ (key, r) # ys) c' \<and> key_info_ok (xs @ (key, r) # ys) c' \<and> row_abs r c' = row_abs r c"
proof -
  let ?rows = "xs @ (key, r) # ys" and ?ki = "\<lambda>c. map (\<lambda>x. key_info c (snd x))"
  note around = around_key [OF part_inv_split(1,2) [OF inv], where r = r]
  from neighbours_step [OF inv set_bits(3,4) around(1,2)] run
  have c1: "part_inv ?rows c'" "table_abs ?rows c' = table_abs ?rows c" "key_info c' r = key_info c r"
      "?ki c' xs = upd_last (set_nb False) (?ki c xs)" "?ki c' ys = upd_hd (set_pb False) (?ki c ys)" by auto
  have "key_info_ok ?rows c'"
    unfolding key_info_ok_split c1(3-5)
    using links_own [OF ki [unfolded key_info_ok_split]]
    by (intro links_replace [OF ki [unfolded key_info_ok_split]]) auto
  then show ?thesis using c1(1,2) by (simp add: table_abs_def)
qed

lemma step_move_in:
  assumes "part_inv rows c" "key_info_ok rows c" "coordinator_id H < 16" "enable_scc H \<or> \<not> enable_migration_optimization H"
    "enable_phantom_detection H" "tableType ti = BTREE"
    and run: "move_from_btree_to_shared_region H ti pinit a inc key rows c = Inr (res, rows', c')"
    and al: "fresh_alloc a rows \<or> fst res = FAIL_OOM"
  shows "part_inv rows' c' \<and> key_info_ok rows' c'"
proof (cases "map_of rows key")
  case None
  then show ?thesis
    using run assms(1,2) by (simp add: move_from_btree_to_shared_region_def res_iffs)
next
  case (Some r)
  obtain xs ys where rows: "rows = xs @ (key, r) # ys"
    using part_inv_key [OF assms(1) Some] by metis
  have disp: "move_from_partition_to_shared_region H ti = move_from_btree_to_shared_region H ti"
    using assms(5,6) by (simp add: move_from_partition_to_shared_region_def)
  show ?thesis
  proof (cases "l_is_migrated r")
    case True
    then show ?thesis
      using move_in_again [of xs key r ys c H ti pinit a inc] assms(1,2) run unfolding rows disp by auto
  next
    case False
    show ?thesis
    proof (cases "fst res = FAIL_OOM")
      case True
      then obtain r' m where "r' = r" "c' = c\<lparr>mem := m\<rparr>" "rows' = set_row key r' rows"
        using run Some False move_in_row_oom
        by (fastforce simp: move_from_btree_to_shared_region_def res_iffs split: if_splits)
      then show ?thesis
        using assms(1,2) set_row_id [OF part_inv_distinct [OF assms(1)] Some] by (simp add: part_inv_mem)
    next
      case fresh: False
      then have "fresh_alloc a rows" using al by simp
      then show ?thesis
        using move_in_new [of xs key r ys c H a ti pinit inc] assms(1-4) run False unfolding rows disp by auto
    qed
  qed
qed

lemma step_move_out:
  assumes "part_inv rows c" "key_info_ok rows c" "coordinator_id H < 16" "tableType ti = BTREE"
    and run: "move_from_btree_to_partition H ti key rows c = Inr (ok, rows', c')"
  shows "part_inv rows' c' \<and> key_info_ok rows' c'"
proof (cases "map_of rows key")
  case None
  then show ?thesis
    using run assms(1,2) by (simp add: move_from_btree_to_partition_def res_iffs)
next
  case (Some r)
  obtain xs ys where rows: "rows = xs @ (key, r) # ys"
    using part_inv_key [OF assms(1) Some] by metis
  show ?thesis
  proof (cases "l_is_migrated r")
    case True
    then show ?thesis
      using move_out_btree [of xs key r ys c H ti] assms run unfolding rows by auto
  next
    case False
    then have "update_neighbours sm_clear_next_key_real_bit sm_clear_prev_key_real_bit key rows c = Inr c' \<and> rows' = set_row key r rows"
      using run Some by (auto simp: move_from_btree_to_partition_def res_iffs Let_def split: if_splits)
    then show ?thesis
      using update_neighbours_rows [of xs key r ys c c'] assms(1,2) set_row_id [OF part_inv_distinct [OF assms(1)] Some]
      unfolding rows by simp
  qed
qed

lemma step_delete:
  assumes "part_inv rows c" "key_info_ok rows c" "tableType ti = BTREE"
    and run: "delete_and_update_next_key_info H ti key is_local_delete rows c = Inr (res, rows', c')"
  shows "part_inv rows' c' \<and> key_info_ok rows' c'"
proof (cases "map_of rows key")
  case None
  then show ?thesis
    using run by (simp add: delete_and_update_next_key_info_def)
next
  case (Some r)
  obtain xs ys where rows: "rows = xs @ (key, r) # ys"
    using part_inv_key [OF assms(1) Some] by metis
  from run Some obtain c1
    where c1: "update_neighbours sm_clear_next_key_real_bit sm_clear_prev_key_real_bit key rows c = Inr c1"
    by (auto simp: delete_and_update_next_key_info_def res_iffs)
  then have abs: "row_abs r c1 = row_abs r c" and inv1: "row_inv r c1"
    using update_neighbours_rows [of xs key r ys c c1] part_inv_split(3) [of xs key r ys c1] assms(1,2)
    unfolding rows by (auto simp: row_ok_def)
  have "ndebug H \<or> is_local_delete = a_valid (row_abs r c)" if m: "l_is_migrated r"
  proof -
    from row_inv_migratedE [OF inv1 m] obtain p w d where p: "l_migrated_row r = Some p" and at: "shared_at c1 p w d"
      and a: "row_abs r c1 = abs_shared w d" by metis
    then have "ndebug H \<or> is_local_delete = get_flag 0 d"
      using run Some c1 m
      by (auto simp: delete_and_update_next_key_info_def latched_at [OF at] res_iffs split: if_splits)
    moreover have "a_valid (row_abs r c) = get_flag 0 d" using a abs by (simp add: abs_shared_def)
    ultimately show ?thesis by simp
  qed
  then show ?thesis
    using delete_step [of xs key r ys c ti H is_local_delete] assms run unfolding rows by auto
qed

lemma step_insert:
  assumes "part_inv rows c" "key_info_ok rows c" "coordinator_id H < 16"
    and run: "insert_and_update_next_key_info H key v req rows c = Inr (res, rows', c')"
  shows "part_inv rows' c' \<and> key_info_ok rows' c'"
proof (cases "map_of rows key")
  case None
  show ?thesis
  proof (cases "next_row key rows")
    case (Some x)
    then show ?thesis
      using insert_step [OF assms(1,2) None _ assms(3), of "fst x" "snd x" v req] run by auto
  qed (use None run in \<open>simp add: insert_and_update_next_key_info_def\<close>)
next
  case (Some r)
  then show ?thesis
    using run assms(1,2) by (simp add: insert_and_update_next_key_info_def)
qed

lemma table_step_ok:
  assumes "table_step H ti s s'" "table_ok s" "coordinator_id H < 16" "enable_scc H \<or> \<not> enable_migration_optimization H"
    "enable_phantom_detection H" "tableType ti = BTREE"
  shows "table_ok s'"
  using assms by (cases rule: table_step.cases)
    (auto simp: table_ok_def dest: step_move_in step_move_out step_insert step_delete)

lemma table_steps_ok:
  assumes "(table_step H ti)\<^sup>*\<^sup>* s s'" "table_ok s" "coordinator_id H < 16"
    "enable_scc H \<or> \<not> enable_migration_optimization H" "enable_phantom_detection H" "tableType ti = BTREE"
  shows "table_ok s'"
  using assms(1,2) by (induction rule: rtranclp_induct) (auto intro: table_step_ok [OF _ _ assms(3-6)])



end
