(* ===== verification/PolicyProps.thy ===== *)
theory PolicyProps
  imports Policy MigrationProps
begin

text \<open>
  Correctness of the migration policies. The locale \<open>migrating\<close> is the contract between a policy and
  the functions it calls; the policies are verified once inside it, and the contract is discharged
  for the functions of \<^theory_text>\<open>Migration\<close>.
\<close>

section \<open>What a policy may assume\<close>

text \<open>
  \<open>inv\<close> is the invariant of tables and memory, \<open>in_cxl s e\<close> the address of the policy metadata of a
  migrated row, \<open>known\<close> that the table has the row, \<open>movable\<close> that no transaction references it and
  \<open>deletable\<close> that a delete of it is allowed.
\<close>

locale migrating =
  fixes V :: "('e, 's) env" and inv :: "'s \<Rightarrow> bool" and in_cxl :: "'s \<Rightarrow> 'e \<rightharpoonup> u64" and known :: "'s \<Rightarrow> 'e \<Rightarrow> bool"
    and movable :: "'s \<Rightarrow> 'e \<Rightarrow> bool" and deletable :: "'s \<Rightarrow> 'e \<Rightarrow> bool \<Rightarrow> bool"
  assumes move_in: "inv s \<Longrightarrow> known s e \<Longrightarrow> \<exists>ret meta s'. move_in V e inc s = Inr ((ret, meta), s') \<and> inv s' \<and>
      (if ret = SUCCESS
       then \<exists>a. meta = Some a \<and> in_cxl s e = None \<and> in_cxl s' = (in_cxl s)(e \<mapsto> a) \<and> a \<notin> ran (in_cxl s) \<and>
         get_tracker V s' = lru_init_migration_policy_metadata e a (get_tracker V s) \<and> row_entity V s' a = Some e
       else in_cxl s' = in_cxl s \<and> get_tracker V s' = get_tracker V s)"
    and move_out: "inv s \<Longrightarrow> in_cxl s e \<noteq> None \<Longrightarrow> \<exists>s'. move_out V e s = Inr (movable s e, s') \<and> inv s' \<and>
      in_cxl s' = (if movable s e then (in_cxl s)(e := None) else in_cxl s) \<and> get_tracker V s' = get_tracker V s \<and>
      (\<forall>x. in_cxl s' x \<noteq> None \<longrightarrow> movable s' x = movable s x) \<and> (\<not> movable s e \<longrightarrow> hw_cc_usage V s' = hw_cc_usage V s)"
    and delete: "inv s \<Longrightarrow> known s e \<Longrightarrow> deletable s e loc \<Longrightarrow> \<exists>s'. delete_row V e loc s = Inr (in_cxl s e, s') \<and> inv s' \<and>
      in_cxl s' = (in_cxl s)(e := None) \<and> get_tracker V s' = get_tracker V s"
    and put: "get_tracker V (put_tracker V t s) = t" "inv (put_tracker V t s) = inv s" "in_cxl (put_tracker V t s) = in_cxl s"
      "movable (put_tracker V t s) = movable s" "hw_cc_usage V (put_tracker V t s) = hw_cc_usage V s"
    and in_cxl_inj: "inv s \<Longrightarrow> in_cxl s e = Some a \<Longrightarrow> in_cxl s e' = Some a \<Longrightarrow> e = e'"
begin

text \<open>The queue of the FIFO and eager policies: the migrated rows, each once.\<close>

definition queue_ok :: "'e list \<times> 's \<Rightarrow> bool" where
  "queue_ok qs \<longleftrightarrow> inv (snd qs) \<and> distinct (fst qs) \<and> set (fst qs) = dom (in_cxl (snd qs))"

lemma enqueue:
  assumes "queue_ok (q, s)" "known s e"
  shows "\<exists>ret q' s'. fifo_move_row_in V e inc (q, s) = Inr (ret, q', s') \<and> queue_ok (q', s') \<and>
    q' = (if ret = SUCCESS then q @ [e] else q)"
proof -
  have i: "inv s" "distinct q" "set q = dom (in_cxl s)" using assms(1) by (auto simp: queue_ok_def)
  from move_in [OF i(1) assms(2), of inc] obtain ret m s'
    where run: "move_in V e inc s = Inr ((ret, m), s')" and inv: "inv s'"
      and post: "if ret = SUCCESS
       then \<exists>a. m = Some a \<and> in_cxl s e = None \<and> in_cxl s' = (in_cxl s)(e \<mapsto> a) \<and> a \<notin> ran (in_cxl s) \<and>
         get_tracker V s' = lru_init_migration_policy_metadata e a (get_tracker V s) \<and> row_entity V s' a = Some e
       else in_cxl s' = in_cxl s \<and> get_tracker V s' = get_tracker V s" by blast
  show ?thesis
  proof (cases "ret = SUCCESS")
    case True
    with post obtain a where "m = Some a" "in_cxl s e = None" "in_cxl s' = (in_cxl s)(e \<mapsto> a)" "row_entity V s' a = Some e"
      by auto
    then show ?thesis
      using run inv i True by (auto simp: fifo_move_row_in_def queue_ok_def)
  next
    case False
    then show ?thesis
      using run inv i post by (auto simp: fifo_move_row_in_def queue_ok_def)
  qed
qed

lemma dequeue:
  assumes "queue_ok (q, s)" "known s e" "deletable s e loc"
  shows "\<exists>s'. fifo_delete V e loc (q, s) = Inr (True, remove1 e q, s') \<and> queue_ok (remove1 e q, s')"
proof -
  have i: "inv s" "distinct q" "set q = dom (in_cxl s)" using assms(1) by (auto simp: queue_ok_def)
  from delete [OF i(1) assms(2,3)] obtain s'
    where s': "delete_row V e loc s = Inr (in_cxl s e, s')" "inv s'" "in_cxl s' = (in_cxl s)(e := None)" by blast
  show ?thesis
  proof (cases "in_cxl s e")
    case None
    then have "remove1 e q = q" using i(3) by (intro remove1_idem) auto
    moreover have "in_cxl s' = in_cxl s" using None s'(3) by auto
    ultimately show ?thesis using s' i None by (auto simp: fifo_delete_def queue_ok_def)
  next
    case (Some a)
    then have "e \<in> dom (in_cxl s)" by (rule domI)
    then show ?thesis using s' i Some by (auto simp: fifo_delete_def queue_ok_def)
  qed
qed

text \<open>
  One pass over the queue: the rows attempted, in order, are a prefix; those nobody references leave,
  and the pass ends at the first eviction that brings the usage below the budget.
\<close>

lemma fifo_loop_ok:
  assumes "inv s" "distinct (kept @ q)" "set (kept @ q) = dom (in_cxl s)"
  shows "\<exists>r s' k. fifo_loop V budget ret kept q s = Inr (r, kept @ filter (\<lambda>e. \<not> movable s e) (take k q) @ drop k q, s') \<and>
    k \<le> length q \<and> queue_ok (kept @ filter (\<lambda>e. \<not> movable s e) (take k q) @ drop k q, s') \<and>
    (k < length q \<longrightarrow> r \<and> hw_cc_usage V s' < budget) \<and> r = (if k = 0 then ret else movable s (q ! (k - 1)))"
  using assms
proof (induction q arbitrary: s kept ret)
  case Nil
  then show ?case by (auto simp: queue_ok_def)
next
  case (Cons e q)
  then have "in_cxl s e \<noteq> None" by auto
  from move_out [OF Cons.prems(1) this] obtain s1
    where s1: "move_out V e s = Inr (movable s e, s1)" "inv s1"
      "in_cxl s1 = (if movable s e then (in_cxl s)(e := None) else in_cxl s)"
      and keep: "\<And>x. x \<in> dom (in_cxl s1) \<Longrightarrow> movable s1 x = movable s x" by blast
  show ?case
  proof (cases "movable s e")
    case True
    have q: "distinct (kept @ q)" "set (kept @ q) = dom (in_cxl s1)"
      using Cons.prems s1(3) True by auto
    have keepq: "movable s1 x = movable s x" if "x \<in> set q" for x
      using that q(2) by (intro keep) (auto simp del: domIff)
    have same: "filter (\<lambda>e. \<not> movable s1 e) (take k q) = filter (\<lambda>e. \<not> movable s e) (take k q)" for k
      by (rule filter_cong [OF refl]) (simp add: keepq [OF in_set_takeD])
    show ?thesis
    proof (cases "hw_cc_usage V s1 < budget")
      case below: True
      then show ?thesis
        using s1 True q by (intro exI [of _ True] exI [of _ s1] exI [of _ 1]) (auto simp: queue_ok_def)
    next
      case False
      from Cons.IH [OF s1(2) q, of True] obtain r s' k
        where IH: "fifo_loop V budget True kept q s1 = Inr (r, kept @ filter (\<lambda>e. \<not> movable s e) (take k q) @ drop k q, s')"
          "k \<le> length q" "queue_ok (kept @ filter (\<lambda>e. \<not> movable s e) (take k q) @ drop k q, s')"
          "k < length q \<longrightarrow> r \<and> hw_cc_usage V s' < budget" "r = (if k = 0 then True else movable s1 (q ! (k - 1)))"
        unfolding same by blast
      have "r = (if k = 0 then True else movable s (q ! (k - 1)))"
        using IH(2,5) keepq [OF nth_mem, of "k - 1"] by (cases k) auto
      then show ?thesis
        using s1 True False IH(1-4)
        by (intro exI [of _ r] exI [of _ s'] exI [of _ "Suc k"]) (auto split: if_splits)
    qed
  next
    case False
    have q: "distinct ((kept @ [e]) @ q)" "set ((kept @ [e]) @ q) = dom (in_cxl s1)"
      using Cons.prems s1(3) False by auto
    have keepq: "movable s1 x = movable s x" if "x \<in> set q" for x
      using that q(2) by (intro keep) (auto simp del: domIff)
    have same: "filter (\<lambda>e. \<not> movable s1 e) (take k q) = filter (\<lambda>e. \<not> movable s e) (take k q)" for k
      by (rule filter_cong [OF refl]) (simp add: keepq [OF in_set_takeD])
    from Cons.IH [OF s1(2) q, of False] obtain r s' k
      where IH: "fifo_loop V budget False (kept @ [e]) q s1 =
            Inr (r, (kept @ [e]) @ filter (\<lambda>e. \<not> movable s e) (take k q) @ drop k q, s')"
          "k \<le> length q" "queue_ok ((kept @ [e]) @ filter (\<lambda>e. \<not> movable s e) (take k q) @ drop k q, s')"
          "k < length q \<longrightarrow> r \<and> hw_cc_usage V s' < budget" "r = (if k = 0 then False else movable s1 (q ! (k - 1)))"
      unfolding same by blast
    have "r = (if k = 0 then False else movable s (q ! (k - 1)))"
      using IH(2,5) keepq [OF nth_mem, of "k - 1"] by (cases k) auto
    then show ?thesis
      using s1 False IH(1-4)
      by (intro exI [of _ r] exI [of _ s'] exI [of _ "Suc k"]) (auto split: if_splits)
  qed
qed

lemma eagerly_loop_ok:
  assumes "inv s" "distinct (kept @ q)" "set (kept @ q) = dom (in_cxl s)"
  shows "\<exists>s'. eagerly_loop V kept q s = Inr (kept @ filter (\<lambda>e. \<not> movable s e) q, s') \<and>
    queue_ok (kept @ filter (\<lambda>e. \<not> movable s e) q, s')"
  using assms
proof (induction q arbitrary: s kept)
  case Nil
  then show ?case by (auto simp: queue_ok_def)
next
  case (Cons e q)
  then have "in_cxl s e \<noteq> None" by auto
  from move_out [OF Cons.prems(1) this] obtain s1
    where s1: "move_out V e s = Inr (movable s e, s1)" "inv s1"
      "in_cxl s1 = (if movable s e then (in_cxl s)(e := None) else in_cxl s)"
      and keep: "\<And>x. x \<in> dom (in_cxl s1) \<Longrightarrow> movable s1 x = movable s x" by blast
  let ?kept = "if movable s e then kept else kept @ [e]"
  have q: "distinct (?kept @ q)" "set (?kept @ q) = dom (in_cxl s1)"
    using Cons.prems s1(3) by auto
  have "filter (\<lambda>e. \<not> movable s1 e) q = filter (\<lambda>e. \<not> movable s e) q"
    using q(2) by (intro filter_cong arg_cong [of _ _ Not] keep) (auto simp del: domIff)
  then show ?case
    using Cons.IH [OF s1(2) q] s1(1) by (cases "movable s e") auto
qed

text \<open>The LRU list: the migrated rows from the least to the most recently used.\<close>

definition lru_ok :: "'s \<Rightarrow> 'e list \<Rightarrow> bool" where
  "lru_ok s es \<longleftrightarrow> inv s \<and> distinct es \<and> set es = dom (in_cxl s) \<and>
     tracks (get_tracker V s) (map (the \<circ> in_cxl s) es) \<and>
     (\<forall>e a. in_cxl s e = Some a \<longrightarrow> map_option entity (nodes (get_tracker V s) a) = Some e)"

lemma lru_okD:
  assumes "lru_ok s es"
  shows "inv s" "distinct es" "set es = dom (in_cxl s)" "tracks (get_tracker V s) (map (the \<circ> in_cxl s) es)"
    "in_cxl s e = Some a \<Longrightarrow> map_option entity (nodes (get_tracker V s) a) = Some e" "inj_on (the \<circ> in_cxl s) (set es)"
    "in_cxl s e = Some a \<Longrightarrow> e \<in> set es \<and> a \<in> set (map (the \<circ> in_cxl s) es)"
proof -
  show i: "inv s" "distinct es" and d: "set es = dom (in_cxl s)" and "tracks (get_tracker V s) (map (the \<circ> in_cxl s) es)"
    using assms by (auto simp: lru_ok_def)
  show "in_cxl s e = Some a \<Longrightarrow> map_option entity (nodes (get_tracker V s) a) = Some e"
    using assms by (auto simp: lru_ok_def)
  show "inj_on (the \<circ> in_cxl s) (set es)"
    unfolding d using in_cxl_inj [OF i(1)] by (force simp: inj_on_def)
  show "in_cxl s e = Some a \<Longrightarrow> e \<in> set es \<and> a \<in> set (map (the \<circ> in_cxl s) es)"
    unfolding set_map d by force
qed

lemma map_remove1: "inj_on f (insert x (set xs)) \<Longrightarrow> map f (remove1 x xs) = remove1 (f x) (map f xs)"
  by (induction xs) (auto simp: inj_on_def)

text \<open>Taking a row out of the list, in a state in which it is no longer migrated (or is put back).\<close>

lemma untrack_row:
  assumes ok: "lru_ok s es" and e: "in_cxl s e = Some a"
    and s1: "inv s1" "in_cxl s1 = (in_cxl s)(e := None)" "get_tracker V s1 = get_tracker V s"
  shows "\<exists>t. lru_untrack a (get_tracker V s1) = Inr t \<and> lru_ok (put_tracker V t s1) (remove1 e es) \<and>
    same_rows (set (map (the \<circ> in_cxl s) es)) (get_tracker V s) t"
proof -
  note i = lru_okD [OF ok]
  let ?f = "the \<circ> in_cxl s"
  from lrut.untrack [OF i(4), of a] i(7) [OF e] obtain t
    where t: "lru_untrack a (get_tracker V s) = Inr t" "tracks t (remove1 a (map ?f es))" "same_rows (set (map ?f es)) (get_tracker V s) t"
    by blast
  have e': "e \<in> set es" "a = ?f e" using i(7) [OF e] e by simp_all
  then have "map ?f (remove1 e es) = remove1 a (map ?f es)"
    using i(6) by (simp add: map_remove1 insert_absorb)
  moreover have "map (the \<circ> in_cxl s1) (remove1 e es) = map ?f (remove1 e es)"
    using i(2) by (auto simp: s1(2))
  ultimately have "tracks t (map (the \<circ> in_cxl s1) (remove1 e es))" using t(2) by simp
  moreover have "map_option entity (nodes t b) = Some x" if "in_cxl s1 x = Some b" for x b
    using that i(5) [of x b] t(3) by (auto simp: s1(2) same_rows_def split: if_splits)
  moreover have "set (remove1 e es) = dom (in_cxl s1)" using i(2,3) by (simp add: s1(2))
  ultimately have "lru_ok (put_tracker V t s1) (remove1 e es)"
    using s1(1) i(2) unfolding lru_ok_def put by simp
  then show ?thesis using t s1(3) by auto
qed

lemma lru_move_in_ok:
  assumes ok: "lru_ok s es" and "known s e"
  shows "\<exists>ret s'. lru_move_row_in V e inc s = Inr (ret, s') \<and> lru_ok s' (if ret = SUCCESS then es @ [e] else es) \<and>
    cur_victim (get_tracker V s') = cur_victim (get_tracker V s)"
proof -
  note i = lru_okD [OF ok]
  from move_in [OF i(1) assms(2), of inc] obtain ret m s1
    where run: "move_in V e inc s = Inr ((ret, m), s1)" and inv: "inv s1"
      and post: "if ret = SUCCESS
       then \<exists>a. m = Some a \<and> in_cxl s e = None \<and> in_cxl s1 = (in_cxl s)(e \<mapsto> a) \<and> a \<notin> ran (in_cxl s) \<and>
         get_tracker V s1 = lru_init_migration_policy_metadata e a (get_tracker V s) \<and> row_entity V s1 a = Some e
       else in_cxl s1 = in_cxl s \<and> get_tracker V s1 = get_tracker V s" by blast
  show ?thesis
  proof (cases "ret = SUCCESS")
    case True
    with post obtain a where a: "m = Some a" "in_cxl s e = None" "in_cxl s1 = (in_cxl s)(e \<mapsto> a)" "a \<notin> ran (in_cxl s)"
      and t: "get_tracker V s1 = lru_init_migration_policy_metadata e a (get_tracker V s)" by auto
    let ?f = "the \<circ> in_cxl s"
    have e: "e \<notin> set es" using i(3) a(2) by auto
    have aes: "a \<notin> set (map ?f es)" using a(4) i(3) by (force simp: ran_def)
    have "tracks (get_tracker V s1) (map ?f es)"
      using i(4) aes unfolding t by (auto simp: tracks_def lru_init_migration_policy_metadata_def simp del: set_map)
    moreover have det: "detached a (get_tracker V s1)"
      by (simp add: detached_def t lru_init_migration_policy_metadata_def)
    ultimately obtain t' where t': "lru_track a (get_tracker V s1) = Inr t'" "tracks t' (map ?f es @ [a])"
        "same_rows (insert a (set (map ?f es))) (get_tracker V s1) t'"
      using lrut.track [OF _ aes] by blast
    have "map (the \<circ> in_cxl s1) es = map ?f es"
      using e by (intro map_cong) (auto simp: a(3))
    then have "map (the \<circ> in_cxl s1) (es @ [e]) = map ?f es @ [a]" unfolding map_append by (simp add: a(3))
    then have "tracks t' (map (the \<circ> in_cxl s1) (es @ [e]))" using t'(2) by argo
    moreover have "set (es @ [e]) = dom (in_cxl s1)" using i(3) by (simp add: a(3))
    moreover have "map_option entity (nodes t' b) = Some x" if "in_cxl s1 x = Some b" for x b
    proof -
      have "map_option entity (nodes (get_tracker V s1) b) = Some x"
        using that i(5) [of x b] a(4) by (auto simp: a(3) t lru_init_migration_policy_metadata_def ran_def split: if_splits)
      then show ?thesis using t'(3) by (simp add: same_rows_def)
    qed
    ultimately have "lru_ok (put_tracker V t' s1) (es @ [e])"
      using inv i(2) e unfolding lru_ok_def put by simp
    moreover have "lru_move_row_in V e inc s = Inr (SUCCESS, put_tracker V t' s1)"
      using run True a(1) t'(1) det by (auto simp: lru_move_row_in_def detached_def)
    moreover have "cur_victim t' = cur_victim (get_tracker V s)"
      using t'(3) by (simp add: same_rows_def t lru_init_migration_policy_metadata_def)
    ultimately show ?thesis using True by (auto simp: put)
  next
    case False
    then have "lru_ok s1 es" using post inv i by (simp add: lru_ok_def)
    then show ?thesis using run False post by (auto simp: lru_move_row_in_def)
  qed
qed

lemma lru_access_ok:
  assumes ok: "lru_ok s es" and e: "in_cxl s e = Some a"
  shows "\<exists>s'. lru_access_row V a s = Inr s' \<and> lru_ok s' (remove1 e es @ [e]) \<and>
    cur_victim (get_tracker V s') = cur_victim (get_tracker V s)"
proof -
  note i = lru_okD [OF ok]
  let ?f = "the \<circ> in_cxl s"
  have e': "e \<in> set es" "a = ?f e" "a \<in> set (map ?f es)" using i(7) [OF e] e by simp_all
  from lrut.promote [OF i(4) e'(3)] obtain t where t: "lru_promote a (get_tracker V s) = Inr t"
    "tracks t (remove1 a (map ?f es) @ [a])" "same_rows (set (map ?f es)) (get_tracker V s) t"
    unfolding lru_promote_def by blast
  have "map ?f (remove1 e es @ [e]) = remove1 a (map ?f es) @ [a]"
    using i(6) e' by (simp add: map_remove1 insert_absorb)
  then have "lru_ok (put_tracker V t s) (remove1 e es @ [e])"
    using i(1,2,3,5) t(2,3) e'(1) unfolding lru_ok_def put by (auto simp: same_rows_def simp del: domIff)
  then show ?thesis using t(1,3) by (simp add: lru_access_row_def put same_rows_def)
qed

lemma lru_delete_ok:
  assumes ok: "lru_ok s es" and e: "known s e" "deletable s e loc"
  shows "\<exists>s'. lru_delete V e loc s = Inr (True, s') \<and> lru_ok s' (remove1 e es) \<and>
    cur_victim (get_tracker V s') = cur_victim (get_tracker V s)"
proof -
  note i = lru_okD [OF ok]
  from delete [OF i(1) e] obtain s1 where s1: "delete_row V e loc s = Inr (in_cxl s e, s1)" "inv s1"
    "in_cxl s1 = (in_cxl s)(e := None)" "get_tracker V s1 = get_tracker V s" by blast
  show ?thesis
  proof (cases "in_cxl s e")
    case None
    then have "in_cxl s1 = in_cxl s" "remove1 e es = es" using s1(3) i(3) by (auto intro: remove1_idem)
    then have "lru_ok s1 (remove1 e es)" using ok s1(2,4) by (simp add: lru_ok_def)
    then show ?thesis using s1(1,4) None by (simp add: lru_delete_def)
  next
    case (Some a)
    from untrack_row [OF ok Some s1(2-4)] obtain t
      where "lru_untrack a (get_tracker V s1) = Inr t" "lru_ok (put_tracker V t s1) (remove1 e es)"
        "cur_victim t = cur_victim (get_tracker V s)" by (auto simp: same_rows_def)
    then show ?thesis using s1(1) Some by (simp add: lru_delete_def put)
  qed
qed

text \<open>One turn of the loop: \<open>us\<close> has been passed and nothing of it can move.\<close>

definition cursor_at :: "'s \<Rightarrow> 'e list \<Rightarrow> bool" where
  "cursor_at s us \<longleftrightarrow> cur_victim (get_tracker V s) = map_option (the \<circ> in_cxl s) (last_opt us)"

lemma next_victim:
  assumes ok: "lru_ok s (us @ vs)" and cur: "cursor_at s us"
  shows "get_next_victim (get_tracker V s) =
    Inr (map_option (the \<circ> in_cxl s) (hd_opt vs), get_tracker V s\<lparr>cur_victim := map_option (the \<circ> in_cxl s) (hd_opt vs)\<rparr>)"
proof -
  let ?f = "the \<circ> in_cxl s"
  have h: "hd_opt (map ?f vs) = map_option ?f (hd_opt vs)" by (cases vs) auto
  have "case cur_victim (get_tracker V s) of None \<Rightarrow> map ?f us = [] | Some x \<Rightarrow> map ?f us = map ?f (butlast us) @ [x]"
    using cur unfolding cursor_at_def by (cases us rule: rev_cases) auto
  from get_next_victim_ok [OF lru_okD(4) [OF ok] this map_append] show ?thesis unfolding h .
qed

lemma lru_ok_cursor: "lru_ok (put_tracker V (get_tracker V s\<lparr>cur_victim := c\<rparr>) s) es = lru_ok s es"
  by (simp add: lru_ok_def put tracks_def)

lemma lru_turn_ok:
  assumes ok: "lru_ok s (us @ vs)" and cur: "cursor_at s us"
  shows "vs = [] \<Longrightarrow> \<exists>s'. lru_turn V budget s = Inr (Inl (False, s')) \<and> lru_ok s' us \<and> hw_cc_usage V s' = hw_cc_usage V s"
    and "vs = v # vs' \<Longrightarrow> \<exists>s'. lru_turn V budget s = Inr (if movable s v \<and> hw_cc_usage V s' < budget then Inl (True, s') else Inr s') \<and>
      lru_ok s' ((if movable s v then us else us @ [v]) @ vs') \<and> cursor_at s' (if movable s v then [] else us @ [v]) \<and>
      (\<forall>x\<in>set (us @ vs'). movable s' x = movable s x) \<and>
      (\<not> movable s v \<longrightarrow> movable s' v = movable s v \<and> hw_cc_usage V s' = hw_cc_usage V s)"
proof -
  note i = lru_okD [OF ok] and nv = next_victim [OF ok cur]
  let ?f = "the \<circ> in_cxl s"
  show "\<exists>s'. lru_turn V budget s = Inr (Inl (False, s')) \<and> lru_ok s' us \<and> hw_cc_usage V s' = hw_cc_usage V s" if "vs = []"
    using that ok by (simp add: lru_turn_def nv lru_ok_cursor put)
  assume vs: "vs = v # vs'"
  have "v \<in> dom (in_cxl s)" unfolding i(3) [symmetric] vs by simp
  then obtain a where v: "in_cxl s v = Some a" by auto
  define s1 where "s1 = put_tracker V (get_tracker V s\<lparr>cur_victim := Some a\<rparr>) s"
  obtain n where n: "nodes (get_tracker V s) a = Some n" "entity n = v" using i(5) [OF v(1)] by blast
  have s1: "lru_ok s1 (us @ vs)" "inv s1" "in_cxl s1 = in_cxl s" "movable s1 = movable s" "hw_cc_usage V s1 = hw_cc_usage V s"
    "cur_victim (get_tracker V s1) = Some a"
    using ok i(1) by (simp_all add: s1_def lru_ok_cursor put)
  then have "in_cxl s1 v \<noteq> None" using v by simp
  from move_out [OF s1(2) this, unfolded s1(3-5)] obtain s2 where s2: "move_out V v s1 = Inr (movable s v, s2)" "inv s2"
    "in_cxl s2 = (if movable s v then (in_cxl s)(v := None) else in_cxl s)" "get_tracker V s2 = get_tracker V s1"
    "\<And>x. x \<in> dom (in_cxl s2) \<Longrightarrow> movable s2 x = movable s x" "\<not> movable s v \<Longrightarrow> hw_cc_usage V s2 = hw_cc_usage V s"
    unfolding domIff by blast
  have turn: "lru_turn V budget s =
      (if movable s v then bind_res (lru_untrack a (get_tracker V s2)) (\<lambda>t.
         let s = put_tracker V (reset_cur_victim t) s2 in if hw_cc_usage V s < budget then Inr (Inl (True, s)) else Inr (Inr s))
       else Inr (Inr s2))"
    using n s2(1) by (simp add: lru_turn_def nv vs v s1_def put Let_def)
  have d: "v \<notin> set us" "v \<notin> set vs'" using i(2) vs by auto
  show "\<exists>s'. lru_turn V budget s = Inr (if movable s v \<and> hw_cc_usage V s' < budget then Inl (True, s') else Inr s') \<and>
      lru_ok s' ((if movable s v then us else us @ [v]) @ vs') \<and> cursor_at s' (if movable s v then [] else us @ [v]) \<and>
      (\<forall>x\<in>set (us @ vs'). movable s' x = movable s x) \<and>
      (\<not> movable s v \<longrightarrow> movable s' v = movable s v \<and> hw_cc_usage V s' = hw_cc_usage V s)"
  proof (cases "movable s v")
    case True
    have "in_cxl s1 v = Some a" "in_cxl s2 = (in_cxl s1)(v := None)" using v s1(3) s2(3) True by simp_all
    from untrack_row [OF s1(1) this(1) s2(2) this(2) s2(4)] obtain t
      where t: "lru_untrack a (get_tracker V s2) = Inr t" "lru_ok (put_tracker V t s2) (remove1 v (us @ vs))" by blast
    define s3 where "s3 = put_tracker V (reset_cur_victim t) s2"
    have "remove1 v (us @ vs) = us @ vs'" using d vs by (simp add: remove1_append)
    then have "lru_ok s3 (us @ vs')"
      using t(2) by (simp add: s3_def lru_ok_def put tracks_def reset_cur_victim_def)
    moreover have "\<forall>x\<in>set (us @ vs'). movable s3 x = movable s x"
    proof
      fix x
      assume x: "x \<in> set (us @ vs')"
      then have "x \<in> dom (in_cxl s2)" using s2(3) i(3) [symmetric] d vs True by auto
      then show "movable s3 x = movable s x" using s2(5) by (simp add: s3_def put)
    qed
    moreover have "cursor_at s3 []" by (simp add: cursor_at_def s3_def put reset_cur_victim_def)
    ultimately show ?thesis
      using True unfolding turn by (intro exI [of _ s3]) (simp add: t(1) s3_def Let_def)
  next
    case False
    then have s2': "in_cxl s2 = in_cxl s" using s2(3) by simp
    have "lru_ok s2 (us @ vs)" using s1(1,3) s2(2,4) s2' by (simp add: lru_ok_def)
    moreover have "cursor_at s2 (us @ [v])" using s1(6) s2(4) s2' v by (simp add: cursor_at_def)
    moreover have "\<forall>x\<in>set (us @ vs'). movable s2 x = movable s x" "movable s2 v = movable s v"
      using s2(5) vs unfolding s2' i(3) [symmetric] by auto
    ultimately show ?thesis
      using False s2(6) vs unfolding turn by (intro exI [of _ s2]) simp
  qed
qed

text \<open>
  The loop ends after at most \<open>n\<^sup>2 + n + 1\<close> turns for \<open>n\<close> tracked rows: a turn passes a row or evicts
  one, and an eviction starts again at the head.
\<close>

lemma lru_loop_ok:
  assumes "lru_ok s (us @ vs)" "cursor_at s us" "\<forall>e\<in>set us. \<not> movable s e" "\<not> hw_cc_usage V s < budget"
    "length (us @ vs) * length (us @ vs) + length vs < fuel"
  shows "\<exists>ret s' k. lru_loop fuel V budget s = Some (Inr (ret, s')) \<and> k \<le> length vs \<and>
    lru_ok s' (us @ filter (\<lambda>e. \<not> movable s e) (take k vs) @ drop k vs) \<and> ret = (hw_cc_usage V s' < budget) \<and>
    (if ret then 0 < k \<and> movable s (vs ! (k - 1)) else k = length vs)"
  using assms
proof (induction fuel arbitrary: s us vs)
  case (Suc fuel)
  show ?case
  proof (cases vs)
    case Nil
    with lru_turn_ok(1) [OF Suc.prems(1,2), of budget] obtain s'
      where "lru_turn V budget s = Inr (Inl (False, s'))" "lru_ok s' us" "hw_cc_usage V s' = hw_cc_usage V s" by blast
    then show ?thesis
      using Nil Suc.prems(4) by (intro exI [of _ False] exI [of _ s'] exI [of _ 0]) simp
  next
    case (Cons v vs')
    from lru_turn_ok(2) [OF Suc.prems(1,2) Cons, of budget] obtain s1
      where turn: "lru_turn V budget s = Inr (if movable s v \<and> hw_cc_usage V s1 < budget then Inl (True, s1) else Inr s1)"
        and ok: "lru_ok s1 ((if movable s v then us else us @ [v]) @ vs')" "cursor_at s1 (if movable s v then [] else us @ [v])"
        and keep: "\<forall>x\<in>set (us @ vs'). movable s1 x = movable s x"
        and stay: "\<not> movable s v \<longrightarrow> movable s1 v = movable s v \<and> hw_cc_usage V s1 = hw_cc_usage V s" by blast
    have same: "filter (\<lambda>e. \<not> movable s1 e) (take k vs') = filter (\<lambda>e. \<not> movable s e) (take k vs')" for k
      using keep by (intro filter_cong) (auto dest: in_set_takeD)
    have nth: "movable s1 (vs' ! j) = movable s (vs' ! j)" if "j < length vs'" for j using that keep by simp
    consider (pass) "\<not> movable s v" | (last) "movable s v" "hw_cc_usage V s1 < budget" | (evict) "movable s v" "\<not> hw_cc_usage V s1 < budget"
      by blast
    then show ?thesis
    proof cases
      case pass
      have "\<exists>ret s' k. lru_loop fuel V budget s1 = Some (Inr (ret, s')) \<and> k \<le> length vs' \<and>
          lru_ok s' ((us @ [v]) @ filter (\<lambda>e. \<not> movable s1 e) (take k vs') @ drop k vs') \<and> ret = (hw_cc_usage V s' < budget) \<and>
          (if ret then 0 < k \<and> movable s1 (vs' ! (k - 1)) else k = length vs')"
        using ok pass stay keep Suc.prems(3-5) Cons by (intro Suc.IH) auto
      then obtain ret s' k where IH: "lru_loop fuel V budget s1 = Some (Inr (ret, s'))" "k \<le> length vs'"
          "lru_ok s' (us @ v # filter (\<lambda>e. \<not> movable s e) (take k vs') @ drop k vs')" "ret = (hw_cc_usage V s' < budget)"
          "if ret then 0 < k \<and> movable s1 (vs' ! (k - 1)) else k = length vs'"
        unfolding same by auto
      have "if ret then movable s (vs ! (Suc k - 1)) else Suc k = length vs"
        using IH(2,5) nth [of "k - 1"] Cons by (auto split: if_splits)
      then show ?thesis
        using IH(1-4) turn pass Cons by (intro exI [of _ ret] exI [of _ s'] exI [of _ "Suc k"]) auto
    next
      case last
      then show ?thesis
        using turn ok(1) Cons by (intro exI [of _ True] exI [of _ s1] exI [of _ "Suc 0"]) auto
    next
      case evict
      have fuel: "length (us @ vs') * length (us @ vs') + length (us @ vs') < fuel"
        using Suc.prems(5) Cons by (simp add: algebra_simps)
      have "\<exists>ret s' k. lru_loop fuel V budget s1 = Some (Inr (ret, s')) \<and> k \<le> length (us @ vs') \<and>
          lru_ok s' ([] @ filter (\<lambda>e. \<not> movable s1 e) (take k (us @ vs')) @ drop k (us @ vs')) \<and> ret = (hw_cc_usage V s' < budget) \<and>
          (if ret then 0 < k \<and> movable s1 ((us @ vs') ! (k - 1)) else k = length (us @ vs'))"
        using ok evict fuel by (intro Suc.IH) auto
      then obtain ret s' k where IH: "lru_loop fuel V budget s1 = Some (Inr (ret, s'))" "k \<le> length (us @ vs')"
          "lru_ok s' (filter (\<lambda>e. \<not> movable s1 e) (take k (us @ vs')) @ drop k (us @ vs'))" "ret = (hw_cc_usage V s' < budget)"
          "if ret then 0 < k \<and> movable s1 ((us @ vs') ! (k - 1)) else k = length (us @ vs')" by auto
      have us: "\<not> movable s1 (us ! j)" if "j < length us" for j
        using that Suc.prems(3) keep by auto
      have k: "length us \<le> k"
      proof (rule ccontr)
        assume "\<not> length us \<le> k"
        then show False using IH(5) us [of "k - 1"] by (auto simp: nth_append split: if_splits)
      qed
      define j where "j = k - length us"
      have j: "k = length us + j" "j \<le> length vs'" using k IH(2) by (simp_all add: j_def)
      have "filter (\<lambda>e. \<not> movable s1 e) us = us" using Suc.prems(3) keep by (intro filter_True) auto
      then have ok': "lru_ok s' (us @ filter (\<lambda>e. \<not> movable s e) (take j vs') @ drop j vs')"
        using IH(3) same [of j] j by simp
      have "if ret then 0 < j \<and> movable s1 (vs' ! (j - 1)) else j = length vs'"
        using IH(5) j us [of "k - 1"] by (cases j) (auto simp: nth_append split: if_splits)
      then have "if ret then movable s (vs ! (Suc j - 1)) else Suc j = length vs"
        using nth [of "j - 1"] j(2) Cons by (auto split: if_splits)
      then show ?thesis
        using IH(1,4) ok' turn evict Cons j(2) by (intro exI [of _ ret] exI [of _ s'] exI [of _ "Suc j"]) auto
    qed
  qed
qed simp

lemma lru_move_out_ok:
  assumes ok: "lru_ok s es" and cur: "cur_victim (get_tracker V s) = None" and fuel: "length es * length es + length es < fuel"
  shows "\<exists>ret s' k. lru_move_row_out fuel V budget s = Some (Inr (ret, s')) \<and> k \<le> length es \<and>
    lru_ok s' (filter (\<lambda>e. \<not> movable s e) (take k es) @ drop k es) \<and> cur_victim (get_tracker V s') = None \<and>
    (if hw_cc_usage V s < budget then k = 0 \<and> \<not> ret
     else ret = (hw_cc_usage V s' < budget) \<and> (if ret then 0 < k \<and> movable s (es ! (k - 1)) else k = length es))"
proof (cases "hw_cc_usage V s < budget")
  case True
  then show ?thesis using ok cur by (auto simp: lru_move_row_out_def)
next
  case False
  have "cursor_at s []" using cur by (simp add: cursor_at_def)
  then obtain ret s1 k where run: "lru_loop fuel V budget s = Some (Inr (ret, s1))" "k \<le> length es"
      "lru_ok s1 (filter (\<lambda>e. \<not> movable s e) (take k es) @ drop k es)" "ret = (hw_cc_usage V s1 < budget)"
      "if ret then 0 < k \<and> movable s (es ! (k - 1)) else k = length es"
    using lru_loop_ok [of s "[]" es budget fuel] ok fuel False by auto
  define s' where "s' = put_tracker V (reset_cur_victim (get_tracker V s1)) s1"
  have "lru_ok s' (filter (\<lambda>e. \<not> movable s e) (take k es) @ drop k es)" "cur_victim (get_tracker V s') = None"
    "hw_cc_usage V s' = hw_cc_usage V s1"
    using run(3) by (simp_all add: s'_def reset_cur_victim_def lru_ok_cursor put)
  moreover have "lru_move_row_out fuel V budget s = Some (Inr (ret, s'))"
    using run(1) False by (simp add: lru_move_row_out_def s'_def)
  ultimately show ?thesis
    using run False by (intro exI [of _ ret] exI [of _ s'] exI [of _ k]) auto
qed

end

end
