(* ===== verification/PolicyInst.thy ===== *)
theory PolicyInst
  imports PolicyProps
begin

text \<open>
  The migration policies on top of the migration functions: the contract \<open>migrating\<close> is discharged
  for a B-tree table, and the guarantees of the LRU, FIFO, eager and clock policies follow.
\<close>

section \<open>The contract holds for the migration functions\<close>

text \<open>
  The environment of a policy that manages a B-tree table: the policy state in CXL memory is the
  tracker with the policy metadata of the rows, and \<open>A\<close> is the allocator.
\<close>

type_synonym ('k, 'v) managed = "('k, 'v) rows \<times> ('k, 'v, 'k tracker) cxl"

definition migration_env :: "helper \<Rightarrow> table_info \<Rightarrow> (('k :: linorder, 'v) managed \<Rightarrow> 'v alloc) \<Rightarrow> ('k, ('k, 'v) managed) env" where
  "migration_env H ti A =
     \<lparr>move_in = (\<lambda>e inc s. move_from_partition_to_shared_region H ti lru_init_migration_policy_metadata (A s) inc e (fst s) (snd s)),
      move_out = (\<lambda>e s. move_from_shared_region_to_partition H ti e (fst s) (snd s)),
      delete_row = (\<lambda>e loc s. delete_and_update_next_key_info H ti e loc (fst s) (snd s)),
      hw_cc_usage = (\<lambda>s. size_total_hw_cc_usage (mem (snd s))),
      get_tracker = (\<lambda>s. policy (snd s)), put_tracker = (\<lambda>t s. (fst s, snd s\<lparr>policy := t\<rparr>)),
      row_entity = (\<lambda>s a. map_option entity (nodes (policy (snd s)) a))\<rparr>"

lemma migration_env_sel:
  "get_tracker (migration_env H ti A) s = policy (snd s)"
  "hw_cc_usage (migration_env H ti A) s = size_total_hw_cc_usage (mem (snd s))"
  by (simp_all add: migration_env_def)

definition env_ok :: "helper \<Rightarrow> table_info \<Rightarrow> (('k :: linorder, 'v) managed \<Rightarrow> 'v alloc) \<Rightarrow> bool" where
  "env_ok H ti A \<longleftrightarrow> coordinator_id H < 16 \<and> (enable_scc H \<or> \<not> enable_migration_optimization H) \<and>
     enable_phantom_detection H \<and> tableType ti = BTREE \<and> (\<forall>s. fresh_alloc (A s) (fst s) \<or> a_smeta (A s) = None)"

definition managed_inv :: "helper \<Rightarrow> table_info \<Rightarrow> (('k :: linorder, 'v) managed \<Rightarrow> 'v alloc) \<Rightarrow> ('k, 'v) managed \<Rightarrow> bool" where
  "managed_inv H ti A s \<longleftrightarrow> env_ok H ti A \<and> table_ok s"

definition row_meta :: "('k, 'v) managed \<Rightarrow> 'k \<rightharpoonup> u64" where
  "row_meta s e = Option.bind (map_of (fst s) e) (\<lambda>r. if l_is_migrated r then l_scc_data r else None)"

definition unreferenced :: "('k, 'v) managed \<Rightarrow> 'k \<Rightarrow> bool" where
  "unreferenced s e = (case map_of (fst s) e of None \<Rightarrow> False | Some r \<Rightarrow> row_refs r (snd s) = 0)"

definition delete_allowed :: "helper \<Rightarrow> ('k, 'v) managed \<Rightarrow> 'k \<Rightarrow> bool \<Rightarrow> bool" where
  "delete_allowed H s e loc \<longleftrightarrow>
     (\<forall>r. map_of (fst s) e = Some r \<longrightarrow> l_is_migrated r \<longrightarrow> ndebug H \<or> loc = a_valid (row_abs r (snd s)))"

text \<open>What each function leaves alone, whatever the state.\<close>

lemma map_of_set_row: "map_of (set_row key r rows) k = (if k = key then map_option (\<lambda>_. r) (map_of rows k) else map_of rows k)"
  by (induction rows) (auto simp: set_row_def)

lemma map_of_remove_row: "map_of (remove_row key rows) = (map_of rows)(key := None)"
  by (induction rows) (auto simp: remove_row_def fun_eq_iff)

lemma update_neighbour_frame:
  "update_neighbour f nb c = Inr c' \<Longrightarrow> policy c' = policy c \<and> sccs c' = sccs c \<and> mem c' = mem c"
  by (auto simp: update_neighbour_def res_iffs split: option.splits prod.splits if_splits)

lemma update_neighbours_frame:
  "update_neighbours f g key rows c = Inr c' \<Longrightarrow> policy c' = policy c \<and> sccs c' = sccs c \<and> mem c' = mem c"
  by (auto simp: update_neighbours_def res_iffs dest!: update_neighbour_frame)

lemma latched_frame: "latched p c body = Inr (x, c') \<Longrightarrow> policy c' = policy c \<and> mem c' = mem c"
  by (auto simp: latched_def res_iffs Let_def split: option.splits prod.splits)

lemma free_cxl_row_frame: "free_cxl_row H ti off p c = Inr c' \<Longrightarrow> policy c' = policy c \<and> sccs c' = sccs c"
  by (auto simp: free_cxl_row_def res_iffs split: if_splits)

lemma move_in_frame:
  assumes "move_from_btree_to_shared_region H ti pinit a inc key rows c = Inr ((ret, m), rows', c')"
    "map_of rows key = Some r" "distinct (map fst rows)"
  shows "(\<forall>k. k \<noteq> key \<longrightarrow> map_of rows' k = map_of rows k) \<and>
    (if ret = SUCCESS
     then \<not> l_is_migrated r \<and> (\<exists>off r'. m = Some off \<and> map_of rows' key = Some r' \<and> l_is_migrated r' \<and> l_scc_data r' = Some off \<and>
       policy c' = pinit key off (policy c))
     else rows' = rows \<and> policy c' = policy c)"
proof (cases "l_is_migrated r")
  case True
  then obtain c1 where "update_neighbours sm_set_next_key_real_bit sm_set_prev_key_real_bit key rows c = Inr c1"
      "inc_ref_cnt_via_row inc r c1 = Inr ((), c')" "ret = FAIL_ALREADY_IN_CXL" "rows' = rows"
    using assms(1,2) by (auto simp: move_from_btree_to_shared_region_def res_iffs)
  then show ?thesis
    by (auto simp: inc_ref_cnt_via_row_def split: if_splits dest!: latched_frame update_neighbours_frame)
next
  case False
  then obtain x r1 c1 where x: "move_in_row H ti pinit a (key_info_bits (nb_migrated (next_row key rows)) (nb_migrated (prev_row key rows)))
      inc key r c = Inr ((x, r1), c1)" "rows' = set_row key r1 rows"
      "if x = None then ret = FAIL_OOM \<and> c' = c1 else ret = SUCCESS \<and> m = x \<and>
        update_neighbours sm_set_next_key_real_bit sm_set_prev_key_real_bit key rows c1 = Inr c'"
    using assms(1,2) by (auto simp: move_from_btree_to_shared_region_def res_iffs split: if_splits)
  show ?thesis
  proof (cases x)
    case None
    then have "r1 = r" "\<exists>m. c1 = c\<lparr>mem := m\<rparr>" using move_in_row_oom [OF x(1) [unfolded None]] by simp_all
    then show ?thesis
      using x None set_row_id [OF assms(3,2)] by auto
  next
    case (Some off)
    then have "l_is_migrated r1 \<and> l_scc_data r1 = Some off \<and> policy c1 = pinit key off (policy c)"
      using x(1) by (auto simp: move_in_row_def alloc_scc_data_def res_iffs Let_def index_insert_def split: option.splits prod.splits if_splits)
    then show ?thesis
      using x(2,3) Some False assms(2) by (auto simp: map_of_set_row dest!: update_neighbours_frame)
  qed
qed

lemma move_out_frame:
  assumes inv: "part_inv rows c" "key_info_ok rows c" and H: "coordinator_id H < 16"
    and r: "map_of rows key = Some r" "l_is_migrated r"
    and run: "move_from_btree_to_partition H ti key rows c = Inr (ok, rows', c')"
  shows "(\<forall>k. k \<noteq> key \<longrightarrow> map_of rows' k = map_of rows k) \<and> policy c' = policy c \<and>
    (\<exists>r'. map_of rows' key = Some r' \<and> l_scc_data r' = l_scc_data r \<and> l_is_migrated r' = (\<not> ok)) \<and>
    (\<not> ok \<longrightarrow> mem c' = mem c \<and> sccs c' = sccs c) \<and> (\<forall>k. l_scc_data r \<noteq> Some k \<longrightarrow> sccs c' k = sccs c k)"
proof -
  define r0 where "r0 = (if ndebug H then r else r\<lparr>l_is_valid := True\<rparr>)"
  obtain xs ys where rows: "rows = xs @ (key, r) # ys" using part_inv_key [OF inv(1) r(1)] by metis
  from run r obtain c1 x c2 where c1: "update_neighbours sm_clear_next_key_real_bit sm_clear_prev_key_real_bit key rows c = Inr c1"
      and c2: "move_out_row H r0 c1 = Inr (x, c2)"
      and rest: "(case x of None \<Rightarrow> Inr (False, set_row key r0 rows, c2)
        | Some (r', off) \<Rightarrow>
            bind_res (free_cxl_row H ti off (the (l_migrated_row r0)) c2) (\<lambda>c.
              bind_res (index_remove (tableType ti) key None (index c)) (\<lambda>(ret, idx).
                dcheck (ndebug H) ret (Inr (True, set_row key r' rows, c\<lparr>index := idx\<rparr>))))) = Inr (ok, rows', c')"
    unfolding r0_def by (auto simp: move_from_btree_to_partition_def res_iffs Let_def split: if_splits)
  have r0: "l_is_migrated r0" "l_scc_data r0 = l_scc_data r" using r(2) by (simp_all add: r0_def)
  have "row_ok r c1"
    using update_neighbours_rows [of xs key r ys c c1] inv c1 part_inv_split(3) unfolding rows by blast
  then have ok1: "row_ok r0 c1"
    using r(2) by (auto simp: r0_def row_ok_def row_inv_def row_abs_def)
  note f1 = update_neighbours_frame [OF c1] and f2 = latched_frame [OF c2 [unfolded move_out_row_def]]
  note mo = move_out_row_ok [OF ok1 r0(1) H]
  show ?thesis
  proof (cases x)
    case None
    then have "c2 = c1" using mo c2 by (auto split: if_splits)
    then show ?thesis using rest None r r0 f1 by (auto simp: map_of_set_row)
  next
    case (Some y)
    then obtain r' off where y: "x = Some (r', off)" by (cases y) auto
    have "\<not> l_is_migrated r'" "l_scc_data r' = l_scc_data r" "\<forall>k. l_scc_data r \<noteq> Some k \<longrightarrow> sccs c2 k = sccs c1 k"
      using mo c2 y r0(2) by (auto split: if_splits)
    then show ?thesis
      using rest y r r0 f1 f2 by (auto simp: map_of_set_row res_iffs split: prod.splits dest!: free_cxl_row_frame)
  qed
qed

lemma delete_frame:
  assumes run: "delete_and_update_next_key_info H ti key loc rows c = Inr (x, rows', c')" and inv: "part_inv rows c" "key_info_ok rows c"
  shows "map_of rows' = (map_of rows)(key := None) \<and> policy c' = policy c \<and> x = row_meta (rows, c) key"
proof -
  from run obtain r c1 where r: "map_of rows key = Some r"
    and c1: "update_neighbours sm_clear_next_key_real_bit sm_clear_prev_key_real_bit key rows c = Inr c1"
    by (auto simp: delete_and_update_next_key_info_def res_iffs split: option.splits)
  obtain xs ys where rows: "rows = xs @ (key, r) # ys" using part_inv_key [OF inv(1) r] by metis
  have "row_ok r c1"
    using update_neighbours_rows [of xs key r ys c c1] inv c1 part_inv_split(3) unfolding rows by blast
  then have ri: "row_inv r c1" by (simp add: row_ok_def)
  show ?thesis
  proof (cases "l_is_migrated r")
    case True
    from row_inv_migratedE [OF ri True] obtain p w d where p: "l_migrated_row r = Some p" and at: "shared_at c1 p w d"
      and sc: "l_scc_data r = Some (sm_get_scc_data w)" by metis
    have off: "sm_get_scc_data (upd_fld 63 (Suc 0) 1 w) = sm_get_scc_data w" by (simp add: field_calculus)
    show ?thesis
      using run r c1 True p sc off
      by (auto simp: delete_and_update_next_key_info_def res_iffs latched_at [OF at] row_meta_def map_of_remove_row
          split: if_splits prod.splits dest!: update_neighbours_frame free_cxl_row_frame)
  next
    case False
    then show ?thesis
      using run r c1 by (auto simp: delete_and_update_next_key_info_def row_meta_def map_of_remove_row dest!: update_neighbours_frame)
  qed
qed

lemma row_metaD:
  assumes "row_meta s e = Some a" "table_ok s"
  obtains r where "map_of (fst s) e = Some r" "l_is_migrated r" "l_scc_data r = Some a"
  using assms by (auto simp: row_meta_def bind_eq_Some_conv split: if_splits)

lemma row_meta_inj:
  assumes ok: "table_ok s" and e: "row_meta s e = Some a" "row_meta s e' = Some a"
  shows "e = e'"
proof (rule ccontr)
  assume ne: "e \<noteq> e'"
  obtain r r' where r: "map_of (fst s) e = Some r" "l_scc_data r = Some a" "map_of (fst s) e' = Some r'" "l_scc_data r' = Some a"
    using row_metaD [OF e(1) ok] row_metaD [OF e(2) ok] by metis
  have inv: "part_inv (fst s) (snd s)" using ok by (simp add: table_ok_def)
  obtain xs ys where rows: "fst s = xs @ (e, r) # ys" using part_inv_key [OF inv r(1)] by metis
  have "(e', r') \<in> set (xs @ ys)" using map_of_SomeD [OF r(3)] ne unfolding rows by auto
  then have "apart r r'" using part_inv_split(6) inv unfolding rows by fastforce
  then show False using r(2,4) by (simp add: apart_def)
qed

text \<open>Other rows keep their data blocks apart from the one that moves.\<close>

lemma other_refs:
  assumes ok: "table_ok s" and e: "map_of (fst s) e = Some r" "l_scc_data r = Some a"
    and x: "x \<noteq> e" "map_of (fst s) x = Some r'" "row_meta s x = Some b" and sd: "\<forall>k. k \<noteq> a \<longrightarrow> sccs c' k = sccs (snd s) k"
  shows "row_refs r' c' = row_refs r' (snd s)"
proof -
  have inv: "part_inv (fst s) (snd s)" using ok by (simp add: table_ok_def)
  obtain xs ys where rows: "fst s = xs @ (e, r) # ys" using part_inv_key [OF inv e(1)] by metis
  have "(x, r') \<in> set (xs @ ys)" using map_of_SomeD [OF x(2)] x(1) unfolding rows by auto
  then have "apart r r'" using part_inv_split(6) inv unfolding rows by fastforce
  moreover have "l_scc_data r' = Some b" using x(2,3) by (auto simp: row_meta_def split: if_splits)
  ultimately show ?thesis using e(2) sd by (auto simp: row_refs_def apart_def)
qed

lemma move_in_law:
  assumes inv: "managed_inv H ti A s" and known: "map_of (fst s) e \<noteq> None"
  shows "\<exists>ret m s'. move_in (migration_env H ti A) e inc s = Inr ((ret, m), s') \<and> managed_inv H ti A s' \<and>
    (if ret = SUCCESS
     then \<exists>a. m = Some a \<and> row_meta s e = None \<and> row_meta s' = (row_meta s)(e \<mapsto> a) \<and> a \<notin> ran (row_meta s) \<and>
       get_tracker (migration_env H ti A) s' = lru_init_migration_policy_metadata e a (get_tracker (migration_env H ti A) s) \<and>
       row_entity (migration_env H ti A) s' a = Some e
     else row_meta s' = row_meta s \<and> get_tracker (migration_env H ti A) s' = get_tracker (migration_env H ti A) s)"
proof -
  obtain rows c where s: "s = (rows, c)" by (cases s)
  obtain r where r: "map_of rows e = Some r" using known s by auto
  have H: "coordinator_id H < 16" "enable_scc H \<or> \<not> enable_migration_optimization H" "enable_phantom_detection H" "tableType ti = BTREE"
    and ok: "part_inv rows c" "key_info_ok rows c"
    and A: "fresh_alloc (A s) rows \<or> a_smeta (A s) = None"
    using inv s by (auto simp: managed_inv_def env_ok_def table_ok_def)
  let ?mv = "move_from_btree_to_shared_region H ti lru_init_migration_policy_metadata (A s) inc e rows c"
  have mv: "move_in (migration_env H ti A) e inc s = ?mv"
    using H s by (simp add: migration_env_def move_from_partition_to_shared_region_def)
  obtain xs ys where rows: "rows = xs @ (e, r) # ys" using part_inv_key [OF ok(1) r] by metis
  have disp: "move_from_partition_to_shared_region H ti = move_from_btree_to_shared_region H ti"
    using H by (simp add: move_from_partition_to_shared_region_def)
  have "\<exists>ret m rows' c'. ?mv = Inr ((ret, m), rows', c') \<and> (fresh_alloc (A s) rows \<or> ret = FAIL_OOM \<or> l_is_migrated r)"
  proof (cases "l_is_migrated r")
    case True
    then show ?thesis
      using move_in_again [of xs e r ys c H ti lru_init_migration_policy_metadata "A s" inc] ok unfolding rows disp by auto
  next
    case new: False
    show ?thesis
    proof (cases "a_smeta (A s) = None")
      case True
      then show ?thesis
        using r new by (simp add: move_from_btree_to_shared_region_def move_in_row_def malloc_wrapper_def Let_def)
    next
      case False
      then show ?thesis
        using A move_in_new [of xs e r ys c H "A s" ti lru_init_migration_policy_metadata inc] new ok H unfolding rows disp by auto
    qed
  qed
  then obtain ret m rows' c' where run: "?mv = Inr ((ret, m), rows', c')"
    and al: "fresh_alloc (A s) rows \<or> ret = FAIL_OOM \<or> l_is_migrated r" by blast
  have ok': "table_ok (rows', c')"
  proof (cases "l_is_migrated r")
    case True
    then show ?thesis
      using move_in_again [of xs e r ys c H ti lru_init_migration_policy_metadata "A s" inc] ok run
      unfolding rows disp by (auto simp: table_ok_def)
  next
    case False
    then show ?thesis using step_move_in [OF ok H run] al by (auto simp: table_ok_def)
  qed
  have d: "distinct (map fst rows)" by (rule part_inv_distinct [OF ok(1)])
  note fr = move_in_frame [OF run r d]
  have inv': "managed_inv H ti A (rows', c')" using inv ok' by (simp add: managed_inv_def)
  show ?thesis
  proof (cases "ret = SUCCESS")
    case True
    with fr obtain a r' where a: "m = Some a" "map_of rows' e = Some r'" "l_is_migrated r'" "l_scc_data r' = Some a"
      "policy c' = lru_init_migration_policy_metadata e a (policy c)" "\<not> l_is_migrated r" by auto
    have new: "row_meta s e = None" using r a(6) s by (simp add: row_meta_def)
    have upd: "row_meta (rows', c') = (row_meta s)(e \<mapsto> a)"
      using fr a s by (auto simp: fun_eq_iff row_meta_def)
    have "a \<notin> ran (row_meta s)"
    proof
      assume "a \<in> ran (row_meta s)"
      then obtain x where "row_meta s x = Some a" by (auto simp: ran_def)
      then have "row_meta (rows', c') x = Some a" "x \<noteq> e" "row_meta (rows', c') e = Some a" using upd new by auto
      then show False using row_meta_inj [OF ok'] by blast
    qed
    then show ?thesis
      using run mv inv' True a new upd s
      by (auto simp: migration_env_def lru_init_migration_policy_metadata_def intro!: exI [of _ SUCCESS])
  next
    case False
    then show ?thesis
      using run mv inv' fr s by (auto simp: migration_env_def row_meta_def fun_eq_iff)
  qed
qed

lemma move_out_law:
  assumes inv: "managed_inv H ti A s" and e: "row_meta s e \<noteq> None"
  shows "\<exists>s'. move_out (migration_env H ti A) e s = Inr (unreferenced s e, s') \<and> managed_inv H ti A s' \<and>
    row_meta s' = (if unreferenced s e then (row_meta s)(e := None) else row_meta s) \<and>
    get_tracker (migration_env H ti A) s' = get_tracker (migration_env H ti A) s \<and>
    (\<forall>x. row_meta s' x \<noteq> None \<longrightarrow> unreferenced s' x = unreferenced s x) \<and>
    (\<not> unreferenced s e \<longrightarrow> hw_cc_usage (migration_env H ti A) s' = hw_cc_usage (migration_env H ti A) s)"
proof -
  obtain rows c where s: "s = (rows, c)" by (cases s)
  have H: "coordinator_id H < 16" "enable_phantom_detection H" "tableType ti = BTREE"
    and ok: "part_inv rows c" "key_info_ok rows c" and tok: "table_ok s"
    using inv s by (auto simp: managed_inv_def env_ok_def table_ok_def)
  from e obtain a where a: "row_meta s e = Some a" by auto
  from row_metaD [OF a tok] s obtain r where r: "map_of rows e = Some r" "l_is_migrated r" "l_scc_data r = Some a" by auto
  obtain xs ys where rows: "rows = xs @ (e, r) # ys" using part_inv_key [OF ok(1) r(1)] by metis
  have u: "unreferenced s e = (row_refs r c = 0)" using r(1) s by (simp add: unreferenced_def)
  from move_out_btree [of xs e r ys c H ti] ok r(2) H obtain rows' c'
    where run: "move_from_btree_to_partition H ti e rows c = Inr (unreferenced s e, rows', c')"
      and ok': "table_ok (rows', c')"
    unfolding u rows table_ok_def by auto
  note fr = move_out_frame [OF ok H(1) r(1,2) run]
  then obtain r' where r': "map_of rows' e = Some r'" "l_scc_data r' = Some a" "l_is_migrated r' = (\<not> unreferenced s e)"
    using r(3) by auto
  have upd: "row_meta (rows', c') = (if unreferenced s e then (row_meta s)(e := None) else row_meta s)"
  proof
    fix x
    show "row_meta (rows', c') x = (if unreferenced s e then (row_meta s)(e := None) else row_meta s) x"
      using fr r' r s by (cases "x = e") (auto simp: row_meta_def)
  qed
  have "unreferenced (rows', c') x = unreferenced s x" if x: "row_meta (rows', c') x \<noteq> None" for x
  proof (cases "x = e")
    case True
    then have "\<not> unreferenced s e" using x upd by auto
    then have "sccs c' = sccs c" using fr by blast
    then show ?thesis using True r' r s by (simp add: unreferenced_def row_refs_def)
  next
    case False
    then obtain b where b: "row_meta s x = Some b" using x upd by (auto split: if_splits)
    from row_metaD [OF b tok] s obtain q where q: "map_of rows x = Some q" by auto
    have "\<forall>k. k \<noteq> a \<longrightarrow> sccs c' k = sccs (snd s) k" using fr r(3) s by simp
    then have "row_refs q c' = row_refs q (snd s)"
      using other_refs [OF tok _ r(3) False _ b, of q c'] q r(1) s by auto
    then show ?thesis using q fr False s by (simp add: unreferenced_def)
  qed
  moreover have "managed_inv H ti A (rows', c')" using inv ok' by (simp add: managed_inv_def)
  moreover have "move_out (migration_env H ti A) e s = Inr (unreferenced s e, rows', c')"
    using run H s by (simp add: migration_env_def move_from_shared_region_to_partition_def)
  ultimately show ?thesis
    using upd fr s by (intro exI [of _ "(rows', c')"]) (simp add: migration_env_def)
qed

lemma delete_law:
  assumes inv: "managed_inv H ti A s" and e: "map_of (fst s) e \<noteq> None" "delete_allowed H s e loc"
  shows "\<exists>s'. delete_row (migration_env H ti A) e loc s = Inr (row_meta s e, s') \<and> managed_inv H ti A s' \<and>
    row_meta s' = (row_meta s)(e := None) \<and> get_tracker (migration_env H ti A) s' = get_tracker (migration_env H ti A) s"
proof -
  obtain rows c where s: "s = (rows, c)" by (cases s)
  obtain r where r: "map_of rows e = Some r" using e s by auto
  have H: "tableType ti = BTREE" and ok: "part_inv rows c" "key_info_ok rows c"
    using inv s by (auto simp: managed_inv_def env_ok_def table_ok_def)
  obtain xs ys where rows: "rows = xs @ (e, r) # ys" using part_inv_key [OF ok(1) r] by metis
  from delete_step [of xs e r ys c ti H loc] ok H e(2) r s obtain x rows' c'
    where run: "delete_and_update_next_key_info H ti e loc rows c = Inr (x, rows', c')" and ok': "table_ok (rows', c')"
    unfolding rows delete_allowed_def table_ok_def by auto
  note fr = delete_frame [OF run ok]
  have "row_meta (rows', c') = (row_meta s)(e := None)"
    using fr s by (auto simp: fun_eq_iff row_meta_def)
  moreover have "managed_inv H ti A (rows', c')" using inv ok' by (simp add: managed_inv_def)
  ultimately show ?thesis
    using run fr s by (intro exI [of _ "(rows', c')"]) (simp add: migration_env_def)
qed

lemma part_inv_cong:
  assumes "smetas c' = smetas c" "sccs c' = sccs c" "index c' = index c"
  shows "part_inv rows c' = part_inv rows c" "key_info_ok rows c' = key_info_ok rows c"
proof -
  have "row_ok r c' = row_ok r c" for r
    using assms by (simp add: row_ok_def row_inv_def row_abs_def shared_at_def)
  then show "part_inv rows c' = part_inv rows c" using assms by (simp add: part_inv_def)
  show "key_info_ok rows c' = key_info_ok rows c" using assms by (simp add: key_info_ok_def key_info_def)
qed

lemma part_inv_policy: "part_inv rows (c\<lparr>policy := t\<rparr>) = part_inv rows c" "key_info_ok rows (c\<lparr>policy := t\<rparr>) = key_info_ok rows c"
  by (rule part_inv_cong; simp)+

interpretation mig: migrating "migration_env H ti A" "managed_inv H ti A" row_meta "\<lambda>s e. map_of (fst s) e \<noteq> None"
  unreferenced "delete_allowed H"
  for H :: helper and ti :: table_info and A :: "('k :: linorder, 'v) managed \<Rightarrow> 'v alloc"
proof (unfold_locales, goal_cases)
  case (1 s e inc)
  then show ?case by (rule move_in_law)
next
  case (2 s e)
  then show ?case by (rule move_out_law)
next
  case (3 s e loc)
  then show ?case by (rule delete_law)
next
  case (9 s e a e')
  then show ?case using row_meta_inj [of s e a e'] by (simp add: managed_inv_def)
qed (auto simp: migration_env_def managed_inv_def table_ok_def part_inv_policy row_meta_def unreferenced_def row_refs_def fun_eq_iff
    split: option.splits)

text \<open>The list invariants, written out for the managed table.\<close>

definition lru_list :: "helper \<Rightarrow> table_info \<Rightarrow> (('k :: linorder, 'v) managed \<Rightarrow> 'v alloc) \<Rightarrow> ('k, 'v) managed \<Rightarrow> 'k list \<Rightarrow> bool" where
  "lru_list H ti A s es \<longleftrightarrow> managed_inv H ti A s \<and> distinct es \<and> set es = dom (row_meta s) \<and>
     tracks (policy (snd s)) (map (the \<circ> row_meta s) es) \<and>
     (\<forall>e a. row_meta s e = Some a \<longrightarrow> map_option entity (nodes (policy (snd s)) a) = Some e)"

definition fifo_list :: "helper \<Rightarrow> table_info \<Rightarrow> (('k :: linorder, 'v) managed \<Rightarrow> 'v alloc) \<Rightarrow> ('k, 'v) managed \<Rightarrow> 'k list \<Rightarrow> bool" where
  "fifo_list H ti A s q \<longleftrightarrow> managed_inv H ti A s \<and> distinct q \<and> set q = dom (row_meta s)"

lemma lru_ok_iff: "mig.lru_ok H ti A s es = lru_list H ti A s es"
  unfolding mig.lru_ok_def lru_list_def by (simp add: migration_env_def)

lemma queue_ok_iff: "mig.queue_ok H ti A (q, s) = fifo_list H ti A s q"
  unfolding mig.queue_ok_def fifo_list_def by simp

section \<open>Histories of the LRU policy\<close>

inductive lru_step :: "('k :: linorder, ('k, 'v) managed) env \<Rightarrow> helper \<Rightarrow> ('k, 'v) managed \<Rightarrow> ('k, 'v) managed \<Rightarrow> bool"
  for V :: "('k, ('k, 'v) managed) env" and H :: helper where
  move_in: "lru_step V H s s'" if "map_of (fst s) e \<noteq> None" "lru_move_row_in V e inc s = Inr (ret, s')"
| access: "lru_step V H s s'" if "row_meta s e = Some a" "lru_access_row V a s = Inr s'"
| move_out: "lru_step V H s s'" if "lru_move_row_out fuel V budget s = Some (Inr (ret, s'))"
| delete: "lru_step V H s s'" if "map_of (fst s) e \<noteq> None" "delete_allowed H s e loc" "lru_delete V e loc s = Inr (ret, s')"

lemma lru_loop_mono: "lru_loop k V budget s = Some r \<Longrightarrow> k \<le> k' \<Longrightarrow> lru_loop k' V budget s = Some r"
proof (induction k arbitrary: k' s)
  case (Suc k)
  from Suc.prems(2) obtain j where "k' = Suc j" "k \<le> j" by (cases k') auto
  then show ?case using Suc by (auto split: sum.splits)
qed simp

lemma lru_move_row_out_mono:
  "lru_move_row_out k V budget s = Some r \<Longrightarrow> k \<le> k' \<Longrightarrow> lru_move_row_out k' V budget s = Some r"
  using lru_loop_mono [of k V budget s _ k'] by (auto simp: lru_move_row_out_def split: if_splits)

definition lru_inv :: "helper \<Rightarrow> table_info \<Rightarrow> (('k :: linorder, 'v) managed \<Rightarrow> 'v alloc) \<Rightarrow> ('k, 'v) managed \<Rightarrow> bool" where
  "lru_inv H ti A s \<longleftrightarrow> (\<exists>es. lru_list H ti A s es) \<and> cur_victim (policy (snd s)) = None"

lemma lru_step_inv:
  assumes "lru_step (migration_env H ti A) H s s'" "lru_inv H ti A s"
  shows "lru_inv H ti A s'"
proof -
  let ?V = "migration_env H ti A"
  note V = migration_env_sel(1)
  obtain es where ok: "mig.lru_ok H ti A s es" and cur: "cur_victim (policy (snd s)) = None"
    using assms(2) by (auto simp: lru_inv_def lru_ok_iff)
  from assms(1) show ?thesis
  proof cases
    case (move_in e inc ret)
    then show ?thesis
      using mig.lru_move_in_ok [OF ok move_in(1), of inc] cur unfolding lru_inv_def lru_ok_iff V by auto
  next
    case (access e a)
    then show ?thesis
      using mig.lru_access_ok [OF ok access(1)] cur unfolding lru_inv_def lru_ok_iff V by auto
  next
    case (move_out fuel budget ret)
    define k where "k = max fuel (Suc (length es * length es + length es))"
    have "lru_move_row_out k ?V budget s = Some (Inr (ret, s'))"
      using move_out by (rule lru_move_row_out_mono) (simp add: k_def)
    moreover have "length es * length es + length es < k" by (simp add: k_def less_max_iff_disj)
    ultimately show ?thesis
      using mig.lru_move_out_ok [OF ok, unfolded V, OF cur, of k budget] unfolding lru_inv_def lru_ok_iff by auto
  next
    case (delete e loc ret)
    then show ?thesis
      using mig.lru_delete_ok [OF ok delete(1,2)] cur unfolding lru_inv_def lru_ok_iff V by auto
  qed
qed

lemma row_meta_dom:
  assumes "table_ok s"
  shows "dom (row_meta s) = dom (index (snd s))"
proof -
  have inv: "part_inv (fst s) (snd s)" using assms by (simp add: table_ok_def)
  have "row_meta s e \<noteq> None \<longleftrightarrow> index (snd s) e \<noteq> None" for e
  proof (cases "map_of (fst s) e")
    case None
    then show ?thesis using inv by (simp add: row_meta_def part_inv_def index_of_def)
  next
    case (Some r)
    then have ok: "row_ok r (snd s)" using inv map_of_SomeD [OF Some] by (auto simp: part_inv_def)
    then have ri: "row_inv r (snd s)" by (simp add: row_ok_def)
    show ?thesis
    proof (cases "l_is_migrated r")
      case True
      from row_inv_migratedE [OF ri True] have "l_migrated_row r \<noteq> None" "l_scc_data r \<noteq> None" by (metis option.distinct(1))+
      then show ?thesis using Some True inv by (simp add: row_meta_def part_inv_def index_of_def)
    qed (use Some inv in \<open>simp add: row_meta_def part_inv_def index_of_def\<close>)
  qed
  then show ?thesis by (auto simp: dom_def)
qed



text \<open>A managed table: row 1 in CXL memory and tracked, rows 2 and 9 in the partition; the allocator is exhausted.\<close>

definition demo_managed :: "(nat, nat) managed" where
  "demo_managed = (demo_rows, \<lparr>smetas = smetas demo_cxl, sccs = sccs demo_cxl, index = index demo_cxl,
     policy = tracker_init\<lparr>nodes := [64 \<mapsto> \<lparr>entity = 1, prev = None, nxt = None\<rparr>], head := Some 64, tail := Some 64\<rparr>,
     mem = mem demo_cxl, retired = retired demo_cxl\<rparr>)"

definition no_memory :: "(nat, nat) managed \<Rightarrow> nat alloc" where
  "no_memory s = \<lparr>a_smeta = None, a_scc = None\<rparr>"

lemma demo_env_ok: "env_ok (owner_helper SCCNoOP) demo_table no_memory"
  by (simp add: env_ok_def owner_helper_def demo_table_def no_memory_def)

lemma demo_managed_inv: "managed_inv (owner_helper SCCNoOP) demo_table no_memory demo_managed"
proof -
  have "part_inv demo_rows (snd demo_managed)" "key_info_ok demo_rows (snd demo_managed)"
    using demo_part(1,2) part_inv_cong [of "snd demo_managed" demo_cxl demo_rows] by (simp_all add: demo_managed_def)
  then show ?thesis using demo_env_ok by (simp add: managed_inv_def table_ok_def demo_managed_def)
qed

lemma demo_row_meta: "row_meta demo_managed = [1 \<mapsto> 64]"
  by (auto simp: fun_eq_iff row_meta_def demo_managed_def demo_rows_def demo_row_def demo_private_def metadata_local_init_def)

lemma demo_lru_list: "lru_list (owner_helper SCCNoOP) demo_table no_memory demo_managed [1]"
  using demo_managed_inv demo_row_meta
  by (auto simp: lru_list_def demo_managed_def tracks_def tracker_init_def last_opt_def split: if_splits)


definition empty_managed :: "(nat, nat) managed" where
  "empty_managed = ([(2, demo_private)], \<lparr>smetas = Map.empty, sccs = Map.empty, index = Map.empty, policy = tracker_init,
     mem = cxl_memory_init, retired = []\<rparr>)"

definition demo_memory :: "(nat, nat) managed \<Rightarrow> nat alloc" where
  "demo_memory s = (if fresh_alloc demo_alloc (fst s) then demo_alloc else \<lparr>a_smeta = None, a_scc = None\<rparr>)"


section \<open>The FIFO and eager policies\<close>

text \<open>
  C29: Eviction by the FIFO policy over its budget: the oldest rows are tried first, those nobody
  references are moved out, the others stay in their order, and the queue holds exactly the rows
  still in CXL memory. It stops early only when the usage has come below the budget, and it returns
  whether the last attempt succeeded.
\<close>

theorem fifo_eviction:
  assumes "fifo_list H ti A s q" "budget \<le> size_total_hw_cc_usage (mem (snd s))"
  shows "\<exists>ret s' k. fifo_move_row_out (migration_env H ti A) budget (q, s) =
      Inr (ret, filter (\<lambda>e. \<not> unreferenced s e) (take k q) @ drop k q, s') \<and>
    fifo_list H ti A s' (filter (\<lambda>e. \<not> unreferenced s e) (take k q) @ drop k q) \<and>
    (k < length q \<longrightarrow> size_total_hw_cc_usage (mem (snd s')) < budget) \<and>
    k \<le> length q \<and> ret = (0 < k \<and> unreferenced s (q ! (k - 1)))"
proof -
  have pre: "managed_inv H ti A s" "distinct ([] @ q)" "set ([] @ q) = dom (row_meta s)"
    using assms(1) by (simp_all add: fifo_list_def)
  have "\<not> size_total_hw_cc_usage (mem (snd s)) < budget" using assms(2) by simp
  then have "fifo_move_row_out (migration_env H ti A) budget (q, s) = fifo_loop (migration_env H ti A) budget False [] q s"
    by (simp add: fifo_move_row_out_def migration_env_sel)
  moreover obtain ret s' k where
      "fifo_loop (migration_env H ti A) budget False [] q s = Inr (ret, filter (\<lambda>e. \<not> unreferenced s e) (take k q) @ drop k q, s')"
      "k \<le> length q" "fifo_list H ti A s' (filter (\<lambda>e. \<not> unreferenced s e) (take k q) @ drop k q)"
      "k < length q \<longrightarrow> ret \<and> size_total_hw_cc_usage (mem (snd s')) < budget"
      "ret = (if k = 0 then False else unreferenced s (q ! (k - 1)))"
    using mig.fifo_loop_ok [OF pre, of budget False, unfolded queue_ok_iff migration_env_sel append_Nil] by blast
  ultimately show ?thesis
    by (intro exI [of _ ret] exI [of _ s'] exI [of _ k]) simp
qed

theorem fifo_eviction_witness:
  "\<exists>s'. fifo_move_row_out (migration_env (owner_helper SCCNoOP) demo_table no_memory) 0 ([1], demo_managed) = Inr (True, [], s') \<and>
     fifo_list (owner_helper SCCNoOP) demo_table no_memory s' []"
proof -
  have q: "fifo_list (owner_helper SCCNoOP) demo_table no_memory demo_managed [1]"
    using demo_lru_list by (simp add: fifo_list_def lru_list_def)
  have "unreferenced demo_managed 1"
    by (simp add: demo_managed_def unreferenced_def demo_rows_def row_refs_def demo_row_def demo_cxl_def demo_data_def)
  then show ?thesis
    using fifo_eviction [OF q, of 0] by (auto simp: le_Suc_eq)
qed

text \<open>
  C30: The eager policy: after a call no row is left in CXL memory except those a transaction
  references, and the queue holds exactly these.
\<close>

theorem eager_eviction:
  assumes "fifo_list H ti A s q"
  shows "\<exists>s'. eagerly_move_row_out (migration_env H ti A) (q, s) = Inr (True, filter (\<lambda>e. \<not> unreferenced s e) q, s') \<and>
    dom (index (snd s')) = {e \<in> dom (index (snd s)). \<not> unreferenced s e}"
proof -
  have pre: "managed_inv H ti A s" "distinct ([] @ q)" "set ([] @ q) = dom (row_meta s)"
    using assms(1) by (simp_all add: fifo_list_def)
  from mig.eagerly_loop_ok [OF pre, unfolded queue_ok_iff append_Nil] obtain s'
    where run: "eagerly_loop (migration_env H ti A) [] q s = Inr (filter (\<lambda>e. \<not> unreferenced s e) q, s')"
      and ok: "fifo_list H ti A s' (filter (\<lambda>e. \<not> unreferenced s e) q)" by blast
  have "dom (row_meta s') = dom (index (snd s'))" "dom (row_meta s) = dom (index (snd s))"
    using ok assms by (auto intro!: row_meta_dom simp: fifo_list_def managed_inv_def simp del: domIff)
  then show ?thesis
    using run ok pre(3) by (auto simp: eagerly_move_row_out_def fifo_list_def)
qed

theorem eager_eviction_witness:
  "\<exists>s'. eagerly_move_row_out (migration_env (owner_helper SCCNoOP) demo_table no_memory) ([1], demo_managed) = Inr (True, [], s') \<and>
     dom (index (snd s')) = {}"
proof -
  have q: "fifo_list (owner_helper SCCNoOP) demo_table no_memory demo_managed [1]"
    using demo_lru_list by (simp add: fifo_list_def lru_list_def)
  have "unreferenced demo_managed 1"
    by (simp add: demo_managed_def unreferenced_def demo_rows_def row_refs_def demo_row_def demo_cxl_def demo_data_def)
  moreover from this have none: "{e \<in> dom (index (snd demo_managed)). \<not> unreferenced demo_managed e} = {}"
    by (auto simp: demo_managed_def demo_cxl_def split: if_splits)
  ultimately show ?thesis
    using eager_eviction [OF q, unfolded none] by simp
qed

section \<open>The clock policy\<close>

text \<open>
  C31: Under the clock policy the process aborts when a transaction deletes a row that is in CXL
  memory: the policy asserts that a deleted row never has to be untracked.
\<close>

theorem clock_delete_aborts:
  fixes V :: "('k :: linorder, ('k, 'v) managed) clock_env"
  assumes "delete_row V = delete_row (migration_env H ti A)" "managed_inv H ti A s" "index (snd s) e \<noteq> None" "delete_allowed H s e loc"
  shows "clock_delete V e loc (t, s) = Inl Check_failed"
proof -
  have "row_meta s e \<noteq> None"
    using row_meta_dom [of s] assms(2,3) by (auto simp: managed_inv_def dom_def set_eq_iff)
  moreover from this have "map_of (fst s) e \<noteq> None" by (auto simp: row_meta_def bind_eq_Some_conv)
  ultimately show ?thesis
    using delete_law [OF assms(2) _ assms(4)] by (auto simp: clock_delete_def assms(1) check_def)
qed

definition demo_clock :: "(nat, (nat, nat) managed) clock_env" where
  "demo_clock = env.extend (migration_env (owner_helper SCCNoOP) demo_table no_memory) (clock_env.fields (\<lambda>_ _. 0) (\<lambda>_ _ s. s))"

theorem clock_delete_aborts_witness: "clock_delete demo_clock 1 True (tracker_init, demo_managed) = Inl Check_failed"
proof -
  have "delete_row demo_clock = delete_row (migration_env (owner_helper SCCNoOP) demo_table no_memory)"
    by (simp add: demo_clock_def env.defs clock_env.defs)
  then show ?thesis
    using clock_delete_aborts [OF _ demo_managed_inv, of demo_clock 1 True]
    by (simp add: delete_allowed_def owner_helper_def demo_managed_def demo_cxl_def)
qed

end
