(* ===== verification/BTree.thy ===== *)
theory BTree
  imports Prelude
begin

text \<open>
  The B+-tree of the tables, \<open>common/btree_olc/BTreeOLC.h\<close>. The locks are optimistic; the model is an
  operation that runs without interference, so no version check fails and an operation restarts
  only where the code restarts after it has split a node. Inner nodes are a datatype; a leaf carries
  its address, because the leaves are also chained by \<open>pre_\<close> and \<open>next_\<close>, which are fields of the
  state. Node arrays with a count are lists. A retired leaf is no longer in the tree, so following a
  pointer to it is an error. The capacities \<open>BTreeLeaf::maxEntries\<close> and \<open>BTreeInner::maxEntries\<close> are parameters.
\<close>

section \<open>Nodes and state\<close>

record caps =
  leaf_max :: nat
  inner_max :: nat

type_synonym ('k, 'v) kvs = "('k \<times> 'v) list"

datatype ('k, 'v) bt = Leaf nat "('k, 'v) kvs" | Inner "'k list" "('k, 'v) bt list"

record tstate =
  pre_leaf :: "nat \<Rightarrow> nat option"
  next_leaf :: "nat \<Rightarrow> nat option"
  fresh :: nat
  inner_nodes :: u64
  leaf_nodes :: u64
  num_items :: u64

lemma size_kid [termination_simp]: "i < length cs \<Longrightarrow> size (cs ! i) < Suc (n + size_list size cs)"
  using size_list_estimation' [of "cs ! i" cs "size (cs ! i)" size] by (simp add: less_Suc_eq_le)

definition bplus_tree :: "('k, 'v) bt \<times> tstate" where
  "bplus_tree = (Leaf 0 [], \<lparr>pre_leaf = (\<lambda>_. None), next_leaf = (\<lambda>_. None), fresh = 1, inner_nodes = 0, leaf_nodes = 1, num_items = 0\<rparr>)"

section \<open>Searching in a node\<close>

text \<open>A node with fewer than 128 keys is searched from the left, a larger one by bisection.\<close>

function linear_loop :: "('k :: linorder) list \<Rightarrow> 'k \<Rightarrow> nat \<Rightarrow> nat" where
  "linear_loop ks k left = (if left < length ks \<and> ks ! left < k then linear_loop ks k (Suc left) else left)"
  by pat_completeness auto
termination by (relation "measure (\<lambda>(ks, k, left). length ks - left)") auto

function binary_loop :: "('k :: linorder) list \<Rightarrow> 'k \<Rightarrow> int \<Rightarrow> int \<Rightarrow> int" where
  "binary_loop ks k left right =
     (if left \<le> right then
        let mid = left + (right - left) div 2 in
        if ks ! nat mid = k then mid
        else if ks ! nat mid < k then binary_loop ks k (mid + 1) right
        else binary_loop ks k left (mid - 1)
      else left)"
  by pat_completeness auto
termination by (relation "measure (\<lambda>(ks, k, left, right). nat (right - left + 1))") auto

declare linear_loop.simps [simp del] binary_loop.simps [simp del]

definition lowerBound :: "('k :: linorder) list \<Rightarrow> 'k \<Rightarrow> nat" where
  "lowerBound ks k =
     (if length ks < 128 then linear_loop ks k 0 else nat (binary_loop ks k 0 (int (length ks) - 1)))"

section \<open>BTreeLeaf\<close>

definition leaf_insert :: "('k :: linorder, 'v) kvs \<Rightarrow> 'k \<Rightarrow> 'v \<Rightarrow> bool \<times> ('k, 'v) kvs" where
  "leaf_insert kvs k v =
     (let pos = lowerBound (map fst kvs) k in
      if pos < length kvs \<and> fst (kvs ! pos) = k then (False, kvs)
      else (True, take pos kvs @ (k, v) # drop pos kvs))"

definition leaf_erase :: "nat \<Rightarrow> ('k, 'v) kvs \<Rightarrow> ('k, 'v) kvs" where
  "leaf_erase pos kvs = take pos kvs @ drop (Suc pos) kvs"

text \<open>
  The new leaf \<open>b\<close> takes the upper half and is chained behind \<open>a\<close>; the \<open>pre_\<close> pointer of the leaf that
  followed \<open>a\<close> is not touched.
\<close>

definition leaf_split ::
  "nat \<Rightarrow> ('k, 'v) kvs \<Rightarrow> 'z tstate_scheme \<Rightarrow> (('k, 'v) kvs \<times> 'k \<times> nat \<times> ('k, 'v) kvs) \<times> 'z tstate_scheme" where
  "leaf_split a kvs s =
     (let n = length kvs - (length kvs - length kvs div 2); b = fresh s in
      ((take n kvs, fst (kvs ! (n - 1)), b, drop n kvs),
       s\<lparr>next_leaf := (next_leaf s)(b := next_leaf s a, a := Some b), pre_leaf := (pre_leaf s)(b := Some a),
         fresh := Suc b, leaf_nodes := leaf_nodes s + 1\<rparr>))"

definition leaf_merge :: "nat \<Rightarrow> nat \<Rightarrow> 'z tstate_scheme \<Rightarrow> 'z tstate_scheme" where
  "leaf_merge a b s =
     (let s = s\<lparr>next_leaf := (next_leaf s)(a := next_leaf s b), leaf_nodes := leaf_nodes s - 1\<rparr> in
      case next_leaf s a of None \<Rightarrow> s | Some c \<Rightarrow> s\<lparr>pre_leaf := (pre_leaf s)(c := Some a)\<rparr>)"

text \<open>\<open>kMergeThreshold\<close> is 0.4, as a float the next value above it: the test holds at equality.\<close>

definition needMerge :: "nat \<Rightarrow> nat \<Rightarrow> bool" where
  "needMerge maxEntries count \<longleftrightarrow> 5 * count \<le> 2 * maxEntries"

definition getSurplus :: "nat \<Rightarrow> nat \<Rightarrow> int" where
  "getSurplus maxEntries count = int count - int ((2 * maxEntries + 4) div 5)"

section \<open>BTreeInner\<close>

definition inner_isFull :: "caps \<Rightarrow> 'k list \<Rightarrow> bool" where
  "inner_isFull C ks \<longleftrightarrow> length ks = inner_max C - 1"

definition inner_insert :: "('k :: linorder) \<Rightarrow> ('k, 'v) bt \<Rightarrow> 'k list \<Rightarrow> ('k, 'v) bt list \<Rightarrow> ('k, 'v) bt" where
  "inner_insert k child ks cs =
     (let pos = lowerBound ks k in
      Inner (take pos ks @ k # drop pos ks) (take (Suc pos) cs @ child # drop (Suc pos) cs))"

definition inner_split :: "'k list \<Rightarrow> ('k, 'v) bt list \<Rightarrow> ('k, 'v) bt \<times> 'k \<times> ('k, 'v) bt" where
  "inner_split ks cs =
     (let n = length ks - (length ks - length ks div 2) - 1 in
      (Inner (take n ks) (take (Suc n) cs), ks ! n, Inner (drop (Suc n) ks) (drop (Suc n) cs)))"

text \<open>The key at \<open>pos\<close> and the child behind it.\<close>

definition inner_erase :: "nat \<Rightarrow> 'k list \<Rightarrow> ('k, 'v) bt list \<Rightarrow> 'k list \<times> ('k, 'v) bt list" where
  "inner_erase pos ks cs = (take pos ks @ drop (Suc pos) ks, take (Suc pos) cs @ drop (Suc (Suc pos)) cs)"

section \<open>Finding a leaf\<close>

fun find_leaf :: "('k :: linorder) \<Rightarrow> ('k, 'v) bt \<Rightarrow> (nat \<times> ('k, 'v) kvs) option" where
  "find_leaf k (Leaf a kvs) = Some (a, kvs)"
| "find_leaf k (Inner ks cs) = (let i = lowerBound ks k in if i < length cs then find_leaf k (cs ! i) else None)"

fun leaves :: "('k, 'v) bt \<Rightarrow> (nat \<times> ('k, 'v) kvs) list" where
  "leaves (Leaf a kvs) = [(a, kvs)]"
| "leaves (Inner ks cs) = concat (map leaves cs)"

text \<open>Reading the leaf behind a pointer.\<close>

definition peek :: "('k, 'v) bt \<Rightarrow> nat \<Rightarrow> ('k, 'v) kvs res" where
  "peek t a = (case map_of (leaves t) a of None \<Rightarrow> Inl Bad_pointer | Some kvs \<Rightarrow> Inr kvs)"

definition lookup :: "('k :: linorder) \<Rightarrow> ('k, 'v) bt \<Rightarrow> 'v option" where
  "lookup k t =
     (case find_leaf k t of
        None \<Rightarrow> None
      | Some (_, kvs) \<Rightarrow>
          let pos = lowerBound (map fst kvs) k in
          if pos < length kvs \<and> fst (kvs ! pos) = k then Some (snd (kvs ! pos)) else None)"

section \<open>Going down with eager splits\<close>

text \<open>
  One run from the root to the leaf. An inner node that is full is split on the way down, and the
  run ends with a restart. A node that grows hands its right part and the separator to its parent.
\<close>

datatype outcome = Restart | Done bool

datatype ('k, 'v) grown = Keep "('k, 'v) bt" | Grow "('k, 'v) bt" 'k "('k, 'v) bt"

type_synonym ('k, 'v, 'z) leaf_action =
  "nat \<Rightarrow> ('k, 'v) kvs \<Rightarrow> 'z tstate_scheme \<Rightarrow> (outcome \<times> ('k, 'v) grown \<times> 'z tstate_scheme) res"

function descend ::
  "caps \<Rightarrow> ('k :: linorder) \<Rightarrow> ('k, 'v, 'z) leaf_action \<Rightarrow> ('k, 'v) bt \<Rightarrow> 'z tstate_scheme \<Rightarrow>
     (outcome \<times> ('k, 'v) grown \<times> 'z tstate_scheme) res" where
  "descend C k act (Leaf a kvs) s = act a kvs s"
| "descend C k act (Inner ks cs) s =
     (if inner_isFull C ks then
        case inner_split ks cs of (l, sep, r) \<Rightarrow> Inr (Restart, Grow l sep r, s\<lparr>inner_nodes := inner_nodes s + 1\<rparr>)
      else
        let i = lowerBound ks k in
        if i < length cs then
          bind_res (descend C k act (cs ! i) s) (\<lambda>(x, g, s).
            Inr (x, Keep (case g of Keep c \<Rightarrow> Inner ks (cs[i := c]) | Grow l sep r \<Rightarrow> inner_insert sep r ks (cs[i := l])), s))
        else Inl Bad_pointer)"
  by pat_completeness auto
termination
  by (relation "measure (\<lambda>(C, k, act, t, s). size t)") (auto simp: size_kid)

text \<open>The root: \<open>makeRoot\<close> when it grows.\<close>

definition makeRoot :: "'k \<Rightarrow> ('k, 'v) bt \<Rightarrow> ('k, 'v) bt \<Rightarrow> ('k, 'v) bt" where
  "makeRoot k leftChild rightChild = Inner [k] [leftChild, rightChild]"

definition run_once ::
  "caps \<Rightarrow> ('k :: linorder) \<Rightarrow> ('k, 'v, 'z) leaf_action \<Rightarrow> ('k, 'v) bt \<times> 'z tstate_scheme \<Rightarrow>
     (outcome \<times> ('k, 'v) bt \<times> 'z tstate_scheme) res" where
  "run_once C k act = (\<lambda>(t, s).
     bind_res (descend C k act t s) (\<lambda>(x, g, s).
       Inr (x, (case g of Keep t \<Rightarrow> t | Grow l sep r \<Rightarrow> makeRoot sep l r), s)))"

text \<open>
  The restarts; \<open>None\<close> would mean that the loop never ends. The action may read other leaves, so it
  gets the tree.
\<close>

partial_function (option) restart_loop ::
  "caps \<Rightarrow> ('k :: linorder) \<Rightarrow> (('k, 'v) bt \<Rightarrow> ('k, 'v, 'z) leaf_action) \<Rightarrow> ('k, 'v) bt \<times> 'z tstate_scheme \<Rightarrow>
     (bool \<times> ('k, 'v) bt \<times> 'z tstate_scheme) res option" where
  "restart_loop C k act ts =
     (case run_once C k (act (fst ts)) ts of
        Inl e \<Rightarrow> Some (Inl e)
      | Inr (Restart, ts) \<Rightarrow> restart_loop C k act ts
      | Inr (Done ok, ts) \<Rightarrow> Some (Inr (ok, ts)))"

declare restart_loop.simps [code]

section \<open>Inserting\<close>

definition count_item :: "bool \<Rightarrow> 'z tstate_scheme \<Rightarrow> 'z tstate_scheme" where
  "count_item success s = (if success then s\<lparr>num_items := num_items s + 1\<rparr> else s)"

definition insert_leaf :: "caps \<Rightarrow> ('k :: linorder) \<Rightarrow> 'v \<Rightarrow> ('k, 'v, 'z) leaf_action" where
  "insert_leaf C k v a kvs s =
     (if length kvs = leaf_max C then
        case leaf_split a kvs s of ((l, sep, b, r), s) \<Rightarrow>
          if sep < k then
            (case leaf_insert r k v of (success, r) \<Rightarrow> Inr (Done success, Grow (Leaf a l) sep (Leaf b r), count_item success s))
          else
            (case leaf_insert l k v of (success, l) \<Rightarrow> Inr (Done success, Grow (Leaf a l) sep (Leaf b r), count_item success s))
      else
        case leaf_insert kvs k v of (success, kvs) \<Rightarrow> Inr (Done success, Keep (Leaf a kvs), count_item success s))"

definition bt_insert ::
  "caps \<Rightarrow> ('k :: linorder) \<Rightarrow> 'v \<Rightarrow> ('k, 'v) bt \<times> 'z tstate_scheme \<Rightarrow> (bool \<times> ('k, 'v) bt \<times> 'z tstate_scheme) res option" where
  "bt_insert C k v = restart_loop C k (\<lambda>_. insert_leaf C k v)"

text \<open>
  With a processor of the adjacent tuples, which decides whether to insert: a full leaf is split
  first and the operation restarts. The rows the processor changes are in the state \<open>rows\<close>.
\<close>

record 'x xstate = tstate +
  rows :: 'x

type_synonym ('k, 'v, 'x) processor = "('k \<times> 'v) option \<Rightarrow> ('k \<times> 'v) option \<Rightarrow> 'x \<Rightarrow> (bool \<times> 'x) res"

definition prev_tuple :: "('k, 'v) bt \<Rightarrow> nat \<Rightarrow> ('k, 'v) kvs \<Rightarrow> nat \<Rightarrow> 'z tstate_scheme \<Rightarrow> ('k \<times> 'v) option res" where
  "prev_tuple t a kvs pos s =
     (if 0 < pos then Inr (Some (kvs ! (pos - 1)))
      else case pre_leaf s a of
        None \<Rightarrow> Inr None
      | Some p \<Rightarrow> bind_res (peek t p) (\<lambda>pk. Inr (last_opt pk)))"

definition next_tuple_insert :: "('k, 'v) bt \<Rightarrow> nat \<Rightarrow> ('k, 'v) kvs \<Rightarrow> nat \<Rightarrow> 'z tstate_scheme \<Rightarrow> ('k \<times> 'v) option res" where
  "next_tuple_insert t a kvs pos s =
     (if pos = length kvs then
        check (next_leaf s a \<noteq> None)
          (bind_res (peek t (the (next_leaf s a))) (\<lambda>nk. if nk = [] then Inl Bad_pointer else Inr (hd_opt nk)))
      else Inr (Some (kvs ! pos)))"

definition process_leaf ::
  "caps \<Rightarrow> ('k :: linorder) \<Rightarrow> 'v \<Rightarrow> ('k, 'v, 'x) processor \<Rightarrow> ('k, 'v) bt \<Rightarrow> ('k, 'v, ('x, unit) xstate_ext) leaf_action" where
  "process_leaf C k v proc t a kvs s =
     (if length kvs = leaf_max C then
        case leaf_split a kvs s of ((l, sep, b, r), s) \<Rightarrow> Inr (Restart, Grow (Leaf a l) sep (Leaf b r), s)
      else
        let pos = lowerBound (map fst kvs) k in
        if pos < length kvs \<and> fst (kvs ! pos) = k then Inr (Done False, Keep (Leaf a kvs), s)
        else
          bind_res (prev_tuple t a kvs pos s) (\<lambda>pv.
          bind_res (next_tuple_insert t a kvs pos s) (\<lambda>nx.
          bind_res (proc pv nx (rows s)) (\<lambda>(should_insert, x).
            let s = s\<lparr>rows := x\<rparr> in
            if should_insert then
              case leaf_insert kvs k v of (success, kvs) \<Rightarrow>
                check success (Inr (Done True, Keep (Leaf a kvs), count_item True s))
            else Inr (Done False, Keep (Leaf a kvs), s)))))"

definition insert_and_process_adjacent_tuples ::
  "caps \<Rightarrow> ('k :: linorder) \<Rightarrow> 'v \<Rightarrow> ('k, 'v, 'x) processor \<Rightarrow> ('k, 'v) bt \<times> 'x xstate \<Rightarrow>
     (bool \<times> ('k, 'v) bt \<times> 'x xstate) res option" where
  "insert_and_process_adjacent_tuples C k v proc = restart_loop C k (process_leaf C k v proc)"

text \<open>\<open>insert_lock_next_key\<close> looks at the next tuple only.\<close>

definition lock_next_leaf ::
  "caps \<Rightarrow> ('k :: linorder) \<Rightarrow> 'v \<Rightarrow> (('k \<times> 'v) option \<Rightarrow> 'x \<Rightarrow> (bool \<times> 'x) res) \<Rightarrow> ('k, 'v) bt \<Rightarrow> ('k, 'v, ('x, unit) xstate_ext) leaf_action" where
  "lock_next_leaf C k v proc t a kvs s =
     (if length kvs = leaf_max C then
        case leaf_split a kvs s of ((l, sep, b, r), s) \<Rightarrow> Inr (Restart, Grow (Leaf a l) sep (Leaf b r), s)
      else
        let pos = lowerBound (map fst kvs) k in
        if pos < length kvs \<and> fst (kvs ! pos) = k then Inr (Done False, Keep (Leaf a kvs), s)
        else
          bind_res (next_tuple_insert t a kvs pos s) (\<lambda>nx.
          bind_res (proc nx (rows s)) (\<lambda>(lock_next_key_success, x).
            let s = s\<lparr>rows := x\<rparr> in
            if lock_next_key_success then
              case leaf_insert kvs k v of (success, kvs) \<Rightarrow>
                check success (Inr (Done True, Keep (Leaf a kvs), count_item True s))
            else Inr (Done False, Keep (Leaf a kvs), s))))"

definition insert_lock_next_key ::
  "caps \<Rightarrow> ('k :: linorder) \<Rightarrow> 'v \<Rightarrow> (('k \<times> 'v) option \<Rightarrow> 'x \<Rightarrow> (bool \<times> 'x) res) \<Rightarrow> ('k, 'v) bt \<times> 'x xstate \<Rightarrow>
     (bool \<times> ('k, 'v) bt \<times> 'x xstate) res option" where
  "insert_lock_next_key C k v proc = restart_loop C k (lock_next_leaf C k v proc)"

section \<open>Lookups under the leaf locks\<close>

fun update_leaf :: "('k :: linorder) \<Rightarrow> (('k, 'v) kvs \<Rightarrow> ('k, 'v) kvs) \<Rightarrow> ('k, 'v) bt \<Rightarrow> ('k, 'v) bt" where
  "update_leaf k f (Leaf a kvs) = Leaf a (f kvs)"
| "update_leaf k f (Inner ks cs) =
     (let i = lowerBound ks k in if i < length cs then Inner ks (cs[i := update_leaf k f (cs ! i)]) else Inner ks cs)"

definition lookupForUpdate ::
  "('k :: linorder) \<Rightarrow> ('k \<Rightarrow> 'v \<Rightarrow> 'x \<Rightarrow> 'v \<times> 'x) \<Rightarrow> ('k, 'v) bt \<times> 'x \<Rightarrow> bool \<times> ('k, 'v) bt \<times> 'x" where
  "lookupForUpdate k proc = (\<lambda>(t, x).
     case lookup k t of
       None \<Rightarrow> (False, t, x)
     | Some v \<Rightarrow> (case proc k v x of (v, x) \<Rightarrow>
         (True, update_leaf k (\<lambda>kvs. kvs[lowerBound (map fst kvs) k := (k, v)]) t, x)))"

definition next_tuple :: "('k, 'v) bt \<Rightarrow> nat \<Rightarrow> ('k, 'v) kvs \<Rightarrow> nat \<Rightarrow> 'z tstate_scheme \<Rightarrow> ('k \<times> 'v) option res" where
  "next_tuple t a kvs pos s =
     (if pos < length kvs - 1 then Inr (Some (kvs ! Suc pos))
      else case next_leaf s a of
        None \<Rightarrow> Inr None
      | Some n \<Rightarrow> bind_res (peek t n) (\<lambda>nk. Inr (hd_opt nk)))"

definition lookupForNextKeyUpdate ::
  "('k :: linorder) \<Rightarrow> (('k \<times> 'v) option \<Rightarrow> 'k \<times> 'v \<Rightarrow> ('k \<times> 'v) option \<Rightarrow> 'x \<Rightarrow> 'x res) \<Rightarrow>
     ('k, 'v) bt \<times> 'x xstate \<Rightarrow> (bool \<times> 'x xstate) res" where
  "lookupForNextKeyUpdate k proc = (\<lambda>(t, s).
     case find_leaf k t of
       None \<Rightarrow> Inl Bad_pointer
     | Some (a, kvs) \<Rightarrow>
         let pos = lowerBound (map fst kvs) k in
         if pos < length kvs \<and> fst (kvs ! pos) = k then
           bind_res (prev_tuple t a kvs pos s) (\<lambda>pv.
           bind_res (next_tuple t a kvs pos s) (\<lambda>nx.
           bind_res (proc pv (kvs ! pos) nx (rows s)) (\<lambda>x. Inr (True, s\<lparr>rows := x\<rparr>))))
         else Inr (False, s))"

section \<open>Removing\<close>

fun nodeCount :: "('k, 'v) bt \<Rightarrow> nat" where
  "nodeCount (Leaf a kvs) = length kvs"
| "nodeCount (Inner ks cs) = length ks"

fun node_needMerge :: "caps \<Rightarrow> ('k, 'v) bt \<Rightarrow> bool" where
  "node_needMerge C (Leaf a kvs) = needMerge (leaf_max C) (length kvs)"
| "node_needMerge C (Inner ks cs) = needMerge (inner_max C) (length ks)"

fun node_surplus :: "caps \<Rightarrow> ('k, 'v) bt \<Rightarrow> int" where
  "node_surplus C (Leaf a kvs) = getSurplus (leaf_max C) (length kvs)"
| "node_surplus C (Inner ks cs) = getSurplus (inner_max C) (length ks)"

fun hasEnoughSpace :: "caps \<Rightarrow> ('k, 'v) bt \<Rightarrow> nat \<Rightarrow> bool" where
  "hasEnoughSpace C (Leaf a kvs) need \<longleftrightarrow> length kvs + need \<le> leaf_max C"
| "hasEnoughSpace C (Inner ks cs) need \<longleftrightarrow> length ks + need + 1 < inner_max C"

text \<open>The largest key of a subtree, read in its last leaf; an empty leaf has none.\<close>

fun getSubTreeMaxKey :: "('k, 'v) bt \<Rightarrow> 'k res" where
  "getSubTreeMaxKey (Leaf a kvs) = (if kvs = [] then Inl Bad_pointer else Inr (fst (last kvs)))"
| "getSubTreeMaxKey (Inner ks cs) =
     (if length ks < length cs then getSubTreeMaxKey (cs ! length ks) else Inl Bad_pointer)"

text \<open>Moving one entry between two neighbours; the third result is the new separator.\<close>

fun borrow_from_right :: "('k, 'v) bt \<Rightarrow> 'k \<Rightarrow> ('k, 'v) bt \<Rightarrow> (('k, 'v) bt \<times> 'k \<times> ('k, 'v) bt) res" where
  "borrow_from_right (Leaf a ka) sep (Leaf b (x # kb)) = Inr (Leaf a (ka @ [x]), fst x, Leaf b kb)"
| "borrow_from_right (Inner ka ca) sep (Inner (k # kb) (c # cb)) = Inr (Inner (ka @ [sep]) (ca @ [c]), k, Inner kb cb)"
| "borrow_from_right _ _ _ = Inl Bad_pointer"

fun borrow_from_left :: "('k, 'v) bt \<Rightarrow> 'k \<Rightarrow> ('k, 'v) bt \<Rightarrow> (('k, 'v) bt \<times> 'k \<times> ('k, 'v) bt) res" where
  "borrow_from_left (Leaf a ka) sep (Leaf b kb) =
     (if butlast ka = [] then Inl Bad_pointer else Inr (Leaf a (butlast ka), fst (last (butlast ka)), Leaf b (last ka # kb)))"
| "borrow_from_left (Inner ka ca) sep (Inner kb cb) =
     (if ka = [] \<or> ca = [] then Inl Bad_pointer
      else Inr (Inner (butlast ka) (butlast ca), last ka, Inner (sep # kb) (last ca # cb)))"
| "borrow_from_left _ _ _ = Inl Bad_pointer"

text \<open>The left node absorbs the right one.\<close>

fun merge_nodes :: "('k, 'v) bt \<Rightarrow> ('k, 'v) bt \<Rightarrow> 'z tstate_scheme \<Rightarrow> (('k, 'v) bt \<times> 'z tstate_scheme) res" where
  "merge_nodes (Leaf a ka) (Leaf b kb) s = Inr (Leaf a (ka @ kb), leaf_merge a b s)"
| "merge_nodes (Inner ka ca) (Inner kb cb) s =
     bind_res (getSubTreeMaxKey (Inner ka ca)) (\<lambda>m.
       Inr (Inner (ka @ m # kb) (ca @ cb), s\<lparr>inner_nodes := inner_nodes s - 1\<rparr>))"
| "merge_nodes _ _ _ = Inl Bad_pointer"

datatype merge_op = BorrowFromLeft | BorrowFromRight | LeftToRight | RightToLeft | NoMerge

definition choose_one_sibling :: "caps \<Rightarrow> nat \<Rightarrow> 'k list \<Rightarrow> ('k, 'v) bt list \<Rightarrow> merge_op" where
  "choose_one_sibling C i ks cs =
     (let hasLeft = (0 < i \<and> i - 1 < length ks); hasRight = (Suc i \<le> length ks) in
      if hasLeft \<and> 0 < node_surplus C (cs ! (i - 1)) then BorrowFromLeft
      else if hasRight \<and> 0 < node_surplus C (cs ! Suc i) then BorrowFromRight
      else if hasLeft \<and> hasEnoughSpace C (cs ! (i - 1)) (nodeCount (cs ! i)) then RightToLeft
      else if hasRight \<and> hasEnoughSpace C (cs ! Suc i) (nodeCount (cs ! i)) then LeftToRight
      else NoMerge)"

text \<open>
  One level of \<open>EraseMerge\<close>, in the parent of an under-utilized child \<open>i\<close>. The last result tells whether the
  call goes on with the parent: after a merge when the parent is under-utilized, or when
  the child has no sibling.
\<close>

definition EraseMerge ::
  "caps \<Rightarrow> nat \<Rightarrow> 'k list \<Rightarrow> ('k, 'v) bt list \<Rightarrow> 'z tstate_scheme \<Rightarrow>
     (('k list \<times> ('k, 'v) bt list) \<times> bool \<times> 'z tstate_scheme) res" where
  "EraseMerge C i ks cs s =
     (case choose_one_sibling C i ks cs of
        BorrowFromLeft \<Rightarrow>
          bind_res (borrow_from_left (cs ! (i - 1)) (ks ! (i - 1)) (cs ! i)) (\<lambda>(l, sep, r).
            Inr ((ks[i - 1 := sep], cs[i - 1 := l, i := r]), False, s))
      | BorrowFromRight \<Rightarrow>
          bind_res (borrow_from_right (cs ! i) (ks ! i) (cs ! Suc i)) (\<lambda>(l, sep, r).
            Inr ((ks[i := sep], cs[i := l, Suc i := r]), False, s))
      | RightToLeft \<Rightarrow>
          bind_res (merge_nodes (cs ! (i - 1)) (cs ! i) s) (\<lambda>(m, s).
            let (ks, cs) = inner_erase (i - 1) ks (cs[i - 1 := m]) in
            Inr ((ks, cs), needMerge (inner_max C) (length ks), s))
      | LeftToRight \<Rightarrow>
          bind_res (merge_nodes (cs ! i) (cs ! Suc i) s) (\<lambda>(m, s).
            let (ks, cs) = inner_erase i ks (cs[i := m]) in
            Inr ((ks, cs), needMerge (inner_max C) (length ks), s))
      | NoMerge \<Rightarrow> Inr ((ks, cs), ks = [], s))"

text \<open>
  Down to the leaf, where \<open>act\<close> erases the entry or not, and back up through the under-utilized nodes.
\<close>

function remove_node ::
  "caps \<Rightarrow> ('k :: linorder) \<Rightarrow> (nat \<Rightarrow> ('k, 'v) kvs \<Rightarrow> 'z tstate_scheme \<Rightarrow> (bool \<times> ('k, 'v) kvs \<times> 'z tstate_scheme) res) \<Rightarrow>
     ('k, 'v) bt \<Rightarrow> 'z tstate_scheme \<Rightarrow> (bool \<times> ('k, 'v) bt \<times> bool \<times> 'z tstate_scheme) res" where
  "remove_node C k act (Leaf a kvs) s =
     bind_res (act a kvs s) (\<lambda>(ok, kvs, s). Inr (ok, Leaf a kvs, needMerge (leaf_max C) (length kvs), s))"
| "remove_node C k act (Inner ks cs) s =
     (let i = lowerBound ks k in
      if i < length cs then
        bind_res (remove_node C k act (cs ! i) s) (\<lambda>(ok, c, need, s).
          if need then
            bind_res (EraseMerge C i ks (cs[i := c]) s) (\<lambda>((ks, cs), need, s). Inr (ok, Inner ks cs, need, s))
          else Inr (ok, Inner ks (cs[i := c]), False, s))
      else Inl Bad_pointer)"
  by pat_completeness auto
termination
  by (relation "measure (\<lambda>(C, k, act, t, s). size t)") (auto simp: size_kid)

text \<open>A root without a key hands over to its only child.\<close>

definition change_root :: "('k, 'v) bt \<Rightarrow> ('k, 'v) bt" where
  "change_root t = (case t of Inner [] [c] \<Rightarrow> c | _ \<Rightarrow> t)"

definition erase_leaf ::
  "('k :: linorder) \<Rightarrow> nat \<Rightarrow> ('k, 'v) kvs \<Rightarrow> 'z tstate_scheme \<Rightarrow> (bool \<times> ('k, 'v) kvs \<times> 'z tstate_scheme) res" where
  "erase_leaf k a kvs s =
     (let pos = lowerBound (map fst kvs) k in
      if pos < length kvs \<and> fst (kvs ! pos) = k then Inr (True, leaf_erase pos kvs, s\<lparr>num_items := num_items s - 1\<rparr>)
      else Inr (False, kvs, s))"

text \<open>\<open>nd\<close> tells whether \<open>assert\<close> is compiled out; removing a key that is not there fails an assertion.\<close>

definition bt_remove ::
  "caps \<Rightarrow> bool \<Rightarrow> ('k :: linorder) \<Rightarrow> ('k, 'v) bt \<times> 'z tstate_scheme \<Rightarrow> (bool \<times> ('k, 'v) bt \<times> 'z tstate_scheme) res" where
  "bt_remove C nd k = (\<lambda>(t, s).
     bind_res (remove_node C k (erase_leaf k) t s) (\<lambda>(ok, t, _, s). dcheck nd ok (Inr (ok, change_root t, s))))"

definition process_erase ::
  "('k :: linorder) \<Rightarrow> (('k \<times> 'v) option \<Rightarrow> 'k \<times> 'v \<Rightarrow> ('k \<times> 'v) option \<Rightarrow> 'x \<Rightarrow> (bool \<times> 'x) res) \<Rightarrow> ('k, 'v) bt \<Rightarrow>
     nat \<Rightarrow> ('k, 'v) kvs \<Rightarrow> 'x xstate \<Rightarrow> (bool \<times> ('k, 'v) kvs \<times> 'x xstate) res" where
  "process_erase k proc t a kvs s =
     (let pos = lowerBound (map fst kvs) k in
      if pos < length kvs \<and> fst (kvs ! pos) = k then
        bind_res (prev_tuple t a kvs pos s) (\<lambda>pv.
        bind_res (next_tuple t a kvs pos s) (\<lambda>nx.
        bind_res (proc pv (kvs ! pos) nx (rows s)) (\<lambda>(should_remove, x).
          let s = s\<lparr>rows := x\<rparr> in
          if should_remove then Inr (True, leaf_erase pos kvs, s\<lparr>num_items := num_items s - 1\<rparr>)
          else Inr (False, kvs, s))))
      else Inr (False, kvs, s))"

definition remove_and_process_adjacent_tuples ::
  "caps \<Rightarrow> bool \<Rightarrow> ('k :: linorder) \<Rightarrow> (('k \<times> 'v) option \<Rightarrow> 'k \<times> 'v \<Rightarrow> ('k \<times> 'v) option \<Rightarrow> 'x \<Rightarrow> (bool \<times> 'x) res) \<Rightarrow>
     ('k, 'v) bt \<times> 'x xstate \<Rightarrow> (bool \<times> ('k, 'v) bt \<times> 'x xstate) res" where
  "remove_and_process_adjacent_tuples C nd k proc = (\<lambda>(t, s).
     bind_res (remove_node C k (process_erase k proc t) t s) (\<lambda>(ok, t, _, s). dcheck nd ok (Inr (ok, change_root t, s))))"

section \<open>Scanning\<close>

text \<open>The entries of a leaf from \<open>pos\<close> on, until the processor says stop.\<close>

fun scan_leaf :: "('k \<Rightarrow> 'v \<Rightarrow> bool \<Rightarrow> 'x \<Rightarrow> bool \<times> 'x) \<Rightarrow> bool \<Rightarrow> ('k :: linorder) \<Rightarrow> ('k, 'v) kvs \<Rightarrow> 'x \<Rightarrow> (bool \<times> 'x) res" where
  "scan_leaf proc lastLeaf lowKey [] x = Inr (False, x)"
| "scan_leaf proc lastLeaf lowKey ((k, v) # kvs) x =
     check (lowKey \<le> k)
       (case proc k v (lastLeaf \<and> kvs = []) x of (end, x) \<Rightarrow>
          if end then Inr (True, x) else scan_leaf proc lastLeaf lowKey kvs x)"

text \<open>Leaf by leaf, each found again from the root; \<open>None\<close> would mean that the scan never ends.\<close>

partial_function (option) scanForUpdate ::
  "('k \<Rightarrow> 'v \<Rightarrow> bool \<Rightarrow> 'x \<Rightarrow> bool \<times> 'x) \<Rightarrow> ('k :: linorder) \<Rightarrow> ('k, 'v) bt \<Rightarrow> 'z tstate_scheme \<Rightarrow> 'x \<Rightarrow> 'x res option" where
  "scanForUpdate proc lowKey t s x =
     (case find_leaf lowKey t of
        None \<Rightarrow> Some (Inl Bad_pointer)
      | Some (a, kvs) \<Rightarrow>
          (case scan_leaf proc (next_leaf s a = None) lowKey (drop (lowerBound (map fst kvs) lowKey) kvs) x of
             Inl e \<Rightarrow> Some (Inl e)
           | Inr (quit, x) \<Rightarrow>
               if quit then Some (Inr x)
               else (case next_leaf s a of
                 None \<Rightarrow> Some (Inr x)
               | Some n \<Rightarrow> (case peek t n of
                   Inl e \<Rightarrow> Some (Inl e)
                 | Inr [] \<Rightarrow> Some (Inr x)
                 | Inr ((k, _) # _) \<Rightarrow> scanForUpdate proc k t s x))))"

declare scanForUpdate.simps [code]

end
