(* ===== verification/BTreeProps.thy ===== *)
theory BTreeProps
  imports BTree
begin

text \<open>
  Correctness of the B+-tree: the in-node search, the order and size invariant of the nodes, lookup,
  insertion with its restarts, removal with merging, the leaf chain and the scan.
\<close>

section \<open>The search in a node\<close>

lemma length_takeWhile_unique:
  assumes "n \<le> length xs" "\<And>i. i < n \<Longrightarrow> P (xs ! i)" "n < length xs \<Longrightarrow> \<not> P (xs ! n)"
  shows "length (takeWhile P xs) = n"
  using assms takeWhile_eq_take_P_nth [of n xs P] by simp

lemma linear_loop_eq:
  "left \<le> length ks \<Longrightarrow> (\<And>i. i < left \<Longrightarrow> ks ! i < k) \<Longrightarrow> linear_loop ks k left = length (takeWhile (\<lambda>x. x < k) ks)"
proof (induction ks k left rule: linear_loop.induct)
  case (1 ks k left)
  show ?case
  proof (cases "left < length ks \<and> ks ! left < k")
    case True
    then have "linear_loop ks k (Suc left) = length (takeWhile (\<lambda>x. x < k) ks)"
      using 1 by (intro "1.IH") (auto simp: less_Suc_eq)
    then show ?thesis using True by (subst linear_loop.simps) simp
  next
    case False
    then show ?thesis
      using 1(2,3) length_takeWhile_unique [of left ks "\<lambda>x. x < k"] by (subst linear_loop.simps) auto
  qed
qed

lemma binary_loop_eq:
  assumes "sorted_wrt (<) ks"
  shows "0 \<le> left \<Longrightarrow> right < int (length ks) \<Longrightarrow> left \<le> right + 1 \<Longrightarrow> (\<And>i. i < nat left \<Longrightarrow> ks ! i < k) \<Longrightarrow>
    (\<And>i. right < int i \<Longrightarrow> i < length ks \<Longrightarrow> k < ks ! i) \<Longrightarrow>
    nat (binary_loop ks k left right) = length (takeWhile (\<lambda>x. x < k) ks)"
proof (induction "nat (right - left + 1)" arbitrary: left right rule: less_induct)
  case less
  have mono: "ks ! i < ks ! j" if "i < j" "j < length ks" for i j
    using assms that by (simp add: sorted_wrt_iff_nth_less)
  show ?case
  proof (cases "left \<le> right")
    case True
    define mid where "mid = left + (right - left) div 2"
    have mid: "left \<le> mid" "mid \<le> right" "0 \<le> mid" "nat mid < length ks"
      using True less.prems(1,2) by (auto simp: mid_def)
    consider "ks ! nat mid = k" | "ks ! nat mid < k" | "k < ks ! nat mid" using less_linear by blast
    then show ?thesis
    proof cases
      case 1
      have "length (takeWhile (\<lambda>x. x < k) ks) = nat mid"
        using mono [of _ "nat mid"] mid 1 by (intro length_takeWhile_unique) auto
      then show ?thesis using 1 True mid by (subst binary_loop.simps) (simp add: mid_def [symmetric] Let_def)
    next
      case 2
      have low: "ks ! i < k" if "i < nat (mid + 1)" for i
      proof -
        have "i < nat mid \<or> i = nat mid" using that mid by linarith
        then show ?thesis using mono [of i "nat mid"] mid(4) 2 by (auto intro: less_trans)
      qed
      have "nat (binary_loop ks k (mid + 1) right) = length (takeWhile (\<lambda>x. x < k) ks)"
        using less.prems mid low by (intro less.hyps) auto
      then show ?thesis using 2 True by (subst binary_loop.simps) (auto simp: mid_def [symmetric] Let_def)
    next
      case 3
      have up: "k < ks ! i" if "mid - 1 < int i" "i < length ks" for i
      proof -
        have "nat mid < i \<or> i = nat mid" using that(1) mid by linarith
        then show ?thesis using mono [of "nat mid" i] that(2) 3 by (auto intro: less_trans)
      qed
      have "nat (binary_loop ks k left (mid - 1)) = length (takeWhile (\<lambda>x. x < k) ks)"
        using less.prems mid up by (intro less.hyps) auto
      then show ?thesis using 3 True by (subst binary_loop.simps) (auto simp: mid_def [symmetric] Let_def)
    qed
  next
    case False
    then have "right = left - 1" using less.prems(3) by simp
    then have "length (takeWhile (\<lambda>x. x < k) ks) = nat left"
      using less.prems by (intro length_takeWhile_unique) (auto dest: order.asym)
    then show ?thesis using False by (subst binary_loop.simps) simp
  qed
qed

lemma lowerBound_takeWhile: "sorted_wrt (<) ks \<Longrightarrow> lowerBound ks k = length (takeWhile (\<lambda>x. x < k) ks)"
  unfolding lowerBound_def using linear_loop_eq [of 0 ks k] binary_loop_eq [of ks 0 "int (length ks) - 1" k] by auto

lemma lowerBound_split:
  assumes "sorted_wrt (<) ks"
  shows "lowerBound ks k \<le> length ks" "x \<in> set (take (lowerBound ks k) ks) \<Longrightarrow> x < k" "x \<in> set (drop (lowerBound ks k) ks) \<Longrightarrow> k \<le> x"
proof -
  let ?t = "takeWhile (\<lambda>x. x < k) ks" and ?d = "dropWhile (\<lambda>x. x < k) ks"
  have e: "take (length ?t) ks = ?t" "drop (length ?t) ks = ?d"
    by (metis append_eq_conv_conj takeWhile_dropWhile_id)+
  show "lowerBound ks k \<le> length ks" using assms by (simp add: lowerBound_takeWhile length_takeWhile_le)
  show "x \<in> set (take (lowerBound ks k) ks) \<Longrightarrow> x < k"
    using assms e by (auto simp: lowerBound_takeWhile dest: set_takeWhileD)
  show "k \<le> x" if "x \<in> set (drop (lowerBound ks k) ks)"
  proof (cases ?d)
    case Nil
    then show ?thesis using that assms e(2) by (simp add: lowerBound_takeWhile [OF assms] del: dropWhile_eq_Nil_conv)
  next
    case (Cons y ys)
    then have "k \<le> y" by (metis dropWhile_eq_Cons_conv not_less)
    moreover have "sorted_wrt (<) ?d" using assms e(2) by (metis sorted_wrt_drop)
    ultimately show ?thesis
      using that assms e(2) Cons by (auto simp: lowerBound_takeWhile)
  qed
qed

text \<open>The position is determined by what lies left and right of it.\<close>

lemma lowerBound_eq:
  assumes "sorted_wrt (<) (ka @ kb)" "\<forall>x\<in>set ka. x < k" "\<forall>x\<in>set kb. k \<le> x"
  shows "lowerBound (ka @ kb) k = length ka"
proof -
  have "takeWhile (\<lambda>x. x < k) (ka @ kb) = ka"
    using assms(2,3) by (cases kb) (auto simp: takeWhile_append not_less)
  then show ?thesis by (simp add: lowerBound_takeWhile [OF assms(1)])
qed

section \<open>The invariant of a tree\<close>

text \<open>The keys below a child lie in a half-open interval; \<open>None\<close> is infinity.\<close>

fun above :: "('k :: linorder) option \<Rightarrow> 'k \<Rightarrow> bool" where
  "above None k = True"
| "above (Some l) k = (l < k)"

fun below :: "('k :: linorder) option \<Rightarrow> 'k \<Rightarrow> bool" where
  "below None k = True"
| "below (Some h) k = (k \<le> h)"

definition inside :: "('k :: linorder) option \<Rightarrow> 'k option \<Rightarrow> 'k \<Rightarrow> bool" where
  "inside lo hi k \<longleftrightarrow> above lo k \<and> below hi k"

definition between :: "('k :: linorder) option \<Rightarrow> 'k option \<Rightarrow> 'k \<Rightarrow> bool" where
  "between lo hi k \<longleftrightarrow> inside lo hi k \<and> hi \<noteq> Some k"

text \<open>The children of an inner node with the separators between them.\<close>

fun kids :: "('k option \<Rightarrow> 'k option \<Rightarrow> 'c \<Rightarrow> bool) \<Rightarrow> 'k option \<Rightarrow> 'k option \<Rightarrow> ('k :: linorder) list \<Rightarrow> 'c list \<Rightarrow> bool" where
  "kids P lo hi [] [c] \<longleftrightarrow> P lo hi c"
| "kids P lo hi (k # ks) (c # cs) \<longleftrightarrow> between lo hi k \<and> P lo (Some k) c \<and> kids P (Some k) hi ks cs"
| "kids P lo hi _ _ \<longleftrightarrow> False"

primrec bwf :: "caps \<Rightarrow> nat \<Rightarrow> ('k :: linorder) option \<Rightarrow> 'k option \<Rightarrow> ('k, 'v) bt \<Rightarrow> bool" where
  "bwf C 0 lo hi t = (case t of
     Leaf a kvs \<Rightarrow> sorted_wrt (<) (map fst kvs) \<and> (\<forall>x\<in>set kvs. inside lo hi (fst x)) \<and> length kvs \<le> leaf_max C
   | Inner ks cs \<Rightarrow> False)"
| "bwf C (Suc h) lo hi t = (case t of
     Leaf a kvs \<Rightarrow> False
   | Inner ks cs \<Rightarrow> ks \<noteq> [] \<and> length ks < inner_max C \<and> kids (bwf C h) lo hi ks cs)"

definition entries :: "('k, 'v) bt \<Rightarrow> ('k, 'v) kvs" where
  "entries t = concat (map snd (leaves t))"

lemma inside_simps [simp]: "inside None None k" "inside lo (Some k) k \<longleftrightarrow> above lo k" "\<not> inside (Some k) hi k"
  by (auto simp: inside_def)

lemma inside_trans:
  "inside lo (Some s) k \<Longrightarrow> inside lo hi s \<Longrightarrow> inside lo hi k"
  "inside (Some s) hi k \<Longrightarrow> inside lo hi s \<Longrightarrow> inside lo hi k"
  by (cases lo; cases hi; auto simp: inside_def)+

lemma kids_length: "kids P lo hi ks cs \<Longrightarrow> length cs = Suc (length ks)"
  by (induction P lo hi ks cs rule: kids.induct) auto

lemma between_trans:
  "between lo (Some s) k \<Longrightarrow> between lo hi s \<Longrightarrow> between lo hi k"
  "between (Some s) hi k \<Longrightarrow> between lo hi s \<Longrightarrow> between lo hi k"
  by (cases lo; cases hi; auto simp: between_def inside_def)+

lemma kids_keys: "kids P lo hi ks cs \<Longrightarrow> sorted_wrt (<) ks \<and> (\<forall>x\<in>set ks. between lo hi x)"
proof (induction P lo hi ks cs rule: kids.induct)
  case (2 P lo hi k ks c cs)
  then have "\<forall>x\<in>set ks. between (Some k) hi x" "sorted_wrt (<) ks" "between lo hi k" by auto
  then show ?case using between_trans(2) [of k hi _ lo] by (auto simp: between_def inside_def)
qed auto

text \<open>Focus on a run of children: what is left and right of it stays.\<close>

fun lastb :: "'k option \<Rightarrow> 'k list \<Rightarrow> 'k option" where
  "lastb lo [] = lo"
| "lastb lo (k # ks) = lastb (Some k) ks"

fun lctx :: "('k option \<Rightarrow> 'k option \<Rightarrow> 'c \<Rightarrow> bool) \<Rightarrow> 'k option \<Rightarrow> 'k option \<Rightarrow> ('k :: linorder) list \<Rightarrow> 'c list \<Rightarrow> bool" where
  "lctx P lo hi [] [] \<longleftrightarrow> True"
| "lctx P lo hi (k # ks) (c # cs) \<longleftrightarrow> between lo hi k \<and> P lo (Some k) c \<and> lctx P (Some k) hi ks cs"
| "lctx P lo hi _ _ \<longleftrightarrow> False"

fun hib :: "'k option \<Rightarrow> 'k list \<Rightarrow> 'k option" where
  "hib hi [] = hi"
| "hib hi (k # ks) = Some k"

fun rctx :: "('k option \<Rightarrow> 'k option \<Rightarrow> 'c \<Rightarrow> bool) \<Rightarrow> 'k option \<Rightarrow> 'k option \<Rightarrow> ('k :: linorder) list \<Rightarrow> 'c list \<Rightarrow> bool" where
  "rctx P lo hi [] cs \<longleftrightarrow> cs = []"
| "rctx P lo hi (k # ks) cs \<longleftrightarrow> between lo hi k \<and> kids P (Some k) hi ks cs"

lemma kids_left:
  "length ca = length ka \<Longrightarrow> kids P lo hi (ka @ ks) (ca @ cs) \<longleftrightarrow> lctx P lo hi ka ca \<and> kids P (lastb lo ka) hi ks cs"
proof (induction ka arbitrary: lo ca)
  case (Cons k ka)
  then show ?case by (cases ca) auto
qed simp

lemma kids_cut:
  "length cs = Suc (length ks) \<Longrightarrow>
     kids P lo hi (ks @ k # kb) (cs @ cb) \<longleftrightarrow> kids P lo (Some k) ks cs \<and> between lo hi k \<and> kids P (Some k) hi kb cb"
proof (induction ks arbitrary: lo cs)
  case Nil
  then show ?case by (cases cs) auto
next
  case (Cons x ks)
  then obtain c cs' where cs: "cs = c # cs'" "length cs' = Suc (length ks)" by (cases cs) auto
  have "between lo hi x \<and> between (Some x) hi k \<longleftrightarrow> between lo (Some k) x \<and> between lo hi k"
    by (cases lo; cases hi) (auto simp: between_def inside_def)
  then show ?case using Cons.IH [OF cs(2), of "Some x"] cs by auto
qed

lemma kids_focus:
  assumes "length ca = length ka" "length cs = Suc (length ks)"
  shows "kids P lo hi (ka @ ks @ kb) (ca @ cs @ cb) \<longleftrightarrow>
    lctx P lo hi ka ca \<and> kids P (lastb lo ka) (hib hi kb) ks cs \<and> rctx P (lastb lo ka) hi kb cb"
proof (cases kb)
  case Nil
  have "kids P lo' hi ks (cs @ cb) \<longleftrightarrow> kids P lo' hi ks cs \<and> cb = []" for lo'
    using assms(2) kids_length [of P lo' hi ks "cs @ cb"] by auto
  then show ?thesis using Nil by (simp add: kids_left [OF assms(1)])
next
  case (Cons k kb')
  then show ?thesis by (auto simp: kids_left [OF assms(1)] kids_cut [OF assms(2)])
qed

lemma kids_child: "kids P lo hi ks cs \<Longrightarrow> c \<in> set cs \<Longrightarrow> \<exists>lo' hi'. P lo' hi' c \<and> (\<forall>x. inside lo' hi' x \<longrightarrow> inside lo hi x)"
proof (induction P lo hi ks cs rule: kids.induct)
  case (2 P lo hi k ks c' cs)
  then have b: "between lo hi k" "P lo (Some k) c'" by auto
  show ?case
  proof (cases "c = c'")
    case True
    then show ?thesis
      using b inside_trans(1) [of lo k _ hi] by (intro exI [of _ lo] exI [of _ "Some k"]) (auto simp: between_def)
  next
    case False
    then obtain lo' hi' where "P lo' hi' c" "\<forall>x. inside lo' hi' x \<longrightarrow> inside (Some k) hi x" using 2 by auto
    then show ?thesis
      using b inside_trans(2) [of k hi _ lo] by (intro exI [of _ lo'] exI [of _ hi']) (auto simp: between_def)
  qed
qed auto

lemma wf_inside: "bwf C h lo hi t \<Longrightarrow> l \<in> set (leaves t) \<Longrightarrow> x \<in> set (snd l) \<Longrightarrow> inside lo hi (fst x)"
proof (induction h arbitrary: lo hi t)
  case 0
  then show ?case by (auto split: bt.splits)
next
  case (Suc h)
  then obtain ks cs where t: "t = Inner ks cs" "kids (bwf C h) lo hi ks cs" by (auto split: bt.splits)
  then obtain c where c: "c \<in> set cs" "l \<in> set (leaves c)" using Suc.prems(2) by auto
  from kids_child [OF t(2) c(1)] obtain lo' hi' where "bwf C h lo' hi' c" "\<forall>x. inside lo' hi' x \<longrightarrow> inside lo hi x" by blast
  then show ?case using Suc.IH c(2) Suc.prems(3) by blast
qed

lemma lctx_child: "lctx P lo hi ka ca \<Longrightarrow> c \<in> set ca \<Longrightarrow> \<exists>lo' k. k \<in> set ka \<and> P lo' (Some k) c"
  by (induction P lo hi ka ca rule: lctx.induct) auto

lemma path_bounds:
  "inside lo hi k \<Longrightarrow> \<forall>x\<in>set ka. x < k \<Longrightarrow> \<forall>x\<in>set kb. k \<le> x \<Longrightarrow> inside (lastb lo ka) (hib hi kb) k"
proof (induction lo ka rule: lastb.induct)
  case (1 lo)
  then show ?case by (cases kb) (simp_all add: inside_def)
next
  case (2 lo x ka)
  then have "inside (Some x) hi k" by (simp add: inside_def)
  then show ?case using "2.IH" "2.prems"(2,3) by simp
qed

text \<open>
  The child on the path of a key: the position \<open>i\<close>, the bounds of the child, and that the child may be
  replaced by any run of children within these bounds.
\<close>

lemma kids_at:
  fixes k :: "'k :: linorder"
  assumes "kids P lo hi ks cs" "inside lo hi k"
  obtains ka kb ca c cb where "ks = ka @ kb" "cs = ca @ c # cb" "length ca = lowerBound ks k" "length ka = lowerBound ks k"
    "inside (lastb lo ka) (hib hi kb) k" "P (lastb lo ka) (hib hi kb) c"
    "\<And>ks' cs'. length cs' = Suc (length ks') \<Longrightarrow>
      kids P lo hi (ka @ ks' @ kb) (ca @ cs' @ cb) \<longleftrightarrow> kids P (lastb lo ka) (hib hi kb) ks' cs'"
    "\<And>d. d \<in> set ca \<Longrightarrow> \<exists>lo' k'. k' < k \<and> P lo' (Some k') d"
    "\<And>d. d \<in> set cb \<Longrightarrow> \<exists>lo' hi'. P lo' hi' d \<and> (\<forall>x. inside lo' hi' x \<longrightarrow> k < x)"
proof -
  let ?i = "lowerBound ks k"
  have sorted: "sorted_wrt (<) ks" using kids_keys [OF assms(1)] by simp
  note lb = lowerBound_split [OF sorted, where k = k]
  have len: "length cs = Suc (length ks)" using kids_length [OF assms(1)] .
  have ks: "ks = take ?i ks @ drop ?i ks" and cs: "cs = take ?i cs @ cs ! ?i # drop (Suc ?i) cs"
    using lb(1) len by (simp_all add: id_take_nth_drop [symmetric])
  have ln: "length (take ?i cs) = ?i" "length (take ?i ks) = ?i" using lb(1) len by simp_all
  have "kids P lo hi (take ?i ks @ [] @ drop ?i ks) (take ?i cs @ [cs ! ?i] @ drop (Suc ?i) cs)"
    using assms(1) ks cs by simp
  then have foc: "lctx P lo hi (take ?i ks) (take ?i cs)" "P (lastb lo (take ?i ks)) (hib hi (drop ?i ks)) (cs ! ?i)"
    "rctx P (lastb lo (take ?i ks)) hi (drop ?i ks) (drop (Suc ?i) cs)"
    using kids_focus [of "take ?i cs" "take ?i ks" "[cs ! ?i]" "[]" P lo hi "drop ?i ks" "drop (Suc ?i) cs"] ln by simp_all
  have "inside (lastb lo (take ?i ks)) (hib hi (drop ?i ks)) k"
    using lb(2,3) by (intro path_bounds [OF assms(2)]) blast+
  moreover have "\<exists>lo' k'. k' < k \<and> P lo' (Some k') d" if "d \<in> set (take ?i cs)" for d
    using lctx_child [OF foc(1) that] lb(2) by blast
  moreover have "\<exists>lo' hi'. P lo' hi' d \<and> (\<forall>x. inside lo' hi' x \<longrightarrow> k < x)" if "d \<in> set (drop (Suc ?i) cs)" for d
  proof (cases "drop ?i ks")
    case (Cons x xs)
    then have "kids P (Some x) hi xs (drop (Suc ?i) cs)" "k \<le> x" using foc(3) lb(3) [of x] by auto
    from kids_child [OF this(1) that] this(2) show ?thesis by (fastforce simp: inside_def)
  qed (use foc(3) that in auto)
  moreover have "kids P lo hi (take ?i ks @ ks' @ drop ?i ks) (take ?i cs @ cs' @ drop (Suc ?i) cs) \<longleftrightarrow>
      kids P (lastb lo (take ?i ks)) (hib hi (drop ?i ks)) ks' cs'" if "length cs' = Suc (length ks')" for ks' cs'
    using kids_focus [OF _ that, of "take ?i cs" "take ?i ks"] ln foc(1,3) by simp
  ultimately show thesis
    using that [OF ks cs] ln foc(2) by blast
qed

lemma path:
  "bwf C h lo hi t \<Longrightarrow> inside lo hi k \<Longrightarrow>
    \<exists>xs a kvs ys lo' hi'. leaves t = xs @ (a, kvs) # ys \<and> find_leaf k t = Some (a, kvs) \<and>
      (\<forall>l\<in>set xs. \<forall>x\<in>set (snd l). fst x < k) \<and> (\<forall>l\<in>set ys. \<forall>x\<in>set (snd l). k < fst x) \<and>
      bwf C 0 lo' hi' (Leaf a kvs) \<and> inside lo' hi' k"
proof (induction h arbitrary: lo hi t)
  case 0
  then obtain a kvs where "t = Leaf a kvs" by (auto split: bt.splits)
  then show ?case
    using 0 by (intro exI [of _ "[]"] exI [of _ a] exI [of _ kvs] exI [of _ lo] exI [of _ hi]) simp
next
  case (Suc h)
  then obtain ks cs where t: "t = Inner ks cs" "kids (bwf C h) lo hi ks cs" by (auto split: bt.splits)
  from kids_at [OF t(2) Suc.prems(2)] obtain ka kb ca c cb
    where at: "cs = ca @ c # cb" "length ca = lowerBound ks k" "inside (lastb lo ka) (hib hi kb) k" "bwf C h (lastb lo ka) (hib hi kb) c"
      "\<And>d. d \<in> set ca \<Longrightarrow> \<exists>lo' k'. k' < k \<and> bwf C h lo' (Some k') d"
      "\<And>d. d \<in> set cb \<Longrightarrow> \<exists>lo' hi'. bwf C h lo' hi' d \<and> (\<forall>x. inside lo' hi' x \<longrightarrow> k < x)" by metis
  from Suc.IH [OF at(4,3)] obtain xs a kvs ys lo' hi' where IH: "leaves c = xs @ (a, kvs) # ys" "find_leaf k c = Some (a, kvs)"
    "\<forall>l\<in>set xs. \<forall>x\<in>set (snd l). fst x < k" "\<forall>l\<in>set ys. \<forall>x\<in>set (snd l). k < fst x"
    "bwf C 0 lo' hi' (Leaf a kvs)" "inside lo' hi' k" by blast
  have lv: "leaves t = (concat (map leaves ca) @ xs) @ (a, kvs) # (ys @ concat (map leaves cb))"
    using t(1) at(1) IH(1) by simp
  have "fst x < k" if "d \<in> set ca" "l \<in> set (leaves d)" "x \<in> set (snd l)" for d l x
    using at(5) [OF that(1)] wf_inside [OF _ that(2,3), of C h] by (fastforce simp: inside_def)
  moreover have "k < fst x" if "d \<in> set cb" "l \<in> set (leaves d)" "x \<in> set (snd l)" for d l x
    using at(6) [OF that(1)] wf_inside [OF _ that(2,3), of C h] by blast
  ultimately have ord: "\<forall>l\<in>set (concat (map leaves ca) @ xs). \<forall>x\<in>set (snd l). fst x < k"
    "\<forall>l\<in>set (ys @ concat (map leaves cb)). \<forall>x\<in>set (snd l). k < fst x" using IH(3,4) by auto
  have fl: "find_leaf k t = Some (a, kvs)" using t(1) at(1,2) IH(2) by (simp add: Let_def nth_append)
  show ?case
    by (intro exI conjI) (rule lv, rule fl, rule ord(1), rule ord(2), rule IH(5), rule IH(6))
qed

text \<open>A leaf around the position of a key: the key is there, or all keys to the right are larger.\<close>

lemma leaf_at [consumes 1, case_names found missing]:
  fixes kvs :: "('k :: linorder, 'v) kvs"
  assumes "sorted_wrt (<) (map fst kvs)"
  obtains (found) la v lb where "kvs = la @ (k, v) # lb" "length la = lowerBound (map fst kvs) k" "map_of kvs k = Some v"
      "\<forall>x\<in>set la. fst x < k" "\<forall>x\<in>set lb. k < fst x"
  | (missing) la lb where "kvs = la @ lb" "length la = lowerBound (map fst kvs) k" "map_of kvs k = None"
      "\<forall>x\<in>set la. fst x < k" "\<forall>x\<in>set lb. k < fst x" "\<not> (lowerBound (map fst kvs) k < length kvs \<and> fst (kvs ! lowerBound (map fst kvs) k) = k)"
proof -
  let ?i = "lowerBound (map fst kvs) k"
  note b = lowerBound_split [OF assms, where k = k]
  define la where "la = take ?i kvs"
  have kvs: "kvs = la @ drop ?i kvs" "length la = ?i" using b(1) by (simp_all add: la_def)
  have low: "\<forall>x\<in>set la. fst x < k" using b(2) by (auto simp: la_def take_map)
  have high: "\<forall>x\<in>set (drop ?i kvs). k \<le> fst x" using b(3) by (auto simp: drop_map)
  have sorted: "sorted_wrt (<) (map fst (drop ?i kvs))" using assms sorted_wrt_drop by (metis drop_map)
  have la: "map_of la k = None" using low by (auto simp: map_of_eq_None_iff)
  show thesis
  proof (cases "drop ?i kvs")
    case Nil
    then show thesis using missing [of la "[]"] kvs low la by auto
  next
    case (Cons x lb)
    then have more: "\<forall>y\<in>set lb. fst x < fst y" "k \<le> fst x" using sorted high by auto
    have nth: "kvs ! ?i = x" "?i < length kvs" using Cons b(1) by (metis drop_eq_nths length_map nth_via_drop, metis drop_eq_Nil list.distinct(1) not_le)
    show thesis
    proof (cases "fst x = k")
      case True
      then have x: "x = (k, snd x)" by (cases x) auto
      have "kvs = la @ (k, snd x) # lb" using kvs(1) Cons x by metis
      moreover have "map_of kvs k = Some (snd x)" unfolding calculation using la by (simp add: map_add_def)
      ultimately show thesis using found [of la "snd x" lb] kvs(2) low more True by auto
    next
      case False
      then have gt: "\<forall>y\<in>set (x # lb). k < fst y" using more by (auto intro: less_trans)
      then have "map_of (x # lb) k = None" unfolding map_of_eq_None_iff by (metis imageE less_irrefl)
      then have "map_of kvs k = None" using kvs(1) la Cons by (metis map_add_None map_of_append)
      then show thesis using missing [of la "x # lb"] kvs low gt Cons False nth by metis
    qed
  qed
qed

lemma lookup_entries:
  assumes "bwf C h lo hi t" "inside lo hi k"
  shows "lookup k t = map_of (entries t) k"
proof -
  from path [OF assms] obtain xs a kvs ys lo' hi' where p: "leaves t = xs @ (a, kvs) # ys" "find_leaf k t = Some (a, kvs)"
    "\<forall>l\<in>set xs. \<forall>x\<in>set (snd l). fst x < k" "\<forall>l\<in>set ys. \<forall>x\<in>set (snd l). k < fst x" "bwf C 0 lo' hi' (Leaf a kvs)" by blast
  have "map_of (concat (map snd xs)) k = None" "map_of (concat (map snd ys)) k = None"
    using p(3,4) by (auto simp: map_of_eq_None_iff)
  then have "map_of (entries t) k = map_of kvs k"
    by (simp add: entries_def p(1) map_add_def split: option.split)
  also have "\<dots> = lookup k t"
  proof -
    have sorted: "sorted_wrt (<) (map fst kvs)" using p(5) by simp
    from sorted show ?thesis
    proof (cases rule: leaf_at [where k = k])
      case (found la v lb)
      then have "kvs ! lowerBound (map fst kvs) k = (k, v)" "lowerBound (map fst kvs) k < length kvs"
        by (metis nth_append_length, metis length_append length_Cons less_add_Suc1 add_Suc_right)
      then show ?thesis using found p(2) by (simp add: lookup_def Let_def)
    next
      case (missing la lb)
      then show ?thesis using p(2) by (auto simp: lookup_def Let_def)
    qed
  qed
  finally show ?thesis by simp
qed

section \<open>Going down and restarting\<close>

fun gleaves :: "('k, 'v) grown \<Rightarrow> (nat \<times> ('k, 'v) kvs) list" where
  "gleaves (Keep t) = leaves t"
| "gleaves (Grow l sep r) = leaves l @ leaves r"

fun gwf :: "caps \<Rightarrow> nat \<Rightarrow> ('k :: linorder) option \<Rightarrow> 'k option \<Rightarrow> ('k, 'v) grown \<Rightarrow> bool" where
  "gwf C h lo hi (Keep t) = bwf C h lo hi t"
| "gwf C h lo hi (Grow l sep r) \<longleftrightarrow> bwf C h lo (Some sep) l \<and> bwf C h (Some sep) hi r \<and> between lo hi sep"

text \<open>Which nodes on the path of a key are full, from the root to the leaf.\<close>

fun fullpath :: "caps \<Rightarrow> ('k :: linorder) \<Rightarrow> ('k, 'v) bt \<Rightarrow> bool list" where
  "fullpath C k (Leaf a kvs) = [length kvs = leaf_max C]"
| "fullpath C k (Inner ks cs) =
     inner_isFull C ks # (let i = lowerBound ks k in if i < length cs then fullpath C k (cs ! i) else [])"

fun gpath :: "caps \<Rightarrow> ('k :: linorder) \<Rightarrow> ('k, 'v) grown \<Rightarrow> bool list" where
  "gpath C k (Keep t) = fullpath C k t"
| "gpath C k (Grow l sep r) = fullpath C k (if k \<le> sep then l else r)"

text \<open>
  What a restart does to these flags: the topmost full node is split and no longer full, and only
  its parent may have become full.
\<close>

fun restep :: "bool list \<Rightarrow> ('k, 'v) grown \<Rightarrow> bool list \<Rightarrow> bool" where
  "restep p (Grow l sep r) p' \<longleftrightarrow> (\<exists>q. p = True # q \<and> p' = False # q)"
| "restep p (Keep t) p' \<longleftrightarrow> (\<exists>d b q. p = replicate (Suc d) False @ True # q \<and> p' = replicate d False @ b # False # q)"

lemma restep_down:
  assumes "restep p (Keep c) p'"
  shows "restep (False # p) (Keep t) (False # p')"
proof -
  from assms obtain d b q where "p = replicate (Suc d) False @ True # q" "p' = replicate d False @ b # False # q" by auto
  then have "False # p = replicate (Suc (Suc d)) False @ True # q" "False # p' = replicate (Suc d) False @ b # False # q"
    by simp_all
  then show ?thesis unfolding restep.simps by blast
qed

lemma inner_split_ok:
  assumes wf: "bwf C (Suc h) lo hi (Inner ks cs)" and full: "inner_isFull C ks" and I: "4 < inner_max C" and k: "inside lo hi k"
    and split: "inner_split ks cs = (l, sep, r)"
  shows "gwf C (Suc h) lo hi (Grow l sep r) \<and> leaves l @ leaves r = leaves (Inner ks cs) \<and>
    restep (fullpath C k (Inner ks cs)) (Grow l sep r) (gpath C k (Grow l sep r))"
proof -
  define n where "n = length ks - (length ks - length ks div 2) - 1"
  have kids: "kids (bwf C h) lo hi ks cs" using wf by simp
  have len: "length ks = inner_max C - 1" "length cs = Suc (length ks)" "4 \<le> length ks"
    using full kids_length [OF kids] I by (auto simp: inner_isFull_def)
  then have n: "n < length ks" "0 < n" "Suc n < length ks" by (auto simp: n_def)
  define ka kb ca cb where defs: "ka = take n ks" "kb = drop (Suc n) ks" "ca = take (Suc n) cs" "cb = drop (Suc n) cs"
  have l: "l = Inner ka ca" "sep = ks ! n" "r = Inner kb cb"
    using split by (auto simp: inner_split_def n_def Let_def defs)
  have ks: "ks = ka @ sep # kb" and cs: "cs = ca @ cb" and lc: "length ca = Suc (length ka)" "length ka = n"
    using n len by (simp_all add: defs l id_take_nth_drop)
  have k3: "kids (bwf C h) lo (Some sep) ka ca" "between lo hi sep" "kids (bwf C h) (Some sep) hi kb cb"
    using kids unfolding ks cs kids_cut [OF lc(1)] by auto
  have lk: "ka \<noteq> []" "kb \<noteq> []" "length ka < inner_max C - 1" "length kb < inner_max C - 1"
    using n len by (auto simp: defs)
  have sorted: "sorted_wrt (<) ks" "sorted_wrt (<) ka" "sorted_wrt (<) kb" and sep: "\<forall>x\<in>set ka. x < sep"
    using kids_keys [OF kids] unfolding ks by (auto simp: sorted_wrt_append)
  let ?i = "lowerBound ks k"
  have i: "?i \<le> length ks" using lowerBound_split(1) [OF sorted(1)] .
  have "gpath C k (Grow l sep r) = False # fullpath C k (cs ! ?i)"
  proof (cases "k \<le> sep")
    case True
    then have "takeWhile (\<lambda>x. x < k) ks = takeWhile (\<lambda>x. x < k) ka" unfolding ks by (simp add: takeWhile_tail)
    then have "lowerBound ka k = ?i" by (simp add: lowerBound_takeWhile sorted)
    moreover have "lowerBound ka k \<le> length ka" using lowerBound_split(1) [OF sorted(2)] .
    ultimately show ?thesis using True lk lc by (simp add: l inner_isFull_def Let_def cs nth_append)
  next
    case False
    then have "takeWhile (\<lambda>x. x < k) ks = ka @ sep # takeWhile (\<lambda>x. x < k) kb"
      unfolding ks using sep by (subst takeWhile_append2) auto
    then have "?i = Suc n + lowerBound kb k" using lc by (simp add: lowerBound_takeWhile sorted)
    moreover have "lowerBound kb k \<le> length kb" using lowerBound_split(1) [OF sorted(3)] .
    moreover have "length cb = Suc (length kb)" using kids_length [OF k3(3)] .
    ultimately show ?thesis using False lk lc by (simp add: l inner_isFull_def Let_def cs nth_append)
  qed
  moreover have "fullpath C k (Inner ks cs) = True # fullpath C k (cs ! ?i)"
    using full i len(2) by (simp add: Let_def)
  ultimately show ?thesis
    using k3 lk by (simp add: l(1,3)) (auto simp: cs)
qed

text \<open>A child has changed or grown: the parent takes it in.\<close>

definition take_in :: "('k :: linorder, 'v) grown \<Rightarrow> nat \<Rightarrow> 'k list \<Rightarrow> ('k, 'v) bt list \<Rightarrow> ('k, 'v) bt" where
  "take_in g i ks cs = (case g of Keep c \<Rightarrow> Inner ks (cs[i := c]) | Grow l sep r \<Rightarrow> inner_insert sep r ks (cs[i := l]))"

lemma take_in_ok:
  fixes k :: "'k :: linorder"
  assumes kids: "kids (bwf C h) lo hi (ka @ kb) (ca @ c # cb)" and len: "length ca = length ka" "lowerBound (ka @ kb) k = length ka"
    and sz: "ka @ kb \<noteq> []" "length (ka @ kb) < inner_max C - 1"
    and repl: "\<And>ks' cs'. length cs' = Suc (length ks') \<Longrightarrow>
        kids (bwf C h) lo hi (ka @ ks' @ kb) (ca @ cs' @ cb) \<longleftrightarrow> kids (bwf C h) (lastb lo ka) (hib hi kb) ks' cs'"
    and g: "gwf C h (lastb lo ka) (hib hi kb) g"
  shows "bwf C (Suc h) lo hi (take_in g (length ka) (ka @ kb) (ca @ c # cb))"
    "leaves (take_in g (length ka) (ka @ kb) (ca @ c # cb)) = concat (map leaves ca) @ gleaves g @ concat (map leaves cb)"
    "restep (fullpath C k c) g (gpath C k g) \<Longrightarrow>
      restep (fullpath C k (Inner (ka @ kb) (ca @ c # cb))) (Keep (take_in g (length ka) (ka @ kb) (ca @ c # cb)))
        (fullpath C k (take_in g (length ka) (ka @ kb) (ca @ c # cb)))"
proof -
  have sorted: "sorted_wrt (<) (ka @ kb)" using kids_keys [OF kids] by simp
  have below: "\<forall>x\<in>set ka. x < k" "\<forall>x\<in>set kb. k \<le> x"
    using lowerBound_split(2,3) [OF sorted, where k = k] len(2) by auto
  have nf: "\<not> inner_isFull C (ka @ kb)" using sz by (simp add: inner_isFull_def)
  let ?t = "take_in g (length ka) (ka @ kb) (ca @ c # cb)"
  have "bwf C (Suc h) lo hi ?t \<and> leaves ?t = concat (map leaves ca) @ gleaves g @ concat (map leaves cb) \<and>
    (restep (fullpath C k c) g (gpath C k g) \<longrightarrow> restep (fullpath C k (Inner (ka @ kb) (ca @ c # cb))) (Keep ?t) (fullpath C k ?t))"
  proof (cases g)
    case (Keep c')
    then have t: "?t = Inner (ka @ kb) (ca @ c' # cb)" using len(1) by (simp add: take_in_def list_update_append)
    have "kids (bwf C h) lo hi (ka @ [] @ kb) (ca @ [c'] @ cb)" using g Keep by (subst repl) auto
    moreover have "fullpath C k ?t = False # fullpath C k c'" "fullpath C k (Inner (ka @ kb) (ca @ c # cb)) = False # fullpath C k c"
      using t len nf by (simp_all add: Let_def nth_append)
    ultimately show ?thesis
      using Keep t sz restep_down [of "fullpath C k c" c' "fullpath C k c'" ?t] by simp
  next
    case (Grow l sep r)
    have gw: "bwf C h (lastb lo ka) (Some sep) l" "bwf C h (Some sep) (hib hi kb) r" "between (lastb lo ka) (hib hi kb) sep"
      using g Grow by simp_all
    have new: "kids (bwf C h) lo hi (ka @ [sep] @ kb) (ca @ [l, r] @ cb)"
      using gw by (subst repl) auto
    then have sorted': "sorted_wrt (<) (ka @ sep # kb)" using kids_keys [OF new] by simp
    then have pos: "lowerBound (ka @ kb) sep = length ka"
      by (intro lowerBound_eq [OF sorted]) (auto simp: sorted_wrt_append intro: less_imp_le)
    have t: "?t = Inner (ka @ sep # kb) (ca @ l # r # cb)"
      using Grow len(1) pos by (simp add: take_in_def inner_insert_def list_update_append Let_def)
    have path: "fullpath C k ?t = inner_isFull C (ka @ sep # kb) # gpath C k g"
    proof (cases "k \<le> sep")
      case True
      then have "lowerBound (ka @ sep # kb) k = length ka"
        using below by (intro lowerBound_eq [OF sorted']) auto
      then show ?thesis using True t len(1) Grow by (simp add: Let_def nth_append)
    next
      case False
      then have "lowerBound ((ka @ [sep]) @ kb) k = length (ka @ [sep])"
        using below sorted' by (intro lowerBound_eq) auto
      then show ?thesis using False t len(1) Grow by (simp add: Let_def nth_append)
    qed
    have "restep (False # fullpath C k c) (Keep ?t) (fullpath C k ?t)" if "restep (fullpath C k c) g (gpath C k g)"
    proof -
      from that Grow obtain q where "fullpath C k c = True # q" "gpath C k g = False # q" by auto
      then show ?thesis unfolding restep.simps path by (intro exI [of _ 0]) simp
    qed
    moreover have "fullpath C k (Inner (ka @ kb) (ca @ c # cb)) = False # fullpath C k c"
      using len nf by (simp add: Let_def nth_append)
    ultimately show ?thesis
      using new t sz Grow by simp
  qed
  then show "bwf C (Suc h) lo hi ?t" "leaves ?t = concat (map leaves ca) @ gleaves g @ concat (map leaves cb)"
    "restep (fullpath C k c) g (gpath C k g) \<Longrightarrow> restep (fullpath C k (Inner (ka @ kb) (ca @ c # cb))) (Keep ?t) (fullpath C k ?t)"
    by blast+
qed

lemma descend_ok:
  fixes t :: "('k :: linorder, 'v) bt" and act :: "('k, 'v, 'z) leaf_action"
  assumes I: "4 < inner_max C"
  shows "bwf C h lo hi t \<Longrightarrow> inside lo hi k \<Longrightarrow>
    (\<exists>g. descend C k act t s = Inr (Restart, g, s\<lparr>inner_nodes := inner_nodes s + 1\<rparr>) \<and> gwf C h lo hi g \<and> gleaves g = leaves t \<and>
       restep (fullpath C k t) g (gpath C k g)) \<or>
    (\<exists>xs a kvs ys lo' hi'. leaves t = xs @ (a, kvs) # ys \<and>
       (\<forall>l\<in>set xs. \<forall>x\<in>set (snd l). fst x < k) \<and> (\<forall>l\<in>set ys. \<forall>x\<in>set (snd l). k < fst x) \<and>
       bwf C 0 lo' hi' (Leaf a kvs) \<and> inside lo' hi' k \<and>
       (\<forall>e. act a kvs s = Inl e \<longrightarrow> descend C k act t s = Inl e) \<and>
       (\<forall>x g s'. act a kvs s = Inr (x, g, s') \<longrightarrow> gwf C 0 lo' hi' g \<longrightarrow>
          (\<exists>g'. descend C k act t s = Inr (x, g', s') \<and> gwf C h lo hi g' \<and> gleaves g' = xs @ gleaves g @ ys \<and>
             (restep [length kvs = leaf_max C] g (gpath C k g) \<longrightarrow> restep (fullpath C k t) g' (gpath C k g')))))"
proof (induction h arbitrary: lo hi t)
  case 0
  then obtain a kvs where t: "t = Leaf a kvs" by (auto split: bt.splits)
  then show ?case
    using 0 by (intro disjI2 exI [of _ "[]"] exI [of _ a] exI [of _ kvs] exI [of _ lo] exI [of _ hi]) simp
next
  case (Suc h)
  then obtain ks cs where t: "t = Inner ks cs" "kids (bwf C h) lo hi ks cs" "ks \<noteq> []" "length ks < inner_max C"
    by (auto split: bt.splits)
  show ?case
  proof (cases "inner_isFull C ks")
    case True
    obtain l sep r where sp: "inner_split ks cs = (l, sep, r)" by (cases "inner_split ks cs")
    from inner_split_ok [OF Suc.prems(1) [unfolded t(1)] True I Suc.prems(2) sp]
    show ?thesis using True sp t(1) by (intro disjI1 exI [of _ "Grow l sep r"]) simp
  next
    case False
    from kids_at [OF t(2) Suc.prems(2)] obtain ka kb ca c cb
      where at: "ks = ka @ kb" "cs = ca @ c # cb" "length ca = lowerBound ks k" "length ka = lowerBound ks k"
        "inside (lastb lo ka) (hib hi kb) k" "bwf C h (lastb lo ka) (hib hi kb) c"
      and repl: "\<And>ks' cs'. length cs' = Suc (length ks') \<Longrightarrow>
        kids (bwf C h) lo hi (ka @ ks' @ kb) (ca @ cs' @ cb) \<longleftrightarrow> kids (bwf C h) (lastb lo ka) (hib hi kb) ks' cs'"
      and low: "\<And>d. d \<in> set ca \<Longrightarrow> \<exists>lo' k'. k' < k \<and> bwf C h lo' (Some k') d"
      and high: "\<And>d. d \<in> set cb \<Longrightarrow> \<exists>lo' hi'. bwf C h lo' hi' d \<and> (\<forall>x. inside lo' hi' x \<longrightarrow> k < x)" by metis
    have sz: "ka @ kb \<noteq> []" "length (ka @ kb) < inner_max C - 1"
      using t(3,4) at(1) False by (auto simp: inner_isFull_def)
    have len: "length ca = length ka" "lowerBound (ka @ kb) k = length ka" using at(1,3,4) by simp_all
    note ti = take_in_ok [OF t(2) [unfolded at(1,2)] len sz repl]
    have step: "descend C k act t s = bind_res (descend C k act c s) (\<lambda>(x, g, s). Inr (x, Keep (take_in g (length ka) ks cs), s))"
      using False t(1) at(2,3,4) by (simp add: Let_def take_in_def nth_append)
    have lv: "leaves t = concat (map leaves ca) @ leaves c @ concat (map leaves cb)" using t(1) at(2) by simp
    from Suc.IH [OF at(6,5)] show ?thesis
    proof (elim disjE exE conjE, goal_cases)
      case (1 g)
      then show ?case
        using ti [of g] step lv unfolding at(1,2) t(1)
        by (intro disjI1 exI [of _ "Keep (take_in g (length ka) (ka @ kb) (ca @ c # cb))"]) simp
    next
      case (2 xs a kvs ys lo' hi')
      have "fst x < k" if "d \<in> set ca" "l \<in> set (leaves d)" "x \<in> set (snd l)" for d l x
        using low [OF that(1)] wf_inside [OF _ that(2,3), of C h] by (fastforce simp: inside_def)
      moreover have "k < fst x" if "d \<in> set cb" "l \<in> set (leaves d)" "x \<in> set (snd l)" for d l x
        using high [OF that(1)] wf_inside [OF _ that(2,3), of C h] by blast
      ultimately have ord: "\<forall>l\<in>set (concat (map leaves ca) @ xs). \<forall>x\<in>set (snd l). fst x < k"
        "\<forall>l\<in>set (ys @ concat (map leaves cb)). \<forall>x\<in>set (snd l). k < fst x" using 2(2,3) by auto
      have lv': "leaves t = (concat (map leaves ca) @ xs) @ (a, kvs) # (ys @ concat (map leaves cb))"
        using lv 2(1) by simp
      have ok: "\<exists>g'. descend C k act t s = Inr (x, g', s') \<and> gwf C (Suc h) lo hi g' \<and>
            gleaves g' = (concat (map leaves ca) @ xs) @ gleaves g @ (ys @ concat (map leaves cb)) \<and>
            (restep [length kvs = leaf_max C] g (gpath C k g) \<longrightarrow> restep (fullpath C k t) g' (gpath C k g'))"
        if act: "act a kvs s = Inr (x, g, s')" "gwf C 0 lo' hi' g" for x g s'
      proof -
        from 2(7) act obtain g1 where g1: "descend C k act c s = Inr (x, g1, s')" "gwf C h (lastb lo ka) (hib hi kb) g1"
          "gleaves g1 = xs @ gleaves g @ ys" "restep [length kvs = leaf_max C] g (gpath C k g) \<longrightarrow> restep (fullpath C k c) g1 (gpath C k g1)"
          by blast
        then show ?thesis
          using ti [OF _ g1(2)] step unfolding at(1,2) t(1)
          by (intro exI [of _ "Keep (take_in g1 (length ka) (ka @ kb) (ca @ c # cb))"]) simp
      qed
      have er: "\<forall>e. act a kvs s = Inl e \<longrightarrow> descend C k act t s = Inl e" using 2(6) step by simp
      show ?case
        by (rule disjI2, intro exI conjI) (rule lv', rule ord(1), rule ord(2), rule 2(4), rule 2(5), rule er, use ok in blast)
    qed
  qed
qed

end
