(* ===== verification/BTreeOps.thy ===== *)
theory BTreeOps
  imports BTreeProps
begin

text \<open>
  The operations on the B+-tree: the state invariant of tree and leaf chain, the contract of the
  action at the leaf, under which the restarts end, and its instances for the three insertions.
\<close>

section \<open>The chain of the leaves\<close>

definition caps_ok :: "caps \<Rightarrow> bool" where
  "caps_ok C \<longleftrightarrow> 3 \<le> leaf_max C \<and> 9 \<le> inner_max C"

definition ahead :: "'a list \<Rightarrow> 'a option \<Rightarrow> 'a option" where
  "ahead as n = (case as of [] \<Rightarrow> n | a # _ \<Rightarrow> Some a)"

fun links :: "(nat \<Rightarrow> nat option) \<Rightarrow> nat list \<Rightarrow> nat option \<Rightarrow> bool" where
  "links f [] n \<longleftrightarrow> True"
| "links f (a # as) n \<longleftrightarrow> f a = ahead as n \<and> links f as n"

abbreviation flat :: "(nat \<times> ('k, 'v) kvs) list \<Rightarrow> ('k, 'v) kvs" where
  "flat lv \<equiv> concat (map snd lv)"

definition chained :: "caps \<Rightarrow> (nat \<times> ('k, 'v) kvs) list \<Rightarrow> 'z tstate_scheme \<Rightarrow> bool" where
  "chained C lv s \<longleftrightarrow> caps_ok C \<and> distinct (map fst lv) \<and> (\<forall>a\<in>set (map fst lv). a < fresh s) \<and>
     links (next_leaf s) (map fst lv) None \<and> (length lv = 1 \<or> (\<forall>l\<in>set lv. snd l \<noteq> [])) \<and>
     leaf_nodes s = of_nat (length lv) \<and> num_items s = of_nat (length (flat lv))"

definition tree_ok :: "caps \<Rightarrow> ('k :: linorder, 'v) bt \<times> 'z tstate_scheme \<Rightarrow> bool" where
  "tree_ok C = (\<lambda>(t, s). (\<exists>h. bwf C h None None t) \<and> chained C (leaves t) s)"

lemma ahead_append [simp]: "ahead (xs @ ys) n = ahead xs (ahead ys n)"
  by (cases xs) (auto simp: ahead_def)

lemma ahead_simps [simp]: "ahead [] n = n" "ahead (a # as) n = Some a"
  by (auto simp: ahead_def)

lemma links_append [simp]: "links f (xs @ ys) n \<longleftrightarrow> links f xs (ahead ys n) \<and> links f ys n"
  by (induction xs) auto

lemma links_other [simp]: "a \<notin> set as \<Longrightarrow> links (f(a := x)) as n \<longleftrightarrow> links f as n"
  by (induction as) auto

text \<open>A leaf of the tree, its address and its successor.\<close>

lemma chained_at:
  assumes "chained C (leaves t) s" "leaves t = xs @ (a, kvs) # ys"
  shows "next_leaf s a = ahead (map fst ys) None" "peek t a = Inr kvs"
    "ys = (b, nk) # zs \<Longrightarrow> peek t b = Inr nk \<and> nk \<noteq> []"
proof -
  have d: "distinct (map fst (leaves t))" using assms(1) by (simp add: chained_def)
  have p: "peek t c = Inr vs" if "(c, vs) \<in> set (leaves t)" for c vs
    using that d by (simp add: peek_def)
  show "next_leaf s a = ahead (map fst ys) None" using assms by (simp add: chained_def)
  show "peek t a = Inr kvs" using assms(2) by (intro p) simp
  show "peek t b = Inr nk \<and> nk \<noteq> []" if "ys = (b, nk) # zs"
    using p [of b nk] assms that by (auto simp: chained_def)
qed

text \<open>The contents of one leaf change, and the item count with them.\<close>

lemma chained_leaf:
  assumes "chained C (xs @ (a, kvs) # ys) s" "kvs' \<noteq> [] \<or> xs @ ys = []"
    "next_leaf s' = next_leaf s" "fresh s' = fresh s" "leaf_nodes s' = leaf_nodes s"
    "num_items s' + of_nat (length kvs) = num_items s + of_nat (length kvs')"
  shows "chained C (xs @ (a, kvs') # ys) s'"
proof -
  have "num_items s' + of_nat (length kvs) = of_nat (length (flat (xs @ ys)) + length kvs') + of_nat (length kvs)"
    using assms(1,6) by (simp add: chained_def algebra_simps)
  then have "num_items s' = of_nat (length (flat (xs @ ys)) + length kvs')" by (rule add_right_imp_eq)
  then show ?thesis using assms(1-5) by (auto simp: chained_def)
qed

lemma leaf_split_ok:
  fixes kvs :: "('k :: linorder, 'v) kvs" and s :: "'z tstate_scheme"
  assumes J: "chained C (xs @ (a, kvs) # ys) s" and wf: "bwf C 0 lo hi (Leaf a kvs)" and full: "length kvs = leaf_max C"
    and sp: "leaf_split a kvs s = ((l, sep, b, r), s')"
  shows "kvs = l @ r" "l \<noteq> []" "r \<noteq> []" "sep = fst (last l)" "gwf C 0 lo hi (Grow (Leaf a l) sep (Leaf b r))"
    "chained C (xs @ (a, l) # (b, r) # ys) s'" "length l < leaf_max C" "length r < leaf_max C"
    "num_items s' = num_items s" "\<forall>x\<in>set l. fst x \<le> sep" "\<forall>x\<in>set r. sep < fst x"
proof -
  let ?n = "length kvs div 2"
  have n: "length kvs - (length kvs - ?n) = ?n" "0 < ?n" "?n < length kvs"
    using full J by (auto simp: chained_def caps_ok_def)
  have e: "l = take ?n kvs" "r = drop ?n kvs" "sep = fst (kvs ! (?n - 1))" "b = fresh s"
    "s' = s\<lparr>next_leaf := (next_leaf s)(b := next_leaf s a, a := Some b), pre_leaf := (pre_leaf s)(b := Some a),
         fresh := Suc b, leaf_nodes := leaf_nodes s + 1\<rparr>"
    using sp n(1) by (auto simp: leaf_split_def Let_def)
  show kvs: "kvs = l @ r" and ne: "l \<noteq> []" "r \<noteq> []" using e n by auto
  show sep: "sep = fst (last l)" using e n ne by (simp add: last_conv_nth)
  show "length l < leaf_max C" "length r < leaf_max C" "num_items s' = num_items s" using kvs ne full e by auto
  have srt: "sorted_wrt (<) (map fst (l @ r))" and ins: "\<forall>x\<in>set (l @ r). inside lo hi (fst x)" using wf kvs by simp_all
  have l: "l = butlast l @ [last l]" using ne by simp
  have "sorted_wrt (<) (map fst (butlast l @ [last l]))" using srt l by (simp add: sorted_wrt_append)
  then have "\<forall>x\<in>set (butlast l). fst x < sep" by (simp add: sorted_wrt_append sep)
  then show le: "\<forall>x\<in>set l. fst x \<le> sep" using l sep by (metis Un_iff empty_iff insert_iff less_imp_le list.set order_refl set_append)
  show gt: "\<forall>x\<in>set r. sep < fst x" using srt ne by (simp add: sorted_wrt_append sep)
  have hi: "inside lo hi sep" using ins ne sep by simp
  have "inside lo hi (fst (hd r))" "sep < fst (hd r)" using ins gt ne by auto
  then have "between lo hi sep" using hi by (cases hi) (auto simp: between_def inside_def)
  then show "gwf C 0 lo hi (Grow (Leaf a l) sep (Leaf b r))"
    using srt ins le gt wf by (auto simp: sorted_wrt_append kvs inside_def)
  have "b \<notin> set (map fst (xs @ (a, kvs) # ys))" using J e(4) by (auto simp: chained_def)
  then show "chained C (xs @ (a, l) # (b, r) # ys) s'"
    using J ne unfolding chained_def e(5) by (auto simp: e(4) kvs less_Suc_eq)
qed

section \<open>The contract of the action at the leaf\<close>

text \<open>
  The action works on the one leaf that may hold the key. It may split the leaf and ask for a restart,
  which must not change the contents, or finish. \<open>J\<close> is the invariant of the leaf chain, \<open>post\<close> and \<open>fails\<close> relate the
  contents and state at the start of an operation to its result.
\<close>

locale leaf_op =
  fixes C :: caps and k :: "'k :: linorder" and act :: "('k, 'v) bt \<Rightarrow> ('k, 'v, 'z) leaf_action"
    and J :: "(nat \<times> ('k, 'v) kvs) list \<Rightarrow> 'z tstate_scheme \<Rightarrow> bool"
    and fails :: "('k, 'v) kvs \<Rightarrow> 'z tstate_scheme \<Rightarrow> err \<Rightarrow> bool"
    and post :: "('k, 'v) kvs \<Rightarrow> 'z tstate_scheme \<Rightarrow> bool \<Rightarrow> ('k, 'v) kvs \<Rightarrow> 'z tstate_scheme \<Rightarrow> bool"
  assumes caps: "J lv s \<Longrightarrow> caps_ok C"
    and inner: "J lv s \<Longrightarrow> J lv (s\<lparr>inner_nodes := n\<rparr>)"
      "post e (s\<lparr>inner_nodes := n\<rparr>) ok e' s' \<Longrightarrow> post e s ok e' s'" "fails e (s\<lparr>inner_nodes := n\<rparr>) er \<Longrightarrow> fails e s er"
    and failed: "J (leaves t) s \<Longrightarrow> leaves t = xs @ (a, kvs) # ys \<Longrightarrow> \<forall>l\<in>set xs. \<forall>x\<in>set (snd l). fst x < k \<Longrightarrow>
      \<forall>l\<in>set ys. \<forall>x\<in>set (snd l). k < fst x \<Longrightarrow> bwf C 0 lo hi (Leaf a kvs) \<Longrightarrow> inside lo hi k \<Longrightarrow>
      act t a kvs s = Inl er \<Longrightarrow> fails (entries t) s er"
    and restarted: "J (leaves t) s \<Longrightarrow> leaves t = xs @ (a, kvs) # ys \<Longrightarrow> bwf C 0 lo hi (Leaf a kvs) \<Longrightarrow> inside lo hi k \<Longrightarrow>
      act t a kvs s = Inr (Restart, g, s') \<Longrightarrow>
      gwf C 0 lo hi g \<and> J (xs @ gleaves g @ ys) s' \<and> flat (gleaves g) = kvs \<and> restep [length kvs = leaf_max C] g (gpath C k g) \<and>
      (\<forall>ok e' s''. post (entries t) s' ok e' s'' \<longrightarrow> post (entries t) s ok e' s'') \<and>
      (\<forall>er. fails (entries t) s' er \<longrightarrow> fails (entries t) s er)"
    and finished: "J (leaves t) s \<Longrightarrow> leaves t = xs @ (a, kvs) # ys \<Longrightarrow> \<forall>l\<in>set xs. \<forall>x\<in>set (snd l). fst x < k \<Longrightarrow>
      \<forall>l\<in>set ys. \<forall>x\<in>set (snd l). k < fst x \<Longrightarrow> bwf C 0 lo hi (Leaf a kvs) \<Longrightarrow> inside lo hi k \<Longrightarrow>
      act t a kvs s = Inr (Done ok, g, s') \<Longrightarrow>
      gwf C 0 lo hi g \<and> J (xs @ gleaves g @ ys) s' \<and> post (entries t) s ok (flat (xs @ gleaves g @ ys)) s'"
begin

definition good :: "('k, 'v) bt \<times> 'z tstate_scheme \<Rightarrow> bool" where
  "good = (\<lambda>(t, s). (\<exists>h. bwf C h None None t) \<and> J (leaves t) s)"

lemma root_ok:
  assumes "gwf C h None None g" "caps_ok C" "t = (case g of Keep t \<Rightarrow> t | Grow l sep r \<Rightarrow> makeRoot sep l r)"
  shows "\<exists>h. bwf C h None None t" "leaves t = gleaves g"
    "fullpath C k t = (case g of Keep _ \<Rightarrow> gpath C k g | Grow _ _ _ \<Rightarrow> False # gpath C k g)"
proof -
  show "leaves t = gleaves g" using assms(3) by (cases g) (simp_all add: makeRoot_def)
  show "\<exists>h. bwf C h None None t"
  proof (cases g)
    case (Grow l sep r)
    then have "bwf C (Suc h) None None t" using assms by (simp add: makeRoot_def caps_ok_def)
    then show ?thesis ..
  qed (use assms in auto)
  show "fullpath C k t = (case g of Keep _ \<Rightarrow> gpath C k g | Grow _ _ _ \<Rightarrow> False # gpath C k g)"
  proof (cases g)
    case (Grow l sep r)
    have "\<not> inner_isFull C [sep]" using assms(2) by (auto simp: inner_isFull_def caps_ok_def)
    moreover have "lowerBound [sep] k = (if k \<le> sep then 0 else 1)" by (auto simp: lowerBound_takeWhile)
    ultimately show ?thesis using Grow assms(3) by (simp add: makeRoot_def Let_def)
  qed (use assms in auto)
qed

text \<open>Each restart moves the topmost full node of the path up or removes it.\<close>

definition todo :: "(bool list \<times> bool list) set" where
  "todo = measures [\<lambda>p. count_list p True, \<lambda>p. length (takeWhile Not p)]"

lemma restep_less:
  assumes "restep p g (gpath C k g)"
  shows "((case g of Keep _ \<Rightarrow> gpath C k g | Grow _ _ _ \<Rightarrow> False # gpath C k g), p) \<in> todo"
proof (cases g)
  case (Keep t)
  then obtain d b q where q: "p = replicate (Suc d) False @ True # q" "gpath C k g = replicate d False @ b # False # q"
    using assms by auto
  have c: "count_list (replicate n False) True = 0" "takeWhile Not (replicate n False @ True # q') = replicate n False" for n q'
    by (induction n) auto
  then have "takeWhile Not p = replicate (Suc d) False" using q(1) by metis
  then show ?thesis using Keep q c(1) [of d] c(2) [of d] by (cases b) (simp_all add: todo_def)
qed (use assms in \<open>auto simp: todo_def\<close>)

lemma run_once_step:
  assumes "bwf C h None None t" "J (leaves t) s"
  obtains (error) er where "run_once C k (act t) (t, s) = Inl er" "fails (entries t) s er"
  | (restart) t' s' where "run_once C k (act t) (t, s) = Inr (Restart, t', s')" "good (t', s')" "entries t' = entries t"
      "(fullpath C k t', fullpath C k t) \<in> todo" "\<And>ok e' s''. post (entries t) s' ok e' s'' \<Longrightarrow> post (entries t) s ok e' s''"
      "\<And>er. fails (entries t) s' er \<Longrightarrow> fails (entries t) s er"
  | (finish) ok t' s' where "run_once C k (act t) (t, s) = Inr (Done ok, t', s')" "good (t', s')" "post (entries t) s ok (entries t') s'"
proof -
  let ?root = "\<lambda>g. case g of Keep t \<Rightarrow> t | Grow l sep r \<Rightarrow> makeRoot sep l r"
  have C: "caps_ok C" "4 < inner_max C" using caps [OF assms(2)] by (auto simp: caps_ok_def)
  have top: "inside None None k" by simp
  show thesis
    using descend_ok [OF C(2) assms(1) top, of "act t" s]
  proof (elim disjE exE conjE)
    fix g
    assume d: "descend C k (act t) t s = Inr (Restart, g, s\<lparr>inner_nodes := inner_nodes s + 1\<rparr>)" and g: "gwf C h None None g"
      "gleaves g = leaves t" "restep (fullpath C k t) g (gpath C k g)"
    note r = root_ok [OF g(1) C(1) refl]
    show thesis
      using d r(1) inner restep_less [OF g(3)] assms(2)
      by (intro restart [of "?root g" "s\<lparr>inner_nodes := inner_nodes s + 1\<rparr>"])
        (auto simp: run_once_def good_def r(2,3) g(2) entries_def)
  next
    fix xs a kvs ys lo' hi'
    assume at: "leaves t = xs @ (a, kvs) # ys" "\<forall>l\<in>set xs. \<forall>x\<in>set (snd l). fst x < k" "\<forall>l\<in>set ys. \<forall>x\<in>set (snd l). k < fst x"
      "bwf C 0 lo' hi' (Leaf a kvs)" "inside lo' hi' k"
      and er: "\<forall>e. act t a kvs s = Inl e \<longrightarrow> descend C k (act t) t s = Inl e"
      and ok: "\<forall>x g s'. act t a kvs s = Inr (x, g, s') \<longrightarrow> gwf C 0 lo' hi' g \<longrightarrow>
          (\<exists>g'. descend C k (act t) t s = Inr (x, g', s') \<and> gwf C h None None g' \<and> gleaves g' = xs @ gleaves g @ ys \<and>
             (restep [length kvs = leaf_max C] g (gpath C k g) \<longrightarrow> restep (fullpath C k t) g' (gpath C k g')))"
    consider e where "act t a kvs s = Inl e" | g s' where "act t a kvs s = Inr (Restart, g, s')"
      | b g s' where "act t a kvs s = Inr (Done b, g, s')" by (metis outcome.exhaust prod.exhaust sum.exhaust)
    then show thesis
    proof cases
      case (1 e)
      then show thesis using er failed [OF assms(2) at 1] by (intro error) (simp_all add: run_once_def)
    next
      case (2 g s')
      note st = restarted [OF assms(2) at(1,4,5) 2]
      from ok 2 st obtain g' where g': "descend C k (act t) t s = Inr (Restart, g', s')" "gwf C h None None g'"
        "gleaves g' = xs @ gleaves g @ ys" "restep (fullpath C k t) g' (gpath C k g')" by blast
      note r = root_ok [OF g'(2) C(1) refl]
      show thesis
        using g' r(1) st restep_less [OF g'(4)]
        by (intro restart [of "?root g'" s']) (auto simp: run_once_def good_def r(2,3) entries_def at(1))
    next
      case (3 b g s')
      note st = finished [OF assms(2) at 3]
      from ok 3 st obtain g' where g': "descend C k (act t) t s = Inr (Done b, g', s')" "gwf C h None None g'"
        "gleaves g' = xs @ gleaves g @ ys" by blast
      note r = root_ok [OF g'(2) C(1) refl]
      show thesis
        using g' r(1) st by (intro finish [of b "?root g'" s']) (auto simp: run_once_def good_def r(2) entries_def)
    qed
  qed
qed

lemma loop_total:
  assumes "good (t, s)"
  shows "(\<exists>er. restart_loop C k act (t, s) = Some (Inl er) \<and> fails (entries t) s er) \<or>
    (\<exists>ok t' s'. restart_loop C k act (t, s) = Some (Inr (ok, t', s')) \<and> good (t', s') \<and> post (entries t) s ok (entries t') s')"
proof -
  have "wf todo" by (simp add: todo_def)
  then show ?thesis using assms
proof (induction "fullpath C k t" arbitrary: t s rule: wf_induct_rule)
  case (less t s)
  then obtain h where g: "bwf C h None None t" "J (leaves t) s" by (auto simp: good_def)
  from g show ?case
  proof (cases rule: run_once_step)
    case (error er)
    then show ?thesis by (subst (1 2) restart_loop.simps) simp
  next
    case (restart t' s')
    from less.hyps [OF restart(4,2)] show ?thesis
      using restart by (subst (1 2) restart_loop.simps) auto
  next
    case (finish ok t' s')
    then show ?thesis by (subst (1 2) restart_loop.simps) simp
  qed
qed
qed

end

end
