(* ===== verification/BTreeInsert.thy ===== *)
theory BTreeInsert
  imports BTreeOps
begin

text \<open>
  The three insertions of the B+-tree. Each ends, keeps the invariant, and inserts into the sorted
  contents; the two with a callback hand it the successor of the key.
\<close>

section \<open>Contents\<close>

definition put :: "('k :: linorder) \<Rightarrow> 'v \<Rightarrow> ('k, 'v) kvs \<Rightarrow> ('k, 'v) kvs" where
  "put k v e = takeWhile (\<lambda>x. fst x < k) e @ (k, v) # dropWhile (\<lambda>x. fst x < k) e"

definition successor :: "('k :: linorder) \<Rightarrow> ('k, 'v) kvs \<Rightarrow> ('k \<times> 'v) option" where
  "successor k e = find (\<lambda>x. k < fst x) e"

lemma put_set [simp]: "set (put k v e) = insert (k, v) (set e)" "length (put k v e) = Suc (length e)" "put k v e \<noteq> []"
proof -
  have "set (takeWhile (\<lambda>x. fst x < k) e) \<union> set (dropWhile (\<lambda>x. fst x < k) e) = set e"
    by (metis set_append takeWhile_dropWhile_id)
  then show "set (put k v e) = insert (k, v) (set e)" by (auto simp: put_def)
  have "length (takeWhile (\<lambda>x. fst x < k) e) + length (dropWhile (\<lambda>x. fst x < k) e) = length e"
    by (metis length_append takeWhile_dropWhile_id)
  then show "length (put k v e) = Suc (length e)" by (simp add: put_def)
qed (simp add: put_def)

lemma put_at: "\<forall>x\<in>set ea. fst x < k \<Longrightarrow> \<forall>x\<in>set eb. k < fst x \<Longrightarrow> put k v (ea @ eb) = ea @ (k, v) # eb"
  by (cases eb) (auto simp: put_def)

lemma put_mid:
  assumes "\<forall>x\<in>set ea. fst x < k" "\<forall>x\<in>set eb. k < fst x"
  shows "put k v (ea @ e @ eb) = ea @ put k v e @ eb"
proof -
  let ?P = "\<lambda>x. fst x < k"
  have "takeWhile ?P (e @ eb) = takeWhile ?P e \<and> dropWhile ?P (e @ eb) = dropWhile ?P e @ eb"
    using assms(2) by (induction e) (cases eb; auto)+
  then show ?thesis using assms(1) by (simp add: put_def)
qed

lemma leaf_insert_eq:
  assumes "sorted_wrt (<) (map fst kvs)"
  shows "leaf_insert kvs k v = (if k \<in> fst ` set kvs then (False, kvs) else (True, put k v kvs))"
  using assms
proof (cases rule: leaf_at [where k = k])
  case (found la w lb)
  moreover have "kvs ! length la = (k, w)" "length la < length kvs" by (simp_all add: found(1))
  moreover have "k \<in> fst ` set kvs" by (simp add: found(1))
  ultimately show ?thesis by (simp add: leaf_insert_def Let_def)
next
  case (missing la lb)
  then have "k \<notin> fst ` set kvs" by (auto simp: map_of_eq_None_iff)
  moreover have "take (length la) kvs = la" "drop (length la) kvs = lb" by (simp_all add: missing(1))
  moreover have "put k v kvs = la @ (k, v) # lb" using put_at [OF missing(4,5), of v] missing(1) by simp
  ultimately show ?thesis using missing(2,6) by (simp add: leaf_insert_def Let_def)
qed

lemma put_sorted:
  assumes "sorted_wrt (<) (map fst kvs)" "k \<notin> fst ` set kvs"
  shows "sorted_wrt (<) (map fst (put k v kvs))"
  using assms(1)
proof (cases rule: leaf_at [where k = k])
  case (found la w lb)
  then show ?thesis using assms(2) by simp
next
  case (missing la lb)
  then have e: "put k v kvs = la @ (k, v) # lb" using put_at [OF missing(4,5), of v] by simp
  show ?thesis using assms(1) missing(4,5) unfolding e unfolding missing(1) by (auto simp: sorted_wrt_append)
qed

lemma map_of_put:
  assumes "sorted_wrt (<) (map fst e)" "k \<notin> fst ` set e"
  shows "map_of (put k v e) = (map_of e)(k \<mapsto> v)"
proof -
  have "distinct (map fst (put k v e))" "distinct (map fst ((k, v) # e))"
    using put_sorted [OF assms] assms strict_sorted_iff by auto
  moreover have "set (put k v e) = set ((k, v) # e)" by simp
  ultimately have "map_of (put k v e) = map_of ((k, v) # e)" by (simp only: map_of_inject_set)
  then show ?thesis by simp
qed

text \<open>Putting into the one leaf that may hold the key is putting into the contents.\<close>

lemma put_leaf:
  assumes "leaves t = xs @ (a, kvs) # ys" "\<forall>l\<in>set xs. \<forall>x\<in>set (snd l). fst x < k" "\<forall>l\<in>set ys. \<forall>x\<in>set (snd l). k < fst x"
  shows "k \<in> fst ` set (entries t) \<longleftrightarrow> k \<in> fst ` set kvs" "put k v (entries t) = flat xs @ put k v kvs @ flat ys"
    "successor k (entries t) = (case successor k kvs of None \<Rightarrow> hd_opt (flat ys) | Some x \<Rightarrow> Some x)"
proof -
  have e: "entries t = flat xs @ kvs @ flat ys" by (simp add: entries_def assms(1))
  have low: "\<forall>x\<in>set (flat xs). fst x < k" and high: "\<forall>x\<in>set (flat ys). k < fst x" using assms(2,3) by auto
  show "k \<in> fst ` set (entries t) \<longleftrightarrow> k \<in> fst ` set kvs"
  proof -
    have "k \<notin> fst ` set (flat xs)" "k \<notin> fst ` set (flat ys)" using low high by (auto simp del: set_concat)
    then show ?thesis unfolding e by (simp add: image_Un del: set_concat)
  qed
  show "put k v (entries t) = flat xs @ put k v kvs @ flat ys" unfolding e using low high by (rule put_mid)
  have "find (\<lambda>x. k < fst x) (flat xs) = None" using low by (auto simp: find_None_iff simp del: set_concat dest: order.asym)
  moreover have "find (\<lambda>x. k < fst x) (flat ys) = hd_opt (flat ys)"
    using high by (cases "flat ys") (simp_all del: set_concat concat_eq_Nil_conv)
  moreover have "find P (as @ bs) = (case find P as of None \<Rightarrow> find P bs | Some x \<Rightarrow> Some x)" for P and as bs :: "('a \<times> 'b) list"
    by (induction as) auto
  ultimately show "successor k (entries t) = (case successor k kvs of None \<Rightarrow> hd_opt (flat ys) | Some x \<Rightarrow> Some x)"
    by (simp add: e successor_def split: option.split)
qed

lemma entries_inside: "bwf C h lo hi t \<Longrightarrow> x \<in> set (entries t) \<Longrightarrow> inside lo hi (fst x)"
  by (auto simp: entries_def intro: wf_inside)

lemma kids_sorted:
  fixes cs :: "('a :: linorder, 'b) bt list"
  assumes "kids (bwf C h) lo hi ks cs" "\<And>lo hi. \<And>c :: ('a, 'b) bt. bwf C h lo hi c \<Longrightarrow> sorted_wrt (<) (map fst (entries c))"
  shows "sorted_wrt (<) (map fst (concat (map entries cs))) \<and> (\<forall>x\<in>set (concat (map entries cs)). inside lo hi (fst x))"
  using assms(1)
proof (induction "bwf C h :: 'a option \<Rightarrow> 'a option \<Rightarrow> ('a, 'b) bt \<Rightarrow> bool" lo hi ks cs rule: kids.induct)
  case (1 lo hi c)
  then show ?case using assms(2) [of lo hi c] by (auto intro: entries_inside)
next
  case (2 lo hi k ks c cs)
  then have b: "between lo hi k" "bwf C h lo (Some k) c" and r: "sorted_wrt (<) (map fst (concat (map entries cs)))"
    "\<forall>x\<in>set (concat (map entries cs)). inside (Some k) hi (fst x)" by auto
  have l: "\<forall>x\<in>set (entries c). inside lo (Some k) (fst x)" using entries_inside [OF b(2)] by blast
  have k: "inside lo hi k" using b(1) by (simp add: between_def)
  have "\<forall>x\<in>set (entries c). \<forall>y\<in>set (concat (map entries cs)). fst x < fst y"
    using l r(2) by (fastforce simp: inside_def)
  moreover have "\<forall>x\<in>set (entries c). inside lo hi (fst x)" "\<forall>x\<in>set (concat (map entries cs)). inside lo hi (fst x)"
    using l r(2) inside_trans(1) [OF _ k] inside_trans(2) [OF _ k] by blast+
  ultimately show ?case using r(1) assms(2) [OF b(2)] by (simp add: sorted_wrt_append del: set_concat) blast
qed auto

lemma entries_Inner: "entries (Inner ks cs) = concat (map entries cs)"
  unfolding entries_def by (induction cs) simp_all

lemma entries_sorted: "bwf C h lo hi t \<Longrightarrow> sorted_wrt (<) (map fst (entries t))"
proof (induction h arbitrary: lo hi t)
  case 0
  then show ?case by (auto simp: entries_def split: bt.splits)
next
  case (Suc h)
  then obtain ks cs where "t = Inner ks cs" "kids (bwf C h) lo hi ks cs" by (auto split: bt.splits)
  then show ?case using kids_sorted [of C h lo hi ks cs] Suc.IH by (simp add: entries_Inner)
qed

section \<open>Insertion without a callback\<close>

definition put_post :: "('k :: linorder) \<Rightarrow> 'v \<Rightarrow> ('k, 'v) kvs \<Rightarrow> bool \<Rightarrow> ('k, 'v) kvs \<Rightarrow> bool" where
  "put_post k v e ok e' \<longleftrightarrow> ok = (k \<notin> fst ` set e) \<and> e' = (if ok then put k v e else e)"

lemma put_post_mid:
  assumes "\<forall>x\<in>set ea. fst x < k" "\<forall>x\<in>set eb. k < fst x"
  shows "put_post k v (ea @ m @ eb) (k \<notin> fst ` set m) (ea @ (if k \<notin> fst ` set m then put k v m else m) @ eb)"
proof -
  have "k \<notin> fst ` set ea" "k \<notin> fst ` set eb" using assms by auto
  then show ?thesis using put_mid [OF assms] by (auto simp: put_post_def image_Un)
qed

lemma bwf_put:
  assumes "bwf C 0 lo hi (Leaf a kvs)" "inside lo hi k" "k \<notin> fst ` set kvs" "length kvs < leaf_max C"
  shows "bwf C 0 lo hi (Leaf a (put k v kvs))"
  using assms put_sorted [of kvs k v] by auto

text \<open>The same in either half of a split leaf.\<close>

lemma insert_leaf_ok:
  fixes s :: "'z tstate_scheme"
  assumes J: "chained C (leaves t) s" and lv: "leaves t = xs @ (a, kvs) # ys"
    and ord: "\<forall>l\<in>set xs. \<forall>x\<in>set (snd l). fst x < k" "\<forall>l\<in>set ys. \<forall>x\<in>set (snd l). k < fst x"
    and wf: "bwf C 0 lo hi (Leaf a kvs)" and k: "inside lo hi k"
  obtains ok g s' where "insert_leaf C k v a kvs s = Inr (Done ok, g, s')" "gwf C 0 lo hi g" "chained C (xs @ gleaves g @ ys) s'"
    "put_post k v (entries t) ok (flat (xs @ gleaves g @ ys))"
proof (cases "length kvs = leaf_max C")
  case False
  let ?new = "k \<notin> fst ` set kvs"
  let ?kvs = "if ?new then put k v kvs else kvs"
  have sorted: "sorted_wrt (<) (map fst kvs)" and len: "length kvs < leaf_max C" using wf False by auto
  have 1: "insert_leaf C k v a kvs s = Inr (Done ?new, Keep (Leaf a ?kvs), count_item ?new s)"
    using False leaf_insert_eq [OF sorted] by (simp add: insert_leaf_def)
  have 2: "bwf C 0 lo hi (Leaf a ?kvs)" using bwf_put [OF wf k _ len] wf by simp
  have 3: "chained C (xs @ (a, ?kvs) # ys) (count_item ?new s)"
  proof (cases ?new)
    case True
    then show ?thesis using J unfolding lv by (auto simp: count_item_def intro: chained_leaf)
  qed (use J lv in \<open>simp add: count_item_def\<close>)
  have 4: "put_post k v (entries t) ?new (flat (xs @ (a, ?kvs) # ys))"
    using put_post_mid [of "flat xs" k "flat ys" v kvs] ord by (simp add: entries_def lv)
  show ?thesis using that [OF 1] 2 3 4 by simp
next
  case True
  obtain l sep b r s1 where sp: "leaf_split a kvs s = ((l, sep, b, r), s1)" by (metis prod.exhaust)
  note split = leaf_split_ok [OF J [unfolded lv] wf True sp]
  have e: "entries t = flat xs @ l @ r @ flat ys" by (simp add: entries_def lv split(1))
  have wfs: "bwf C 0 lo (Some sep) (Leaf a l)" "bwf C 0 (Some sep) hi (Leaf b r)" "between lo hi sep"
    using split(5) by (simp_all only: gwf.simps)
  have srt: "sorted_wrt (<) (map fst l)" "sorted_wrt (<) (map fst r)" using wfs by auto
  show ?thesis
  proof (cases "sep < k")
    case right: True
    let ?new = "k \<notin> fst ` set r"
    let ?r = "if ?new then put k v r else r"
    have 1: "insert_leaf C k v a kvs s = Inr (Done ?new, Grow (Leaf a l) sep (Leaf b ?r), count_item ?new s1)"
      using True right sp leaf_insert_eq [OF srt(2)] by (simp add: insert_leaf_def)
    have k': "inside (Some sep) hi k" using k right by (simp add: inside_def)
    have 2: "gwf C 0 lo hi (Grow (Leaf a l) sep (Leaf b ?r))"
      using bwf_put [OF wfs(2) k' _ split(8)] wfs by simp
    have 3: "chained C ((xs @ [(a, l)]) @ (b, ?r) # ys) (count_item ?new s1)"
    proof (cases ?new)
      case True
      then show ?thesis using split(6) chained_leaf [of C "xs @ [(a, l)]" b r ys s1 "put k v r" "count_item ?new s1"] by (simp add: count_item_def)
    qed (use split(6) in \<open>simp add: count_item_def\<close>)
    have "\<forall>x\<in>set (flat (xs @ [(a, l)])). fst x < k" "\<forall>x\<in>set (flat ys). k < fst x"
      using ord split(10) right by auto
    then have 4: "put_post k v (entries t) ?new (flat (xs @ [(a, l)]) @ ?r @ flat ys)"
      using put_post_mid [of "flat (xs @ [(a, l)])" k "flat ys" v r] by (simp add: e del: set_concat)
    show ?thesis using that [OF 1] 2 3 4 by simp
  next
    case left: False
    let ?new = "k \<notin> fst ` set l"
    let ?l = "if ?new then put k v l else l"
    have 1: "insert_leaf C k v a kvs s = Inr (Done ?new, Grow (Leaf a ?l) sep (Leaf b r), count_item ?new s1)"
      using True left sp leaf_insert_eq [OF srt(1)] by (simp add: insert_leaf_def)
    have k': "inside lo (Some sep) k" using k left by (simp add: inside_def)
    have 2: "gwf C 0 lo hi (Grow (Leaf a ?l) sep (Leaf b r))"
      using bwf_put [OF wfs(1) k' _ split(7)] wfs by simp
    have 3: "chained C (xs @ (a, ?l) # (b, r) # ys) (count_item ?new s1)"
    proof (cases ?new)
      case True
      then show ?thesis using split(6) chained_leaf [of C xs a l "(b, r) # ys" s1 "put k v l" "count_item ?new s1"] by (simp add: count_item_def)
    qed (use split(6) in \<open>simp add: count_item_def\<close>)
    have "\<forall>x\<in>set (flat xs). fst x < k" "\<forall>x\<in>set (flat ((b, r) # ys)). k < fst x"
      using ord split(11) left by auto
    then have 4: "put_post k v (entries t) ?new (flat xs @ ?l @ flat ((b, r) # ys))"
      using put_post_mid [of "flat xs" k "flat ((b, r) # ys)" v l] by (simp add: e del: set_concat)
    show ?thesis using that [OF 1] 2 3 4 by simp
  qed
qed

interpretation ins: leaf_op C k "\<lambda>_. insert_leaf C k v" "chained C" "\<lambda>_ _ _. False" "\<lambda>e s ok e' s'. put_post k v e ok e'"
  for C k v
proof (unfold_locales, goal_cases)
  case (5 t s xs a kvs ys lo hi er)
  from 5(1-6) show ?case by (rule insert_leaf_ok [where v = v]) (use 5(7) in auto)
next
  case (6 t s xs a kvs ys lo hi g s')
  then show ?case by (auto simp: insert_leaf_def split: prod.splits if_splits)
next
  case (7 t s xs a kvs ys lo hi ok g s')
  from 7(1-6) show ?case by (rule insert_leaf_ok [where v = v]) (use 7(7) in auto)
qed (auto simp: chained_def)

section \<open>Insertions with a callback\<close>

text \<open>Every \<open>pre_\<close> pointer leads to a leaf of the tree, though not always to the one before.\<close>

definition pre_ok :: "(nat \<times> ('k, 'v) kvs) list \<Rightarrow> 'z tstate_scheme \<Rightarrow> bool" where
  "pre_ok lv s \<longleftrightarrow> (\<forall>a\<in>set (map fst lv). \<forall>p. pre_leaf s a = Some p \<longrightarrow> p \<in> set (map fst lv))"

definition call_post ::
  "('k :: linorder) \<Rightarrow> 'v \<Rightarrow> (('k \<times> 'v) option \<Rightarrow> 'x \<Rightarrow> (bool \<times> 'x) res \<Rightarrow> bool) \<Rightarrow> ('k, 'v) kvs \<Rightarrow> 'x xstate \<Rightarrow> bool \<Rightarrow> ('k, 'v) kvs \<Rightarrow> 'x xstate \<Rightarrow> bool" where
  "call_post k v calls e s ok e' s' \<longleftrightarrow>
     (if k \<in> fst ` set e then \<not> ok \<and> e' = e \<and> rows s' = rows s
      else successor k e \<noteq> None \<and> calls (successor k e) (rows s) (Inr (ok, rows s')) \<and> e' = (if ok then put k v e else e))"

definition call_fails ::
  "('k :: linorder) \<Rightarrow> (('k \<times> 'v) option \<Rightarrow> 'x \<Rightarrow> (bool \<times> 'x) res \<Rightarrow> bool) \<Rightarrow> ('k, 'v) kvs \<Rightarrow> 'x xstate \<Rightarrow> err \<Rightarrow> bool" where
  "call_fails k calls e s er \<longleftrightarrow> k \<notin> fst ` set e \<and>
     (if successor k e = None then er = Check_failed else calls (successor k e) (rows s) (Inl er))"

definition calls2 :: "('k, 'v, 'x) processor \<Rightarrow> ('k \<times> 'v) option \<Rightarrow> 'x \<Rightarrow> (bool \<times> 'x) res \<Rightarrow> bool" where
  "calls2 proc nx x r \<longleftrightarrow> (\<exists>pv. proc pv nx x = r)"

definition calls1 :: "(('k \<times> 'v) option \<Rightarrow> 'x \<Rightarrow> (bool \<times> 'x) res) \<Rightarrow> ('k \<times> 'v) option \<Rightarrow> 'x \<Rightarrow> (bool \<times> 'x) res \<Rightarrow> bool" where
  "calls1 proc nx x r \<longleftrightarrow> proc nx x = r"

lemma prev_at:
  assumes "pre_ok (leaves t) s" "leaves t = xs @ (a, kvs) # ys"
  obtains pv where "prev_tuple t a kvs pos s = Inr pv"
proof (cases "0 < pos")
  case False
  show ?thesis
  proof (cases "pre_leaf s a")
    case (Some p)
    then have "p \<in> set (map fst (leaves t))" using assms by (simp add: pre_ok_def)
    then obtain pk where "map_of (leaves t) p = Some pk" by (metis map_of_eq_None_iff not_None_eq set_map)
    then show ?thesis using that Some False by (simp add: prev_tuple_def peek_def)
  qed (use that False in \<open>simp add: prev_tuple_def\<close>)
qed (use that in \<open>simp add: prev_tuple_def\<close>)

lemma next_at:
  assumes J: "chained C (leaves t) s" and lv: "leaves t = xs @ (a, kvs) # ys"
    and ord: "\<forall>l\<in>set xs. \<forall>x\<in>set (snd l). fst x < k" "\<forall>l\<in>set ys. \<forall>x\<in>set (snd l). k < fst x"
    and wf: "bwf C 0 lo hi (Leaf a kvs)" and new: "k \<notin> fst ` set kvs"
  shows "next_tuple_insert t a kvs (lowerBound (map fst kvs) k) s =
    (case successor k (entries t) of None \<Rightarrow> Inl Check_failed | Some x \<Rightarrow> Inr (Some x))"
proof -
  have srt: "sorted_wrt (<) (map fst kvs)" using wf by simp
  note suc = put_leaf(3) [OF lv ord]
  from srt show ?thesis
  proof (cases rule: leaf_at [where k = k])
    case (found la v lb)
    then show ?thesis using new by simp
  next
    case (missing la lb)
    have "find (\<lambda>x. k < fst x) la = None" using missing(4) by (auto simp: find_None_iff dest: order.asym)
    then have sk: "successor k kvs = hd_opt lb"
      unfolding missing(1) successor_def using missing(5) by (induction la) (cases lb; auto split: if_splits)+
    show ?thesis
    proof (cases lb)
      case (Cons x lc)
      then have "kvs ! length la = x" "length la \<noteq> length kvs" by (simp_all add: missing(1))
      then show ?thesis using missing(2) suc sk Cons by (simp add: next_tuple_insert_def)
    next
      case Nil
      then have pos: "lowerBound (map fst kvs) k = length kvs" using missing(1,2) by simp
      note at = chained_at [OF J lv]
      show ?thesis
      proof (cases ys)
        case Nil
        then show ?thesis using at(1) pos suc sk \<open>lb = []\<close> by (simp add: next_tuple_insert_def check_def)
      next
        case (Cons y zs)
        obtain b nk where y: "y = (b, nk)" by (cases y)
        have "peek t b = Inr nk" "nk \<noteq> []" using at(3) Cons y by auto
        then show ?thesis using at(1) pos suc sk \<open>lb = []\<close> Cons y by (cases nk) (simp_all add: next_tuple_insert_def)
      qed
    qed
  qed
qed

lemma split_restart:
  fixes s :: "'z tstate_scheme"
  assumes J: "chained C (xs @ (a, kvs) # ys) s" and wf: "bwf C 0 lo hi (Leaf a kvs)" and full: "length kvs = leaf_max C"
    and sp: "leaf_split a kvs s = ((l, sep, b, r), s')"
  shows "gwf C 0 lo hi (Grow (Leaf a l) sep (Leaf b r)) \<and> chained C (xs @ gleaves (Grow (Leaf a l) sep (Leaf b r)) @ ys) s' \<and>
    flat (gleaves (Grow (Leaf a l) sep (Leaf b r))) = kvs \<and>
    restep [length kvs = leaf_max C] (Grow (Leaf a l) sep (Leaf b r)) (gpath C k (Grow (Leaf a l) sep (Leaf b r)))"
  using leaf_split_ok [OF assms] full by auto

lemma split_pre_ok:
  assumes "pre_ok (xs @ (a, kvs) # ys) s" "leaf_split a kvs s = ((l, sep, b, r), s')" "chained C (xs @ (a, kvs) # ys) s"
  shows "pre_ok (xs @ (a, l) # (b, r) # ys) s'"
proof -
  have "b \<notin> set (map fst (xs @ (a, kvs) # ys))" using assms(2,3) by (auto simp: chained_def leaf_split_def Let_def)
  moreover have "pre_leaf s' = (pre_leaf s)(b := Some a)" using assms(2) by (auto simp: leaf_split_def Let_def)
  ultimately show ?thesis using assms(1) unfolding pre_ok_def by (auto split: if_splits)
qed

lemma pre_ok_leaf: "pre_ok (xs @ (a, kvs) # ys) s \<Longrightarrow> pre_leaf s' = pre_leaf s \<Longrightarrow> pre_ok (xs @ (a, kvs') # ys) s'"
  by (simp add: pre_ok_def)

text \<open>At a leaf with room: the key is there, or the callback decides.\<close>

lemma room_put:
  fixes s :: "'z tstate_scheme"
  assumes J: "chained C (leaves t) s" and lv: "leaves t = xs @ (a, kvs) # ys"
    and ord: "\<forall>l\<in>set xs. \<forall>x\<in>set (snd l). fst x < k" "\<forall>l\<in>set ys. \<forall>x\<in>set (snd l). k < fst x"
    and wf: "bwf C 0 lo hi (Leaf a kvs)" and k: "inside lo hi k" and room: "length kvs \<noteq> leaf_max C" and new: "k \<notin> fst ` set kvs"
    and s': "next_leaf s' = next_leaf s" "fresh s' = fresh s" "leaf_nodes s' = leaf_nodes s" "num_items s' = num_items s"
  shows "leaf_insert kvs k v = (True, put k v kvs)" "bwf C 0 lo hi (Leaf a (put k v kvs))"
    "chained C (xs @ (a, put k v kvs) # ys) (count_item True s')" "flat (xs @ (a, put k v kvs) # ys) = put k v (entries t)"
proof -
  show "leaf_insert kvs k v = (True, put k v kvs)" using leaf_insert_eq [of kvs k v] wf new by simp
  show "bwf C 0 lo hi (Leaf a (put k v kvs))" using bwf_put [OF wf k new] wf room by simp
  show "chained C (xs @ (a, put k v kvs) # ys) (count_item True s')"
    using J unfolding lv by (rule chained_leaf) (simp_all add: count_item_def s')
  show "flat (xs @ (a, put k v kvs) # ys) = put k v (entries t)"
    using put_leaf(2) [OF lv ord] by simp
qed

lemma present_iff:
  assumes "bwf C 0 lo hi (Leaf a kvs)"
  shows "lowerBound (map fst kvs) k < length kvs \<and> fst (kvs ! lowerBound (map fst kvs) k) = k \<longleftrightarrow> k \<in> fst ` set kvs"
proof -
  have "sorted_wrt (<) (map fst kvs)" using assms by simp
  then show ?thesis
  proof (cases rule: leaf_at [where k = k])
    case (found la v lb)
    moreover have "kvs ! length la = (k, v)" "length la < length kvs" "k \<in> fst ` set kvs" by (simp_all add: found(1))
    ultimately show ?thesis by simp
  next
    case (missing la lb)
    then show ?thesis by (auto simp: map_of_eq_None_iff)
  qed
qed

lemma rows_eq: "rows s' = rows s \<Longrightarrow> call_post k v calls e s' ok e' s'' \<longleftrightarrow> call_post k v calls e s ok e' s''"
  "rows s' = rows s \<Longrightarrow> call_fails k calls e s' er \<longleftrightarrow> call_fails k calls e s er"
  by (simp_all add: call_post_def call_fails_def split: if_split)

lemma leaf_split_rows: "leaf_split a kvs s = (x, s') \<Longrightarrow> rows s' = rows s"
  by (auto simp: leaf_split_def Let_def)

lemma lock_next_leaf_ok:
  assumes J: "chained C (leaves t) s" and lv: "leaves t = xs @ (a, kvs) # ys"
    and ord: "\<forall>l\<in>set xs. \<forall>x\<in>set (snd l). fst x < k" "\<forall>l\<in>set ys. \<forall>x\<in>set (snd l). k < fst x"
    and wf: "bwf C 0 lo hi (Leaf a kvs)" and k: "inside lo hi k"
  shows "lock_next_leaf C k v proc t a kvs s = Inl er \<Longrightarrow> call_fails k (calls1 proc) (entries t) s er"
    "lock_next_leaf C k v proc t a kvs s = Inr (Done ok, g, s') \<Longrightarrow>
       gwf C 0 lo hi g \<and> chained C (xs @ gleaves g @ ys) s' \<and> (pre_ok (leaves t) s \<longrightarrow> pre_ok (xs @ gleaves g @ ys) s') \<and>
       call_post k v (calls1 proc) (entries t) s ok (flat (xs @ gleaves g @ ys)) s'"
proof -
  note nt = next_at [OF J lv ord wf] and here = put_leaf(1) [OF lv ord]
  show "call_fails k (calls1 proc) (entries t) s er" if L: "lock_next_leaf C k v proc t a kvs s = Inl er"
  proof -
    have new: "k \<notin> fst ` set kvs" and room: "length kvs \<noteq> leaf_max C"
      using L present_iff [OF wf] by (auto simp: lock_next_leaf_def Let_def split: prod.splits if_splits)
    note p = room_put(1) [OF J lv ord wf k room new refl refl refl refl, of v]
    show ?thesis
      using L room new present_iff [OF wf, of k] here nt [OF new] p
      by (auto simp: lock_next_leaf_def Let_def call_fails_def calls1_def split: option.splits if_splits)
        (auto simp: bind_res_def check_def split: sum.splits prod.splits if_splits)
  qed
  show "gwf C 0 lo hi g \<and> chained C (xs @ gleaves g @ ys) s' \<and> (pre_ok (leaves t) s \<longrightarrow> pre_ok (xs @ gleaves g @ ys) s') \<and>
       call_post k v (calls1 proc) (entries t) s ok (flat (xs @ gleaves g @ ys)) s'"
    if L: "lock_next_leaf C k v proc t a kvs s = Inr (Done ok, g, s')"
  proof -
    have room: "length kvs \<noteq> leaf_max C" using L by (auto simp: lock_next_leaf_def split: prod.splits)
    show ?thesis
    proof (cases "k \<in> fst ` set kvs")
      case True
      then show ?thesis
        using L room present_iff [OF wf, of k] here wf J lv by (auto simp: lock_next_leaf_def Let_def call_post_def entries_def)
    next
      case False
      then obtain nx x where c: "successor k (entries t) = Some nx" "proc (Some nx) (rows s) = Inr (ok, x)"
        "g = Keep (Leaf a (if ok then put k v kvs else kvs))"
        "s' = (if ok then count_item True (s\<lparr>rows := x\<rparr>) else s\<lparr>rows := x\<rparr>)"
        using L room present_iff [OF wf, of k] nt leaf_insert_eq [of kvs k v] wf
        by (auto simp: lock_next_leaf_def Let_def res_iffs split: option.splits if_splits)
      note p = room_put [OF J lv ord wf k room False, of "s\<lparr>rows := x\<rparr>" v]
      have "chained C (leaves t) (s\<lparr>rows := x\<rparr>)" using J by (simp add: chained_def)
      moreover have "pre_ok (leaves t) s \<longrightarrow> pre_ok (xs @ gleaves g @ ys) s'"
        using pre_ok_leaf [of xs a kvs ys s s'] lv c(3,4) by (auto simp: count_item_def)
      ultimately show ?thesis
        using c(1,2) p wf lv False here by (auto simp: c(3,4) call_post_def calls1_def entries_def count_item_def)
    qed
  qed
qed

lemma lock_next_leaf_restart:
  assumes J: "chained C (leaves t) s" and lv: "leaves t = xs @ (a, kvs) # ys" and wf: "bwf C 0 lo hi (Leaf a kvs)"
    and L: "lock_next_leaf C k v proc t a kvs s = Inr (Restart, g, s')"
  shows "gwf C 0 lo hi g \<and> chained C (xs @ gleaves g @ ys) s' \<and> flat (gleaves g) = kvs \<and>
    restep [length kvs = leaf_max C] g (gpath C k g) \<and> rows s' = rows s \<and> (pre_ok (leaves t) s \<longrightarrow> pre_ok (xs @ gleaves g @ ys) s')"
proof -
  have full: "length kvs = leaf_max C"
    using L by (auto simp: lock_next_leaf_def Let_def res_iffs split: if_splits prod.splits)
  then obtain l sep b r where sp: "leaf_split a kvs s = ((l, sep, b, r), s')" "g = Grow (Leaf a l) sep (Leaf b r)"
    using L by (auto simp: lock_next_leaf_def split: prod.splits)
  show ?thesis
    using split_restart [OF J [unfolded lv] wf full sp(1), of k] split_pre_ok [OF _ sp(1) J [unfolded lv]] leaf_split_rows [OF sp(1)]
    by (simp add: sp(2) lv)
qed

lemma process_leaf_prev:
  assumes "pre_ok (leaves t) s" "leaves t = xs @ (a, kvs) # ys"
  obtains pv where "process_leaf C k v proc t a kvs s = lock_next_leaf C k v (proc pv) t a kvs s"
proof -
  obtain pv where "prev_tuple t a kvs (lowerBound (map fst kvs) k) s = Inr pv" using prev_at [OF assms] .
  then have "process_leaf C k v proc t a kvs s = lock_next_leaf C k v (proc pv) t a kvs s"
    by (simp add: process_leaf_def lock_next_leaf_def Let_def)
  then show ?thesis by (rule that)
qed

lemma calls_prev:
  "call_post k v (calls1 (proc pv)) e s ok e' s' \<Longrightarrow> call_post k v (calls2 proc) e s ok e' s'"
  "call_fails k (calls1 (proc pv)) e s er \<Longrightarrow> call_fails k (calls2 proc) e s er"
  by (auto simp: call_post_def call_fails_def calls1_def calls2_def split: if_splits)

interpretation lnk: leaf_op C k "lock_next_leaf C k v proc" "chained C" "call_fails k (calls1 proc)" "call_post k v (calls1 proc)"
  for C k v proc
proof (unfold_locales, goal_cases)
  case (5 t s xs a kvs ys lo hi er)
  then show ?case by (rule lock_next_leaf_ok(1))
next
  case (6 t s xs a kvs ys lo hi g s')
  note r = lock_next_leaf_restart [OF 6(1,2,3,5)]
  then have "rows s' = rows s" by blast
  then show ?case using r by (simp add: rows_eq [of s' s])
next
  case (7 t s xs a kvs ys lo hi ok g s')
  then show ?case using lock_next_leaf_ok(2) [OF 7] by simp
qed (auto simp: chained_def call_post_def call_fails_def split: if_splits)

interpretation pat: leaf_op C k "process_leaf C k v proc" "\<lambda>lv s. chained C lv s \<and> pre_ok lv s"
  "call_fails k (calls2 proc)" "call_post k v (calls2 proc)" for C k v proc
proof (unfold_locales, goal_cases)
  case (5 t s xs a kvs ys lo hi er)
  from process_leaf_prev [OF conjunct2 [OF 5(1)] 5(2)] obtain pv where
    "process_leaf C k v proc t a kvs s = lock_next_leaf C k v (proc pv) t a kvs s" .
  then show ?case using lock_next_leaf_ok(1) [OF conjunct1 [OF 5(1)] 5(2-6)] 5(7) calls_prev(2) by metis
next
  case (6 t s xs a kvs ys lo hi g s')
  from process_leaf_prev [OF conjunct2 [OF 6(1)] 6(2)] obtain pv where
    "process_leaf C k v proc t a kvs s = lock_next_leaf C k v (proc pv) t a kvs s" .
  then have "lock_next_leaf C k v (proc pv) t a kvs s = Inr (Restart, g, s')" using 6(5) by simp
  note r = lock_next_leaf_restart [OF conjunct1 [OF 6(1)] 6(2,3) this]
  then have "rows s' = rows s" by blast
  then show ?case using r 6(1) by (simp add: rows_eq [of s' s])
next
  case (7 t s xs a kvs ys lo hi ok g s')
  from process_leaf_prev [OF conjunct2 [OF 7(1)] 7(2)] obtain pv where
    "process_leaf C k v proc t a kvs s = lock_next_leaf C k v (proc pv) t a kvs s" .
  then have "lock_next_leaf C k v (proc pv) t a kvs s = Inr (Done ok, g, s')" using 7(7) by simp
  from lock_next_leaf_ok(2) [OF conjunct1 [OF 7(1)] 7(2-6) this] show ?case using 7(1) calls_prev(1) by metis
qed (auto simp: chained_def pre_ok_def call_post_def call_fails_def split: if_splits)

end
