(* ===== verification/BTreeRemove.thy ===== *)
theory BTreeRemove
  imports BTreeInsert
begin

text \<open>
  Removal from the B+-tree. A node that the recursion hands up may have lost its last key; borrowing
  from or merging with a sibling repairs it, and the root is replaced by its only child.
\<close>

section \<open>Nodes on the way up\<close>

definition filled :: "('k, 'v) bt \<Rightarrow> bool" where
  "filled t \<longleftrightarrow> (\<forall>l\<in>set (leaves t). snd l \<noteq> [])"

fun inner_filled :: "('k, 'v) bt \<Rightarrow> bool" where
  "inner_filled (Leaf a kvs) \<longleftrightarrow> True"
| "inner_filled (Inner ks cs) \<longleftrightarrow> filled (Inner ks cs)"

fun proper :: "('k, 'v) bt \<Rightarrow> bool" where
  "proper (Leaf a kvs) \<longleftrightarrow> True"
| "proper (Inner ks cs) \<longleftrightarrow> ks \<noteq> []"

primrec almost :: "caps \<Rightarrow> nat \<Rightarrow> ('k :: linorder) option \<Rightarrow> 'k option \<Rightarrow> ('k, 'v) bt \<Rightarrow> bool" where
  "almost C 0 lo hi t \<longleftrightarrow> bwf C 0 lo hi t"
| "almost C (Suc h) lo hi t \<longleftrightarrow> (case t of
     Leaf a kvs \<Rightarrow> False
   | Inner ks cs \<Rightarrow> length ks < inner_max C \<and> kids (bwf C h) lo hi ks cs)"

lemma bwf_iff: "bwf C h lo hi t \<longleftrightarrow> almost C h lo hi t \<and> proper t"
  by (cases h) (auto split: bt.splits)

lemma kids_conj: "kids (\<lambda>lo hi c. P lo hi c \<and> Q c) lo hi ks cs \<longleftrightarrow> kids P lo hi ks cs \<and> (\<forall>c\<in>set cs. Q c)"
  by (induction P lo hi ks cs rule: kids.induct) auto

lemma kids_bwf: "kids (bwf C h) lo hi ks cs \<longleftrightarrow> kids (almost C h) lo hi ks cs \<and> (\<forall>c\<in>set cs. proper c)"
  using kids_conj [of "almost C h" proper lo hi ks cs] by (simp add: bwf_iff [abs_def])

lemma filled_Inner [simp]: "filled (Inner ks cs) \<longleftrightarrow> (\<forall>c\<in>set cs. filled c)"
  by (auto simp: filled_def)

lemma filled_Leaf [simp]: "filled (Leaf a kvs) \<longleftrightarrow> kvs \<noteq> []"
  by (simp add: filled_def)

lemma filled_inner: "filled t \<Longrightarrow> inner_filled t"
  by (cases t) simp_all

section \<open>Moving the bounds of a subtree\<close>

lemma kids_lower:
  assumes "kids P lo hi ks cs" "\<And>k. above lo k \<Longrightarrow> above lo' k" "\<And>hi c. P lo hi c \<Longrightarrow> P lo' hi c"
  shows "kids P lo' hi ks cs"
  using assms by (cases "(P, lo, hi, ks, cs)" rule: kids.cases) (auto simp: between_def inside_def)

lemma bwf_lower:
  "bwf C h lo hi t \<Longrightarrow> (\<And>k. above lo k \<Longrightarrow> above lo' k) \<Longrightarrow> bwf C h lo' hi t"
proof (induction h arbitrary: hi t)
  case 0
  then show ?case by (auto simp: inside_def split: bt.splits)
next
  case (Suc h)
  then show ?case by (auto split: bt.splits intro: kids_lower)
qed

lemma lctx_above: "lctx P lo hi ks ca \<Longrightarrow> above (lastb lo ks) m \<Longrightarrow> above lo m"
proof (induction P lo hi ks ca rule: lctx.induct)
  case (2 P lo hi k ks c cs)
  then have "above (Some k) m" "above lo k" by (auto simp: between_def inside_def)
  then show ?case by (cases lo) auto
qed auto

lemma lctx_upper: "lctx P lo hi ks ca \<Longrightarrow> above (lastb lo ks) m \<Longrightarrow> lctx P lo (Some m) ks ca"
proof (induction P lo hi ks ca rule: lctx.induct)
  case (2 P lo hi k ks c cs)
  then have "k < m" using lctx_above [of P "Some k" hi ks cs m] by auto
  then show ?case using 2 by (auto simp: between_def inside_def)
qed auto

text \<open>The largest key of a filled subtree, which may serve as its upper bound.\<close>

lemma kids_max_key:
  fixes cs :: "('k :: linorder, 'v) bt list"
  assumes "kids (bwf C h) lo hi ks cs" "\<forall>c\<in>set cs. filled c"
    and "\<And>lo hi. \<And>c :: ('k, 'v) bt. bwf C h lo hi c \<Longrightarrow> filled c \<Longrightarrow> \<exists>m. getSubTreeMaxKey c = Inr m \<and> bwf C h lo (Some m) c \<and> inside lo hi m"
  shows "\<exists>m. getSubTreeMaxKey (Inner ks cs) = Inr m \<and> kids (bwf C h) lo (Some m) ks cs \<and> inside lo hi m"
proof -
  have len: "length cs = Suc (length ks)" using kids_length [OF assms(1)] .
  then obtain ca c where cs: "cs = ca @ [c]" "length ca = length ks" by (metis append_eq_conv_conj length_Suc_conv_rev)
  have k: "lctx (bwf C h) lo hi ks ca" "bwf C h (lastb lo ks) hi c"
    using assms(1) kids_left [OF cs(2), of "bwf C h" lo hi "[]" "[c]"] by (simp_all add: cs(1))
  from assms(3) [OF k(2)] assms(2) obtain m
    where m: "getSubTreeMaxKey c = Inr m" "bwf C h (lastb lo ks) (Some m) c" "inside (lastb lo ks) hi m" by (auto simp: cs(1))
  have "above (lastb lo ks) m" "below hi m" using m(3) by (auto simp: inside_def)
  then have "lctx (bwf C h) lo (Some m) ks ca" "inside lo hi m"
    using lctx_upper [OF k(1)] lctx_above [OF k(1)] by (auto simp: inside_def)
  then show ?thesis
    using m(1,2) cs kids_left [OF cs(2), of "bwf C h" lo "Some m" "[]" "[c]"] by (auto simp: nth_append)
qed

lemma max_key:
  "bwf C h lo hi t \<Longrightarrow> filled t \<Longrightarrow> \<exists>m. getSubTreeMaxKey t = Inr m \<and> bwf C h lo (Some m) t \<and> inside lo hi m"
proof (induction h arbitrary: lo hi t)
  case 0
  then obtain a kvs where t: "t = Leaf a kvs" "kvs \<noteq> []" by (auto split: bt.splits)
  then obtain kvs' x where k: "kvs = kvs' @ [x]" by (metis append_butlast_last_id)
  show ?case using 0 t(1) k by (intro exI [of _ "fst x"]) (auto simp: sorted_wrt_append inside_def)
next
  case (Suc h)
  then obtain ks cs where t: "t = Inner ks cs" "ks \<noteq> []" "length ks < inner_max C" "kids (bwf C h) lo hi ks cs" by (auto split: bt.splits)
  from kids_max_key [OF t(4) _ Suc.IH] Suc.prems(2) t show ?case by auto
qed

section \<open>Borrowing and merging\<close>

definition chain0 :: "caps \<Rightarrow> (nat \<times> ('k, 'v) kvs) list \<Rightarrow> 'z tstate_scheme \<Rightarrow> bool" where
  "chain0 C lv s \<longleftrightarrow> caps_ok C \<and> distinct (map fst lv) \<and> (\<forall>a\<in>set (map fst lv). a < fresh s) \<and>
     links (next_leaf s) (map fst lv) None \<and> leaf_nodes s = of_nat (length lv) \<and> num_items s = of_nat (length (flat lv))"

lemma chained_chain0: "chained C lv s \<longleftrightarrow> chain0 C lv s \<and> (length lv = 1 \<or> (\<forall>l\<in>set lv. snd l \<noteq> []))"
  by (auto simp: chained_def chain0_def)

text \<open>The same leaves with the same contents, cut in other places.\<close>

definition regroup :: "(nat \<times> ('k, 'v) kvs) list \<Rightarrow> (nat \<times> ('k, 'v) kvs) list \<Rightarrow> bool" where
  "regroup lv lv' \<longleftrightarrow> map fst lv' = map fst lv \<and> flat lv' = flat lv"

lemma regroup_chain0: "regroup lv lv' \<Longrightarrow> chain0 C (X @ lv @ Y) s \<Longrightarrow> chain0 C (X @ lv' @ Y) s"
proof -
  assume r: "regroup lv lv'"
  have "map fst (X @ lv' @ Y) = map fst (X @ lv @ Y)" "flat (X @ lv' @ Y) = flat (X @ lv @ Y)" using r by (simp_all add: regroup_def)
  moreover have "length (X @ lv' @ Y) = length (X @ lv @ Y)" using r by (metis calculation(1) length_map)
  moreover assume "chain0 C (X @ lv @ Y) s"
  ultimately show ?thesis unfolding chain0_def by (simp del: map_append concat_append length_append)
qed

lemma surplus_count:
  assumes "0 < getSurplus M n" "3 \<le> M"
  shows "2 \<le> n" "9 \<le> M \<Longrightarrow> 3 \<le> n"
  using assms by (auto simp: getSurplus_def)

lemma borrow_from_right_ok:
  assumes C: "caps_ok C" and l: "almost C h lo (Some sep) l" and r: "bwf C h (Some sep) hi r" and sep: "between lo hi sep"
    and full: "inner_filled l" "filled r" and n: "node_needMerge C l" "0 < node_surplus C r"
  shows "\<exists>l' sep' r'. borrow_from_right l sep r = Inr (l', sep', r') \<and> bwf C h lo (Some sep') l' \<and> bwf C h (Some sep') hi r' \<and>
    between lo hi sep' \<and> regroup (leaves l @ leaves r) (leaves l' @ leaves r') \<and> filled l' \<and> filled r'"
proof (cases h)
  case 0
  then obtain a ka b kb where lr: "l = Leaf a ka" "r = Leaf b kb" using l r by (auto split: bt.splits)
  have "2 \<le> length kb" using n(2) C surplus_count(1) [of "leaf_max C" "length kb"] by (simp add: lr caps_ok_def)
  then obtain x y kb' where kb: "kb = x # y # kb'" by (cases kb; cases "tl kb") auto
  have "5 * length ka \<le> 2 * leaf_max C" "3 \<le> leaf_max C" using n(1) C by (simp_all add: lr needMerge_def caps_ok_def)
  then have len: "Suc (length ka) \<le> leaf_max C" by linarith
  have L: "sorted_wrt (<) (map fst ka)" "\<forall>z\<in>set ka. inside lo (Some sep) (fst z)" using l 0 lr by auto
  have R: "sorted_wrt (<) (map fst kb)" "\<forall>z\<in>set kb. inside (Some sep) hi (fst z)" "length kb \<le> leaf_max C" using r 0 lr by auto
  have x: "sep < fst x" "below hi (fst x)" "fst x < fst y" "below hi (fst y)" "above lo sep"
    using R kb sep by (auto simp: inside_def between_def)
  have "above lo (fst x)" using x(1,5) by (cases lo) auto
  then have "between lo hi (fst x)" using x by (cases hi) (auto simp: between_def inside_def)
  moreover have "bwf C 0 lo (Some (fst x)) (Leaf a (ka @ [x]))"
    using L x(1) \<open>above lo (fst x)\<close> len by (fastforce simp: sorted_wrt_append inside_def)
  moreover have "bwf C 0 (Some (fst x)) hi (Leaf b (y # kb'))" using R kb by (auto simp: inside_def)
  ultimately show ?thesis using 0 lr kb by (simp add: regroup_def)
next
  case (Suc h')
  then obtain ka ca kb cb where lr: "l = Inner ka ca" "r = Inner kb cb" using l r by (auto split: bt.splits)
  have len3: "3 \<le> length kb" using n(2) C surplus_count(2) [of "inner_max C" "length kb"] by (simp add: lr caps_ok_def)
  then obtain k kb' where kb1: "kb = k # kb'" by (cases kb) auto
  then have kb: "kb = k # kb'" "kb' \<noteq> []" using len3 by auto
  have L: "kids (bwf C h') lo (Some sep) ka ca" using l Suc lr by simp
  have R: "kids (bwf C h') (Some sep) hi kb cb" "length kb < inner_max C" using r Suc lr by simp_all
  then obtain c cb' where cb: "cb = c # cb'" using kids_length [OF R(1)] by (cases cb) auto
  have k: "between (Some sep) hi k" "bwf C h' (Some sep) (Some k) c" "kids (bwf C h') (Some k) hi kb' cb'" using R(1) kb cb by simp_all
  have "5 * length ka \<le> 2 * inner_max C" "9 \<le> inner_max C" using n(1) C by (simp_all add: lr needMerge_def caps_ok_def)
  then have len: "Suc (length ka) < inner_max C" by linarith
  have bk: "between lo hi k" "between lo (Some k) sep" using k(1) sep by (cases lo; cases hi; auto simp: between_def inside_def)+
  have "kids (bwf C h') lo (Some k) (ka @ sep # []) (ca @ [c])"
    using L k(2) bk(2) kids_cut [OF kids_length [OF L], of "bwf C h'" lo "Some k" sep "[]" "[c]"] by simp
  then show ?thesis using Suc lr kb cb k(3) bk(1) len R(2) full by (auto simp: regroup_def)
qed

lemma borrow_from_left_ok:
  assumes C: "caps_ok C" and l: "bwf C h lo (Some sep) l" and r: "almost C h (Some sep) hi r" and sep: "between lo hi sep"
    and full: "filled l" "inner_filled r" and n: "0 < node_surplus C l" "node_needMerge C r"
  shows "\<exists>l' sep' r'. borrow_from_left l sep r = Inr (l', sep', r') \<and> bwf C h lo (Some sep') l' \<and> bwf C h (Some sep') hi r' \<and>
    between lo hi sep' \<and> regroup (leaves l @ leaves r) (leaves l' @ leaves r') \<and> filled l' \<and> filled r'"
proof (cases h)
  case 0
  then obtain a ka b kb where lr: "l = Leaf a ka" "r = Leaf b kb" using l r by (auto split: bt.splits)
  have len2: "2 \<le> length ka" using n(1) C surplus_count(1) [of "leaf_max C" "length ka"] by (simp add: lr caps_ok_def)
  then obtain ka' x where ka1: "ka = ka' @ [x]" by (cases ka rule: rev_cases) auto
  then obtain ka'' y where ka': "ka' = ka'' @ [y]" using len2 by (cases ka' rule: rev_cases) auto
  have "5 * length kb \<le> 2 * leaf_max C" "3 \<le> leaf_max C" using n(2) C by (simp_all add: lr needMerge_def caps_ok_def)
  then have len: "Suc (length kb) \<le> leaf_max C" by linarith
  have L: "sorted_wrt (<) (map fst ka)" "\<forall>z\<in>set ka. inside lo (Some sep) (fst z)" "length ka \<le> leaf_max C" using l 0 lr by auto
  have R: "sorted_wrt (<) (map fst kb)" "\<forall>z\<in>set kb. inside (Some sep) hi (fst z)" using r 0 lr by auto
  have x: "fst y < fst x" "fst x \<le> sep" "above lo (fst y)" "below hi sep" "hi \<noteq> Some sep"
    using L sep by (auto simp: ka1 ka' sorted_wrt_append inside_def between_def)
  have "between lo hi (fst y)" using x by (cases hi) (auto simp: between_def inside_def)
  moreover have "bwf C 0 lo (Some (fst y)) (Leaf a ka')"
    using L by (auto simp: ka1 ka' sorted_wrt_append inside_def)
  moreover have "bwf C 0 (Some (fst y)) hi (Leaf b (x # kb))"
    using R x len by (cases hi) (fastforce simp: inside_def)+
  ultimately show ?thesis using 0 lr by (simp add: ka1 ka' regroup_def butlast_append)
next
  case (Suc h')
  then obtain ka ca kb cb where lr: "l = Inner ka ca" "r = Inner kb cb" using l r by (auto split: bt.splits)
  have len3: "3 \<le> length ka" using n(1) C surplus_count(2) [of "inner_max C" "length ka"] by (simp add: lr caps_ok_def)
  then obtain ka' k where ka1: "ka = ka' @ [k]" by (cases ka rule: rev_cases) auto
  then have ne: "ka' \<noteq> []" using len3 by auto
  have L: "kids (bwf C h') lo (Some sep) ka ca" "length ka < inner_max C" using l Suc lr by simp_all
  have R: "kids (bwf C h') (Some sep) hi kb cb" using r Suc lr by simp
  have lenc: "length ca = Suc (length ka)" using kids_length [OF L(1)] .
  then obtain ca' c where ca: "ca = ca' @ [c]" "length ca' = Suc (length ka')" by (cases ca rule: rev_cases) (auto simp: ka1)
  have k: "kids (bwf C h') lo (Some k) ka' ca'" "between lo (Some sep) k" "bwf C h' (Some k) (Some sep) c"
    using L(1) kids_cut [OF ca(2), of "bwf C h'" lo "Some sep" k "[]" "[c]"] by (simp_all add: ka1 ca)
  have "5 * length kb \<le> 2 * inner_max C" "9 \<le> inner_max C" using n(2) C by (simp_all add: lr needMerge_def caps_ok_def)
  then have len: "Suc (length kb) < inner_max C" by linarith
  have bk: "between lo hi k" "between (Some k) hi sep" using k(2) sep by (cases lo; cases hi; auto simp: between_def inside_def)+
  show ?thesis using Suc lr ca k bk len R L(2) full ne by (auto simp: ka1 regroup_def)
qed

lemma merge_nodes_ok:
  fixes l r :: "('k :: linorder, 'v) bt" and s :: "'z tstate_scheme"
  assumes C: "caps_ok C" and l: "almost C h lo (Some sep) l" and r: "almost C h (Some sep) hi r" and sep: "between lo hi sep"
    and full: "inner_filled l" "inner_filled r" "filled l \<or> filled r" and n: "hasEnoughSpace C l (nodeCount r)"
  shows "\<exists>m s'. merge_nodes l r s = Inr (m, s') \<and> bwf C h lo hi m \<and> filled m \<and> flat (leaves m) = flat (leaves l @ leaves r) \<and>
    tstate.more s' = tstate.more s \<and> (\<forall>X Y. chain0 C (X @ leaves l @ leaves r @ Y) s \<longrightarrow> chain0 C (X @ leaves m @ Y) s')"
proof (cases h)
  case 0
  then obtain a ka b kb where lr: "l = Leaf a ka" "r = Leaf b kb" using l r by (auto split: bt.splits)
  have L: "sorted_wrt (<) (map fst ka)" "\<forall>z\<in>set ka. inside lo (Some sep) (fst z)" using l 0 lr by auto
  have R: "sorted_wrt (<) (map fst kb)" "\<forall>z\<in>set kb. inside (Some sep) hi (fst z)" using r 0 lr by auto
  have ins: "inside lo hi sep" using sep by (simp add: between_def)
  have "\<forall>x\<in>set ka. \<forall>y\<in>set kb. fst x < fst y" using L(2) R(2) by (fastforce simp: inside_def)
  then have "bwf C 0 lo hi (Leaf a (ka @ kb))"
    using L R n lr inside_trans(1) [OF _ ins] inside_trans(2) [OF _ ins] by (auto simp: sorted_wrt_append)
  moreover have "chain0 C (X @ [(a, ka @ kb)] @ Y) (leaf_merge a b s)" if "chain0 C (X @ [(a, ka), (b, kb)] @ Y) s" for X Y
    using that by (auto simp: chain0_def leaf_merge_def Let_def split: option.splits)
  moreover have "tstate.more (leaf_merge a b s) = tstate.more s" by (simp add: leaf_merge_def Let_def split: option.split)
  ultimately show ?thesis using 0 lr full(3) by simp
next
  case (Suc h')
  then obtain ka ca kb cb where lr: "l = Inner ka ca" "r = Inner kb cb" using l r by (auto split: bt.splits)
  have L: "kids (bwf C h') lo (Some sep) ka ca" and R: "kids (bwf C h') (Some sep) hi kb cb" using l r Suc lr by simp_all
  from kids_max_key [OF L _ max_key] full(1) obtain m
    where m: "getSubTreeMaxKey (Inner ka ca) = Inr m" "kids (bwf C h') lo (Some m) ka ca" "inside lo (Some sep) m" by (auto simp: lr)
  have "m \<le> sep" using m(3) by (simp add: inside_def)
  then have up: "above (Some sep) k \<Longrightarrow> above (Some m) k" for k by simp
  have "kids (bwf C h') (Some m) hi kb cb"
    using R by (rule kids_lower) (auto intro: up bwf_lower [OF _ up] simp del: above.simps)
  moreover have "between lo hi m" using m(3) sep by (cases lo; cases hi; auto simp: between_def inside_def)
  ultimately have "kids (bwf C h') lo hi (ka @ m # kb) (ca @ cb)"
    using m(2) kids_cut [OF kids_length [OF L]] by blast
  moreover have "merge_nodes l r s = Inr (Inner (ka @ m # kb) (ca @ cb), s\<lparr>inner_nodes := inner_nodes s - 1\<rparr>)"
    using m(1) by (simp add: lr del: getSubTreeMaxKey.simps)
  moreover have "length (ka @ m # kb) < inner_max C" "\<forall>c\<in>set (ca @ cb). filled c" using n full(1,2) by (auto simp: lr)
  ultimately show ?thesis
    by (intro exI [of _ "Inner (ka @ m # kb) (ca @ cb)"] exI [of _ "s\<lparr>inner_nodes := inner_nodes s - 1\<rparr>"]) (simp add: Suc lr chain0_def)
qed

section \<open>One level of EraseMerge\<close>

lemma counts_fit:
  assumes "needMerge M m" "getSurplus M n \<le> 0"
  shows "m + n \<le> M" "9 \<le> M \<Longrightarrow> m + n + 1 < M"
proof -
  have m: "5 * m \<le> 2 * M" and n: "5 * n \<le> 2 * M + 4" using assms by (auto simp: needMerge_def getSurplus_def)
  then show "m + n \<le> M" by linarith
  show "m + n + 1 < M" if "9 \<le> M"
  proof (cases "M = 9")
    case True
    then have "m \<le> 3" "n \<le> 4" using m n by auto
    then show ?thesis using True by simp
  qed (use m n that in linarith)
qed

lemma siblings_fit:
  assumes "caps_ok C" "node_needMerge C c" "node_surplus C d \<le> 0" "almost C h lo hi c" "almost C h lo' hi' d"
  shows "hasEnoughSpace C d (nodeCount c) \<and> hasEnoughSpace C c (nodeCount d)"
proof (cases h)
  case 0
  then obtain a ka b kb where "c = Leaf a ka" "d = Leaf b kb" using assms(4,5) by (auto split: bt.splits)
  then show ?thesis using assms(2,3) counts_fit(1) [of "leaf_max C" "length ka" "length kb"] by (simp add: add.commute)
next
  case (Suc h')
  then obtain ka ca kb cb where "c = Inner ka ca" "d = Inner kb cb" using assms(4,5) by (auto split: bt.splits)
  then show ?thesis
    using assms(1-3) counts_fit(2) [of "inner_max C" "length ka" "length kb"] by (simp add: add.commute caps_ok_def)
qed

text \<open>Two neighbours are replaced by two others or by one.\<close>

lemma pair_at:
  assumes "length cs = Suc (length ks)" "j < length ks"
  obtains ka kb ca cb where "ks = ka @ ks ! j # kb" "cs = ca @ cs ! j # cs ! Suc j # cb" "length ka = j" "length ca = j"
proof
  show "ks = take j ks @ ks ! j # drop (Suc j) ks" using assms by (simp add: id_take_nth_drop [symmetric])
  show "cs = take j cs @ cs ! j # cs ! Suc j # drop (Suc (Suc j)) cs"
    using assms by (simp add: id_take_nth_drop [symmetric] Cons_nth_drop_Suc)
qed (use assms in simp_all)

lemma pair_replace:
  assumes "kids (almost C h) lo hi (ka @ sep # kb) (ca @ l # r # cb)" "length ca = length ka" "\<forall>c\<in>set (ca @ cb). proper c"
  shows "almost C h (lastb lo ka) (Some sep) l" "almost C h (Some sep) (hib hi kb) r" "between (lastb lo ka) (hib hi kb) sep"
    "length cs' = Suc (length ks') \<Longrightarrow> kids (bwf C h) (lastb lo ka) (hib hi kb) ks' cs' \<Longrightarrow> kids (bwf C h) lo hi (ka @ ks' @ kb) (ca @ cs' @ cb)"
proof -
  have f: "lctx (almost C h) lo hi ka ca" "kids (almost C h) (lastb lo ka) (hib hi kb) [sep] [l, r]" "rctx (almost C h) (lastb lo ka) hi kb cb"
    using assms(1) kids_focus [OF assms(2), of "[l, r]" "[sep]" "almost C h" lo hi kb cb] by simp_all
  show "almost C h (lastb lo ka) (Some sep) l" "almost C h (Some sep) (hib hi kb) r" "between (lastb lo ka) (hib hi kb) sep"
    using f(2) by simp_all
  show "kids (bwf C h) lo hi (ka @ ks' @ kb) (ca @ cs' @ cb)"
    if "length cs' = Suc (length ks')" "kids (bwf C h) (lastb lo ka) (hib hi kb) ks' cs'"
    using kids_focus [OF assms(2) that(1), of "almost C h" lo hi kb cb] that(2) f assms(3) by (simp add: kids_bwf ball_Un)
qed

definition repaired ::
  "caps \<Rightarrow> nat \<Rightarrow> ('k :: linorder) option \<Rightarrow> 'k option \<Rightarrow> ('k, 'v) bt list \<Rightarrow> 'z tstate_scheme \<Rightarrow>
     'k list \<Rightarrow> ('k, 'v) bt list \<Rightarrow> 'z tstate_scheme \<Rightarrow> bool" where
  "repaired C h lo hi cs s ks' cs' s' \<longleftrightarrow>
     kids (bwf C h) lo hi ks' cs' \<and> length ks' < inner_max C \<and> (\<forall>c\<in>set cs'. filled c) \<and>
     flat (concat (map leaves cs')) = flat (concat (map leaves cs)) \<and> tstate.more s' = tstate.more s \<and>
     (\<forall>X Y. chain0 C (X @ concat (map leaves cs) @ Y) s \<longrightarrow> chain0 C (X @ concat (map leaves cs') @ Y) s')"

lemma pair_context:
  fixes cs :: "('k :: linorder, 'v) bt list"
  assumes k: "kids (almost C h) lo hi ks cs" and j: "j < length ks"
    and others: "\<And>n. n < length cs \<Longrightarrow> n \<noteq> j \<Longrightarrow> n \<noteq> Suc j \<Longrightarrow> proper (cs ! n) \<and> filled (cs ! n)"
  obtains ka kb ca cb where "ks = ka @ ks ! j # kb" "cs = ca @ cs ! j # cs ! Suc j # cb" "length ka = j" "length ca = j"
    "\<forall>c\<in>set (ca @ cb). proper c \<and> filled c"
    "concat (map leaves cs) = concat (map leaves ca) @ (leaves (cs ! j) @ leaves (cs ! Suc j)) @ concat (map leaves cb)"
    "almost C h (lastb lo ka) (Some (ks ! j)) (cs ! j)" "almost C h (Some (ks ! j)) (hib hi kb) (cs ! Suc j)"
    "between (lastb lo ka) (hib hi kb) (ks ! j)"
    "\<And>ks' cs'. length cs' = Suc (length ks') \<Longrightarrow> kids (bwf C h) (lastb lo ka) (hib hi kb) ks' cs' \<Longrightarrow>
       kids (bwf C h) lo hi (ka @ ks' @ kb) (ca @ cs' @ cb)"
proof -
  have len: "length cs = Suc (length ks)" using kids_length [OF k] .
  from pair_at [OF len j] obtain ka kb ca cb where at: "ks = ka @ ks ! j # kb" "cs = ca @ cs ! j # cs ! Suc j # cb" "length ka = j" "length ca = j" .
  have oth: "\<forall>c\<in>set (ca @ cb). proper c \<and> filled c"
  proof
    fix c assume "c \<in> set (ca @ cb)"
    then consider n where "n < j" "c = ca ! n" | n where "n < length cb" "c = cb ! n" using at(4) by (auto simp: in_set_conv_nth)
    then show "proper c \<and> filled c"
    proof cases
      case (1 n)
      then have "cs ! n = c" using at(2,4) by (metis nth_append)
      then show ?thesis using others [of n] 1 j len by simp
    next
      case (2 n)
      have "cs ! (j + Suc (Suc n)) = (cs ! j # cs ! Suc j # cb) ! Suc (Suc n)" using at(2,4) by (metis nth_append_length_plus)
      moreover have "j + Suc (Suc n) < length cs" using 2(1) at(2,4) by (metis add_less_cancel_left length_Cons length_append not_less_eq)
      ultimately show ?thesis using others [of "j + Suc (Suc n)"] 2 by simp
    qed
  qed
  have k': "kids (almost C h) lo hi (ka @ ks ! j # kb) (ca @ cs ! j # cs ! Suc j # cb)" using k at(1,2) by simp
  have lc: "length ca = length ka" using at(3,4) by simp
  have pr: "\<forall>c\<in>set (ca @ cb). proper c" using oth by blast
  note pair = pair_replace [OF k' lc pr]
  have "concat (map leaves cs) = concat (map leaves ca) @ (leaves (cs ! j) @ leaves (cs ! Suc j)) @ concat (map leaves cb)"
    by (subst at(2)) simp
  then show thesis using that [OF at oth] pair by blast
qed

lemma borrow_repaired:
  fixes cs :: "('k :: linorder, 'v) bt list" and s :: "'z tstate_scheme"
  assumes k: "kids (almost C h) lo hi ks cs" "length ks < inner_max C" and j: "j < length ks"
    and others: "\<And>n. n < length cs \<Longrightarrow> n \<noteq> j \<Longrightarrow> n \<noteq> Suc j \<Longrightarrow> proper (cs ! n) \<and> filled (cs ! n)"
    and bor: "\<And>lo hi. almost C h lo (Some (ks ! j)) (cs ! j) \<Longrightarrow> almost C h (Some (ks ! j)) hi (cs ! Suc j) \<Longrightarrow> between lo hi (ks ! j) \<Longrightarrow>
      \<exists>l sep r. b = Inr (l, sep, r) \<and> bwf C h lo (Some sep) l \<and> bwf C h (Some sep) hi r \<and> between lo hi sep \<and>
        regroup (leaves (cs ! j) @ leaves (cs ! Suc j)) (leaves l @ leaves r) \<and> filled l \<and> filled r"
  shows "\<exists>l sep r. b = Inr (l, sep, r) \<and> repaired C h lo hi cs s (ks[j := sep]) (cs[j := l, Suc j := r]) s"
proof -
  from pair_context [OF k(1) j others] obtain ka kb ca cb
    where at: "ks = ka @ ks ! j # kb" "cs = ca @ cs ! j # cs ! Suc j # cb" "length ka = j" "length ca = j"
      and oth: "\<forall>c\<in>set (ca @ cb). proper c \<and> filled c"
      and lv: "concat (map leaves cs) = concat (map leaves ca) @ (leaves (cs ! j) @ leaves (cs ! Suc j)) @ concat (map leaves cb)"
      and pair: "almost C h (lastb lo ka) (Some (ks ! j)) (cs ! j)" "almost C h (Some (ks ! j)) (hib hi kb) (cs ! Suc j)"
        "between (lastb lo ka) (hib hi kb) (ks ! j)"
      and new: "\<And>ks' cs'. length cs' = Suc (length ks') \<Longrightarrow> kids (bwf C h) (lastb lo ka) (hib hi kb) ks' cs' \<Longrightarrow>
        kids (bwf C h) lo hi (ka @ ks' @ kb) (ca @ cs' @ cb)" by blast
  from bor [OF pair(1-3)] obtain l sep r where b: "b = Inr (l, sep, r)" "bwf C h (lastb lo ka) (Some sep) l" "bwf C h (Some sep) (hib hi kb) r"
    "between (lastb lo ka) (hib hi kb) sep" "regroup (leaves (cs ! j) @ leaves (cs ! Suc j)) (leaves l @ leaves r)" "filled l" "filled r" by blast
  have e: "ks[j := sep] = ka @ [sep] @ kb" "cs[j := l, Suc j := r] = ca @ [l, r] @ cb"
    by (subst at(1), simp add: list_update_append at(3)) (subst at(2), simp add: list_update_append at(4))
  have "kids (bwf C h) lo hi (ka @ [sep] @ kb) (ca @ [l, r] @ cb)" using new [of "[l, r]" "[sep]"] b(2-4) by simp
  moreover note lv
  moreover have "length (ka @ [sep] @ kb) < inner_max C" using k(2) at(1) by (metis append_Cons append_Nil length_append length_Cons)
  moreover have "chain0 C (X @ (concat (map leaves ca) @ (leaves l @ leaves r) @ concat (map leaves cb)) @ Y) s"
    if "chain0 C (X @ (concat (map leaves ca) @ (leaves (cs ! j) @ leaves (cs ! Suc j)) @ concat (map leaves cb)) @ Y) s" for X Y
    using regroup_chain0 [OF b(5), of C "X @ concat (map leaves ca)" "concat (map leaves cb) @ Y" s] that by simp
  moreover have "flat (leaves l) @ flat (leaves r) = flat (leaves (cs ! j)) @ flat (leaves (cs ! Suc j))" using b(5) by (simp add: regroup_def)
  ultimately show ?thesis
    unfolding repaired_def using b(1,6,7) oth by (intro exI [of _ l] exI [of _ sep] exI [of _ r]) (auto simp: e)
qed

lemma merge_repaired:
  fixes cs :: "('k :: linorder, 'v) bt list" and s :: "'z tstate_scheme"
  assumes C: "caps_ok C" and k: "kids (almost C h) lo hi ks cs" "length ks < inner_max C" and j: "j < length ks"
    and others: "\<And>n. n < length cs \<Longrightarrow> n \<noteq> j \<Longrightarrow> n \<noteq> Suc j \<Longrightarrow> proper (cs ! n) \<and> filled (cs ! n)"
    and full: "inner_filled (cs ! j)" "inner_filled (cs ! Suc j)" "filled (cs ! j) \<or> filled (cs ! Suc j)"
    and n: "hasEnoughSpace C (cs ! j) (nodeCount (cs ! Suc j))"
  shows "\<exists>m s' ks' cs'. merge_nodes (cs ! j) (cs ! Suc j) s = Inr (m, s') \<and> inner_erase j ks (cs[j := m]) = (ks', cs') \<and>
    repaired C h lo hi cs s ks' cs' s'"
proof -
  from pair_context [OF k(1) j others] obtain ka kb ca cb
    where at: "ks = ka @ ks ! j # kb" "cs = ca @ cs ! j # cs ! Suc j # cb" "length ka = j" "length ca = j"
      and oth: "\<forall>c\<in>set (ca @ cb). proper c \<and> filled c"
      and lv: "concat (map leaves cs) = concat (map leaves ca) @ (leaves (cs ! j) @ leaves (cs ! Suc j)) @ concat (map leaves cb)"
      and pair: "almost C h (lastb lo ka) (Some (ks ! j)) (cs ! j)" "almost C h (Some (ks ! j)) (hib hi kb) (cs ! Suc j)"
        "between (lastb lo ka) (hib hi kb) (ks ! j)"
      and new: "\<And>ks' cs'. length cs' = Suc (length ks') \<Longrightarrow> kids (bwf C h) (lastb lo ka) (hib hi kb) ks' cs' \<Longrightarrow>
        kids (bwf C h) lo hi (ka @ ks' @ kb) (ca @ cs' @ cb)" by blast
  from merge_nodes_ok [OF C pair full n] obtain m s' where m: "merge_nodes (cs ! j) (cs ! Suc j) s = Inr (m, s')"
    "bwf C h (lastb lo ka) (hib hi kb) m" "filled m" "flat (leaves m) = flat (leaves (cs ! j) @ leaves (cs ! Suc j))"
    "tstate.more s' = tstate.more s"
    "\<And>X Y. chain0 C (X @ leaves (cs ! j) @ leaves (cs ! Suc j) @ Y) s \<Longrightarrow> chain0 C (X @ leaves m @ Y) s'" by blast
  have cs: "cs[j := m] = ca @ m # cs ! Suc j # cb" by (subst at(2)) (simp add: list_update_append at(4))
  have "take j ks = ka" "drop (Suc j) ks = kb" by (subst at(1), simp add: at(3))+
  then have e: "inner_erase j ks (cs[j := m]) = (ka @ [] @ kb, ca @ [m] @ cb)"
    unfolding inner_erase_def cs using at(4) by simp
  have "kids (bwf C h) lo hi (ka @ [] @ kb) (ca @ [m] @ cb)" using new [of "[m]" "[]"] m(2) by simp
  moreover have "length (ka @ [] @ kb) < inner_max C" using k(2) at(1) by (metis Suc_lessD add_Suc_right append_Nil length_Cons length_append)
  moreover have "chain0 C (X @ (concat (map leaves ca) @ leaves m @ concat (map leaves cb)) @ Y) s'"
    if "chain0 C (X @ (concat (map leaves ca) @ (leaves (cs ! j) @ leaves (cs ! Suc j)) @ concat (map leaves cb)) @ Y) s" for X Y
    using m(6) [of "X @ concat (map leaves ca)" "concat (map leaves cb) @ Y"] that by simp
  ultimately have "repaired C h lo hi cs s (ka @ [] @ kb) (ca @ [m] @ cb) s'"
    unfolding repaired_def using m(3-5) oth lv by auto
  then show ?thesis using m(1) e by blast
qed

lemma EraseMerge_ok:
  fixes cs :: "('k :: linorder, 'v) bt list" and s :: "'z tstate_scheme"
  assumes C: "caps_ok C" and k: "kids (almost C h) lo hi ks cs" "ks \<noteq> []" "length ks < inner_max C" and i: "i \<le> length ks"
    and others: "\<And>j. j < length cs \<Longrightarrow> j \<noteq> i \<Longrightarrow> proper (cs ! j) \<and> filled (cs ! j)"
    and need: "node_needMerge C (cs ! i)" "inner_filled (cs ! i)"
  shows "\<exists>ks' cs' more s'. EraseMerge C i ks cs s = Inr ((ks', cs'), more, s') \<and> repaired C h lo hi cs s ks' cs' s' \<and>
    (more \<longrightarrow> needMerge (inner_max C) (length ks')) \<and> (\<not> more \<longrightarrow> ks' \<noteq> [])"
proof -
  have len: "length cs = Suc (length ks)" using kids_length [OF k(1)] .
  have i': "i < length cs" using i len by simp
  have alm: "\<exists>lo' hi'. almost C h lo' hi' (cs ! j)" if "j < length cs" for j
    using kids_child [OF k(1), of "cs ! j"] that by fastforce
  have fit: "hasEnoughSpace C (cs ! j) (nodeCount (cs ! i)) \<and> hasEnoughSpace C (cs ! i) (nodeCount (cs ! j))"
    if "j < length cs" "\<not> 0 < node_surplus C (cs ! j)" for j
  proof -
    have "\<exists>lo' hi'. almost C h lo' hi' (cs ! j)" "\<exists>lo' hi'. almost C h lo' hi' (cs ! i)" using alm that(1) i' by blast+
    then show ?thesis using siblings_fit [OF C need(1), of "cs ! j"] that(2) by (metis not_less)
  qed
  consider (bl) j where "i = Suc j" "0 < node_surplus C (cs ! j)"
    | (br) "i < length ks" "0 < node_surplus C (cs ! Suc i)" "\<not> (0 < i \<and> 0 < node_surplus C (cs ! (i - 1)))"
    | (ml) j where "i = Suc j" "\<not> 0 < node_surplus C (cs ! j)" "\<not> (i < length ks \<and> 0 < node_surplus C (cs ! Suc i))"
    | (mr) "i = 0" "\<not> 0 < node_surplus C (cs ! Suc i)"
    using k(2) i by (cases i) auto
  then show ?thesis
  proof cases
    case (bl j)
    have sib: "proper (cs ! j)" "filled (cs ! j)" using others [of j] bl(1) i' by simp_all
    have "\<exists>l sep r. borrow_from_left (cs ! j) (ks ! j) (cs ! Suc j) = Inr (l, sep, r) \<and>
        repaired C h lo hi cs s (ks[j := sep]) (cs[j := l, Suc j := r]) s"
      using k(1,3) bl i i' others sib need
      by (intro borrow_repaired borrow_from_left_ok [OF C]) (auto simp: bwf_iff)
    then show ?thesis using bl i k(2) by (auto simp: EraseMerge_def choose_one_sibling_def Let_def)
  next
    case br
    have sib: "proper (cs ! Suc i)" "filled (cs ! Suc i)" using others [of "Suc i"] br(1) len by simp_all
    have "\<exists>l sep r. borrow_from_right (cs ! i) (ks ! i) (cs ! Suc i) = Inr (l, sep, r) \<and>
        repaired C h lo hi cs s (ks[i := sep]) (cs[i := l, Suc i := r]) s"
      using k(1,3) br i i' others sib need
      by (intro borrow_repaired borrow_from_right_ok [OF C]) (auto simp: bwf_iff)
    then show ?thesis using br i k(2) by (auto simp: EraseMerge_def choose_one_sibling_def Let_def)
  next
    case (ml j)
    have sib: "filled (cs ! j)" using others [of j] ml(1) i' by simp
    then obtain m s' ks' cs' where r: "merge_nodes (cs ! j) (cs ! Suc j) s = Inr (m, s')" "inner_erase j ks (cs[j := m]) = (ks', cs')"
        "repaired C h lo hi cs s ks' cs' s'"
      using merge_repaired [OF C k(1,3), of j s] ml i i' others need fit [of j] filled_inner [OF sib] by auto
    have "choose_one_sibling C i ks cs = RightToLeft"
      using ml i i' fit [of j] by (auto simp: choose_one_sibling_def Let_def)
    then have "EraseMerge C i ks cs s = Inr ((ks', cs'), needMerge (inner_max C) (length ks'), s')"
      using r(1,2) ml(1) by (simp add: EraseMerge_def Let_def)
    then show ?thesis using r(3) by (auto simp: needMerge_def)
  next
    case mr
    have j: "0 < length ks" using k(2) by simp
    have sib: "filled (cs ! Suc 0)" using others [of "Suc 0"] mr(1) j len by simp
    then obtain m s' ks' cs' where r: "merge_nodes (cs ! i) (cs ! Suc i) s = Inr (m, s')" "inner_erase i ks (cs[i := m]) = (ks', cs')"
        "repaired C h lo hi cs s ks' cs' s'"
      using merge_repaired [OF C k(1,3), of 0 s] mr j len others need fit [of "Suc 0"] filled_inner [OF sib] by auto
    have "choose_one_sibling C i ks cs = LeftToRight"
      using mr j len fit [of "Suc 0"] by (auto simp: choose_one_sibling_def Let_def Suc_le_eq)
    then have "EraseMerge C i ks cs s = Inr ((ks', cs'), needMerge (inner_max C) (length ks'), s')"
      using r(1,2) by (simp add: EraseMerge_def Let_def)
    then show ?thesis using r(3) by (auto simp: needMerge_def)
  qed
qed

section \<open>Down and up again\<close>

definition handed_up :: "caps \<Rightarrow> nat \<Rightarrow> ('k :: linorder) option \<Rightarrow> 'k option \<Rightarrow> ('k, 'v) bt \<Rightarrow> bool \<Rightarrow> bool" where
  "handed_up C h lo hi t need \<longleftrightarrow>
     almost C h lo hi t \<and> inner_filled t \<and> (if need then node_needMerge C t else proper t \<and> filled t)"

lemma remove_node_ok:
  fixes t :: "('k :: linorder, 'v) bt" and s :: "'z tstate_scheme"
  assumes C: "caps_ok C"
  shows "bwf C h lo hi t \<Longrightarrow> inside lo hi k \<Longrightarrow> inner_filled t \<Longrightarrow>
    \<exists>xs a kvs ys lo' hi'. leaves t = xs @ (a, kvs) # ys \<and>
      (\<forall>l\<in>set xs. \<forall>x\<in>set (snd l). fst x < k) \<and> (\<forall>l\<in>set ys. \<forall>x\<in>set (snd l). k < fst x) \<and>
      bwf C 0 lo' hi' (Leaf a kvs) \<and>
      (\<forall>e. act a kvs s = Inl e \<longrightarrow> remove_node C k act t s = Inl e) \<and>
      (\<forall>ok kvs' s1. act a kvs s = Inr (ok, kvs', s1) \<longrightarrow> bwf C 0 lo' hi' (Leaf a kvs') \<longrightarrow>
        (\<exists>t' need s'. remove_node C k act t s = Inr (ok, t', need, s') \<and> handed_up C h lo hi t' need \<and>
           flat (leaves t') = flat xs @ kvs' @ flat ys \<and> tstate.more s' = tstate.more s1 \<and>
           (\<forall>X Y. chain0 C (X @ (xs @ (a, kvs') # ys) @ Y) s1 \<longrightarrow> chain0 C (X @ leaves t' @ Y) s')))"
proof (induction h arbitrary: lo hi t)
  case 0
  then obtain a kvs where t: "t = Leaf a kvs" by (auto split: bt.splits)
  have ne: "kvs' \<noteq> []" if "\<not> needMerge (leaf_max C) (length kvs')" for kvs' :: "('k, 'v) kvs"
    using that by (auto simp: needMerge_def)
  show ?case
    using 0 t ne by (intro exI [of _ "[]"] exI [of _ a] exI [of _ kvs] exI [of _ lo] exI [of _ hi]) (auto simp: handed_up_def)
next
  case (Suc h)
  then obtain ks cs where t: "t = Inner ks cs" "ks \<noteq> []" "length ks < inner_max C" "kids (bwf C h) lo hi ks cs"
    by (auto split: bt.splits)
  have fil: "\<forall>c\<in>set cs. filled c" using Suc.prems(3) t(1) by simp
  from kids_at [OF t(4) Suc.prems(2)] obtain ka kb ca c cb
    where at: "ks = ka @ kb" "cs = ca @ c # cb" "length ca = lowerBound ks k" "length ka = lowerBound ks k"
      "inside (lastb lo ka) (hib hi kb) k" "bwf C h (lastb lo ka) (hib hi kb) c"
    and low: "\<And>d. d \<in> set ca \<Longrightarrow> \<exists>lo' k'. k' < k \<and> bwf C h lo' (Some k') d"
    and high: "\<And>d. d \<in> set cb \<Longrightarrow> \<exists>lo' hi'. bwf C h lo' hi' d \<and> (\<forall>x. inside lo' hi' x \<longrightarrow> k < x)" by metis
  have lc: "length ca = length ka" using at(3,4) by simp
  have "inner_filled c" using fil at(2) by (auto intro: filled_inner)
  from Suc.IH [OF at(6,5) this] obtain xs a kvs ys lo' hi'
    where IH: "leaves c = xs @ (a, kvs) # ys" "\<forall>l\<in>set xs. \<forall>x\<in>set (snd l). fst x < k" "\<forall>l\<in>set ys. \<forall>x\<in>set (snd l). k < fst x"
      "bwf C 0 lo' hi' (Leaf a kvs)" "\<forall>e. act a kvs s = Inl e \<longrightarrow> remove_node C k act c s = Inl e"
      and ok: "\<forall>ok kvs' s1. act a kvs s = Inr (ok, kvs', s1) \<longrightarrow> bwf C 0 lo' hi' (Leaf a kvs') \<longrightarrow>
        (\<exists>t' need s'. remove_node C k act c s = Inr (ok, t', need, s') \<and> handed_up C h (lastb lo ka) (hib hi kb) t' need \<and>
           flat (leaves t') = flat xs @ kvs' @ flat ys \<and> tstate.more s' = tstate.more s1 \<and>
           (\<forall>X Y. chain0 C (X @ (xs @ (a, kvs') # ys) @ Y) s1 \<longrightarrow> chain0 C (X @ leaves t' @ Y) s'))"
    by (elim exE conjE) (rule that)
  have "fst x < k" if "d \<in> set ca" "l \<in> set (leaves d)" "x \<in> set (snd l)" for d l x
    using low [OF that(1)] wf_inside [OF _ that(2,3), of C h] by (fastforce simp: inside_def)
  moreover have "k < fst x" if "d \<in> set cb" "l \<in> set (leaves d)" "x \<in> set (snd l)" for d l x
    using high [OF that(1)] wf_inside [OF _ that(2,3), of C h] by blast
  ultimately have ord: "\<forall>l\<in>set (concat (map leaves ca) @ xs). \<forall>x\<in>set (snd l). fst x < k"
    "\<forall>l\<in>set (ys @ concat (map leaves cb)). \<forall>x\<in>set (snd l). k < fst x" using IH(2,3) by auto
  let ?i = "lowerBound ks k"
  have nth: "cs ! ?i = c" "?i < length cs" "\<And>d. cs[?i := d] = ca @ d # cb"
    using at(2,3) by (simp_all add: nth_append list_update_append)
  have step: "remove_node C k act t s = bind_res (remove_node C k act c s) (\<lambda>(ok, c, need, s).
          if need then
            bind_res (EraseMerge C ?i ks (ca @ c # cb) s) (\<lambda>((ks, cs), need, s). Inr (ok, Inner ks cs, need, s))
          else Inr (ok, Inner ks (ca @ c # cb), False, s))"
    unfolding t(1) remove_node.simps Let_def by (simp only: nth if_True)
  have main: "\<exists>t' need s'. remove_node C k act t s = Inr (ok, t', need, s') \<and> handed_up C (Suc h) lo hi t' need \<and>
           flat (leaves t') = flat (concat (map leaves ca) @ xs) @ kvs' @ flat (ys @ concat (map leaves cb)) \<and> tstate.more s' = tstate.more s1 \<and>
           (\<forall>X Y. chain0 C (X @ ((concat (map leaves ca) @ xs) @ (a, kvs') # (ys @ concat (map leaves cb))) @ Y) s1 \<longrightarrow> chain0 C (X @ leaves t' @ Y) s')"
    if act: "act a kvs s = Inr (ok, kvs', s1)" "bwf C 0 lo' hi' (Leaf a kvs')" for ok kvs' s1
  proof -
    from ok [rule_format, OF act] obtain c' need s2 where c': "remove_node C k act c s = Inr (ok, c', need, s2)"
      "almost C h (lastb lo ka) (hib hi kb) c'" "inner_filled c'" "if need then node_needMerge C c' else proper c' \<and> filled c'"
      "flat (leaves c') = flat xs @ kvs' @ flat ys" "tstate.more s2 = tstate.more s1"
      and ch: "\<And>X Y. chain0 C (X @ (xs @ (a, kvs') # ys) @ Y) s1 \<Longrightarrow> chain0 C (X @ leaves c' @ Y) s2"
      unfolding handed_up_def by blast
    have pr: "kids (almost C h) lo hi ks cs" "\<forall>d\<in>set cs. proper d" using t(4) by (auto simp: kids_bwf)
    have "kids (almost C h) lo hi (ka @ [] @ kb) (ca @ [c] @ cb)" using pr(1) at(1,2) by simp
    then have kd: "kids (almost C h) lo hi (ka @ kb) (ca @ c' # cb)"
      using kids_focus [OF lc, of "[c']" "[]" "almost C h" lo hi kb cb] kids_focus [OF lc, of "[c]" "[]" "almost C h" lo hi kb cb] c'(2) by simp
    have ch': "chain0 C (X @ concat (map leaves (ca @ c' # cb)) @ Y) s2"
      if "chain0 C (X @ ((concat (map leaves ca) @ xs) @ (a, kvs') # (ys @ concat (map leaves cb))) @ Y) s1" for X Y
      using ch [of "X @ concat (map leaves ca)" "concat (map leaves cb) @ Y"] that by simp
    show ?thesis
    proof (cases need)
      case False
      then have "kids (bwf C h) lo hi ks (ca @ c' # cb)" "\<forall>d\<in>set (ca @ c' # cb). filled d"
        using kd pr(2) c'(4) fil by (auto simp: kids_bwf at(1,2))
      then show ?thesis
        using step c'(1,5,6) False ch' t(2,3)
        by (intro exI [of _ "Inner ks (ca @ c' # cb)"] exI [of _ False] exI [of _ s2]) (simp add: handed_up_def)
    next
      case True
      have oth: "proper ((ca @ c' # cb) ! j) \<and> filled ((ca @ c' # cb) ! j)" if "j < length (ca @ c' # cb)" "j \<noteq> ?i" for j
      proof -
        have "(ca @ c' # cb) ! j \<in> set ca \<union> set cb" using that at(3) by (auto simp: nth_append nth_Cons split: nat.split)
        then show ?thesis using pr(2) fil by (auto simp: at(2))
      qed
      have i: "?i \<le> length ks" using at(1,4) by simp
      have nd: "node_needMerge C ((ca @ c' # cb) ! ?i)" "inner_filled ((ca @ c' # cb) ! ?i)"
        using c'(3,4) True at(3) by (simp_all flip: at(3))
      from EraseMerge_ok [OF C kd [folded at(1)] t(2,3) i oth nd, of s2] obtain ks' cs' more s3
        where e: "EraseMerge C ?i ks (ca @ c' # cb) s2 = Inr ((ks', cs'), more, s3)" "repaired C h lo hi (ca @ c' # cb) s2 ks' cs' s3"
          "more \<longrightarrow> needMerge (inner_max C) (length ks')" "\<not> more \<longrightarrow> ks' \<noteq> []" by blast
      show ?thesis
        using step c'(1,5,6) True ch' e unfolding repaired_def
        by (intro exI [of _ "Inner ks' cs'"] exI [of _ more] exI [of _ s3]) (simp add: handed_up_def)
    qed
  qed
  show ?case
    by (rule exI [of _ "concat (map leaves ca) @ xs"], rule exI [of _ a], rule exI [of _ kvs], rule exI [of _ "ys @ concat (map leaves cb)"],
        rule exI [of _ lo'], rule exI [of _ hi'], intro conjI)
      (simp add: t(1) at(2) IH(1), rule ord(1), rule ord(2), rule IH(4), use IH(5) step in simp, use main in blast)
qed

section \<open>The operations\<close>

lemma change_root_ok:
  assumes "handed_up C h None None t need" "chain0 C (leaves t) s"
  shows "tree_ok C (change_root t, s)" "leaves (change_root t) = leaves t"
proof -
  have one: "leaves (change_root t) = leaves t" by (simp add: change_root_def split: bt.split list.split)
  have "\<exists>h. bwf C h None None (change_root t)"
  proof (cases "proper t")
    case True
    then have "change_root t = t" by (cases t) (auto simp: change_root_def split: list.split)
    then show ?thesis using assms(1) True by (auto simp: handed_up_def bwf_iff)
  next
    case False
    then obtain cs where t: "t = Inner [] cs" by (cases t) auto
    then obtain h' where h: "h = Suc h'" "kids (bwf C h') None None [] cs" using assms(1) by (cases h) (auto simp: handed_up_def)
    then obtain c where "cs = [c]" using kids_length [OF h(2)] by (cases cs) auto
    then show ?thesis using h(2) t by (auto simp: change_root_def)
  qed
  moreover have "length (leaves t) = 1 \<or> (\<forall>l\<in>set (leaves t). snd l \<noteq> [])"
    using assms(1) by (cases t) (auto simp: handed_up_def filled_def)
  ultimately show "tree_ok C (change_root t, s)" using assms(2) one by (simp add: tree_ok_def chained_chain0)
  show "leaves (change_root t) = leaves t" using one .
qed

lemma leaves_ne: "bwf C h lo hi t \<Longrightarrow> leaves t \<noteq> []"
proof (induction h arbitrary: lo hi t)
  case (Suc h)
  then obtain ks cs where t: "t = Inner ks cs" "kids (bwf C h) lo hi ks cs" by (auto split: bt.splits)
  then obtain c cs' where "cs = c # cs'" using kids_length [OF t(2)] by (cases cs) auto
  then show ?case using t kids_child [OF t(2), of c] Suc.IH by fastforce
qed (auto split: bt.splits)

lemma remove_tree:
  fixes t :: "('k :: linorder, 'v) bt" and s :: "'z tstate_scheme"
  assumes "tree_ok C (t, s)"
  shows "\<exists>xs a kvs ys lo hi. leaves t = xs @ (a, kvs) # ys \<and>
      (\<forall>l\<in>set xs. \<forall>x\<in>set (snd l). fst x < k) \<and> (\<forall>l\<in>set ys. \<forall>x\<in>set (snd l). k < fst x) \<and> bwf C 0 lo hi (Leaf a kvs) \<and>
      (\<forall>e. act a kvs s = Inl e \<longrightarrow> remove_node C k act t s = Inl e) \<and>
      (\<forall>ok kvs' s1. act a kvs s = Inr (ok, kvs', s1) \<longrightarrow> bwf C 0 lo hi (Leaf a kvs') \<longrightarrow> chain0 C (xs @ (a, kvs') # ys) s1 \<longrightarrow>
        (\<exists>t' need s'. remove_node C k act t s = Inr (ok, t', need, s') \<and> tree_ok C (change_root t', s') \<and>
          entries (change_root t') = flat xs @ kvs' @ flat ys \<and> tstate.more s' = tstate.more s1))"
proof -
  obtain h where wf: "bwf C h None None t" and ch: "chained C (leaves t) s" using assms by (auto simp: tree_ok_def)
  have C: "caps_ok C" using ch by (simp add: chained_def)
  have "inner_filled t"
  proof (cases t)
    case (Inner ks cs)
    then obtain h' where k: "kids (bwf C h') None None ks cs" "ks \<noteq> []" using wf by (cases h) auto
    obtain c d cs' where cs: "cs = c # d # cs'" using kids_length [OF k(1)] k(2) by (cases cs; cases "tl cs") auto
    have "leaves e \<noteq> []" if "e \<in> set cs" for e using kids_child [OF k(1) that] leaves_ne by blast
    then have "leaves c \<noteq> []" "leaves d \<noteq> []" using cs by simp_all
    then have "length (leaves t) \<noteq> 1" using Inner cs by (auto simp: neq_Nil_conv)
    then show ?thesis using ch Inner by (auto simp: chained_def filled_def)
  qed simp
  from remove_node_ok [OF C wf inside_simps(1) this, of k act s] obtain xs a kvs ys lo' hi'
    where r: "leaves t = xs @ (a, kvs) # ys" "\<forall>l\<in>set xs. \<forall>x\<in>set (snd l). fst x < k" "\<forall>l\<in>set ys. \<forall>x\<in>set (snd l). k < fst x"
      "bwf C 0 lo' hi' (Leaf a kvs)" "\<forall>e. act a kvs s = Inl e \<longrightarrow> remove_node C k act t s = Inl e"
      and ok: "\<forall>ok kvs' s1. act a kvs s = Inr (ok, kvs', s1) \<longrightarrow> bwf C 0 lo' hi' (Leaf a kvs') \<longrightarrow>
        (\<exists>t' need s'. remove_node C k act t s = Inr (ok, t', need, s') \<and> handed_up C h None None t' need \<and>
           flat (leaves t') = flat xs @ kvs' @ flat ys \<and> tstate.more s' = tstate.more s1 \<and>
           (\<forall>X Y. chain0 C (X @ (xs @ (a, kvs') # ys) @ Y) s1 \<longrightarrow> chain0 C (X @ leaves t' @ Y) s'))"
    by (elim exE conjE) (rule that)
  have "\<exists>t' need s'. remove_node C k act t s = Inr (ok, t', need, s') \<and> tree_ok C (change_root t', s') \<and>
          entries (change_root t') = flat xs @ kvs' @ flat ys \<and> tstate.more s' = tstate.more s1"
    if act: "act a kvs s = Inr (ok, kvs', s1)" "bwf C 0 lo' hi' (Leaf a kvs')" "chain0 C (xs @ (a, kvs') # ys) s1" for ok kvs' s1
  proof -
    from ok [rule_format, OF act(1,2)] obtain t' need s' where t': "remove_node C k act t s = Inr (ok, t', need, s')"
      "handed_up C h None None t' need" "flat (leaves t') = flat xs @ kvs' @ flat ys" "tstate.more s' = tstate.more s1"
      "chain0 C ([] @ (xs @ (a, kvs') # ys) @ []) s1 \<longrightarrow> chain0 C ([] @ leaves t' @ []) s'" by blast
    then have "chain0 C (leaves t') s'" using act(3) by simp
    from change_root_ok [OF t'(2) this] show ?thesis using t'(1,3,4) by (auto simp: entries_def)
  qed
  then show ?thesis
    by (intro exI [of _ xs] exI [of _ a] exI [of _ kvs] exI [of _ ys] exI [of _ lo'] exI [of _ hi'] conjI r) blast
qed

end
