(* ===== verification/BTreeSpec.thy ===== *)
theory BTreeSpec
  imports BTreeRemove
begin

text \<open>
  What the B+-tree promises: it is a map from keys to values that iterates in the order of the keys.
  The contract \<open>map_index\<close> is what a table expects of an index; a history of operations on any index with this
  contract answers as the map does.
\<close>

section \<open>The contract of an index\<close>

datatype ('k, 'v) cmd = Ins 'k 'v | Del 'k

fun map_run :: "('k, 'v) cmd list \<Rightarrow> ('k \<Rightarrow> 'v option) \<Rightarrow> bool list \<times> ('k \<Rightarrow> 'v option)" where
  "map_run [] m = ([], m)"
| "map_run (Ins k v # cs) m = (case map_run cs (if m k = None then m(k \<mapsto> v) else m) of (bs, m') \<Rightarrow> ((m k = None) # bs, m'))"
| "map_run (Del k # cs) m = (case map_run cs (m(k := None)) of (bs, m') \<Rightarrow> ((m k \<noteq> None) # bs, m'))"

text \<open>An operation is \<open>None\<close> when it never returns.\<close>

fun index_run ::
  "('k \<Rightarrow> 'v \<Rightarrow> 't \<Rightarrow> (bool \<times> 't) res option) \<Rightarrow> ('k \<Rightarrow> 't \<Rightarrow> (bool \<times> 't) res option) \<Rightarrow>
     ('k, 'v) cmd list \<Rightarrow> 't \<Rightarrow> (bool list \<times> 't) res option" where
  "index_run ins del [] t = Some (Inr ([], t))"
| "index_run ins del (c # cs) t =
     (case (case c of Ins k v \<Rightarrow> ins k v t | Del k \<Rightarrow> del k t) of
        None \<Rightarrow> None
      | Some (Inl e) \<Rightarrow> Some (Inl e)
      | Some (Inr (b, t)) \<Rightarrow>
          (case index_run ins del cs t of
             None \<Rightarrow> None
           | Some r \<Rightarrow> Some (bind_res r (\<lambda>(bs, t). Inr (b # bs, t)))))"

locale map_index =
  fixes find_key :: "'k \<Rightarrow> 't \<Rightarrow> 'v option" and ins :: "'k \<Rightarrow> 'v \<Rightarrow> 't \<Rightarrow> (bool \<times> 't) res option"
    and del :: "'k \<Rightarrow> 't \<Rightarrow> (bool \<times> 't) res option" and ok :: "'t \<Rightarrow> bool"
  assumes ins_ok: "ok t \<Longrightarrow> \<exists>t'. ins k v t = Some (Inr (find_key k t = None, t')) \<and> ok t' \<and>
      (\<forall>j. find_key j t' = (if j = k \<and> find_key k t = None then Some v else find_key j t))"
    and del_ok: "ok t \<Longrightarrow> \<exists>t'. del k t = Some (Inr (find_key k t \<noteq> None, t')) \<and> ok t' \<and>
      (\<forall>j. find_key j t' = (if j = k then None else find_key j t))"
begin

lemma run_refines:
  "ok t \<Longrightarrow> \<exists>t'. index_run ins del cs t = Some (Inr (fst (map_run cs (\<lambda>k. find_key k t)), t')) \<and> ok t' \<and>
     (\<lambda>k. find_key k t') = snd (map_run cs (\<lambda>k. find_key k t))"
proof (induction cs arbitrary: t)
  case (Cons c cs)
  show ?case
  proof (cases c)
    case (Ins k v)
    from ins_ok [OF Cons.prems, of k v] obtain t1 where t1: "ins k v t = Some (Inr (find_key k t = None, t1))" "ok t1"
      "\<forall>j. find_key j t1 = (if j = k \<and> find_key k t = None then Some v else find_key j t)" by blast
    have "(\<lambda>j. find_key j t1) = (if find_key k t = None then (\<lambda>j. find_key j t)(k \<mapsto> v) else (\<lambda>j. find_key j t))"
      using t1(3) by auto
    then show ?thesis using Cons.IH [OF t1(2)] Ins t1(1) by (auto split: prod.splits)
  next
    case (Del k)
    from del_ok [OF Cons.prems, of k] obtain t1 where t1: "del k t = Some (Inr (find_key k t \<noteq> None, t1))" "ok t1"
      "\<forall>j. find_key j t1 = (if j = k then None else find_key j t)" by blast
    have "(\<lambda>j. find_key j t1) = (\<lambda>j. find_key j t)(k := None)" using t1(3) by auto
    then show ?thesis using Cons.IH [OF t1(2)] Del t1(1) by (auto split: prod.splits)
  qed
qed simp

end

section \<open>The B+-tree has the contract\<close>

definition drop_key :: "'k \<Rightarrow> ('k, 'v) kvs \<Rightarrow> ('k, 'v) kvs" where
  "drop_key k e = filter (\<lambda>x. fst x \<noteq> k) e"

lemma map_of_drop_key: "map_of (drop_key k e) = (map_of e)(k := None)"
  by (induction e) (auto simp: drop_key_def)

lemma drop_key_none: "k \<notin> fst ` set e \<Longrightarrow> drop_key k e = e"
  unfolding drop_key_def by (rule filter_True) auto

lemma tree_sorted: "tree_ok C (t, s) \<Longrightarrow> sorted_wrt (<) (map fst (entries t))"
  by (auto simp: tree_ok_def intro: entries_sorted)

lemma tree_lookup: "tree_ok C (t, s) \<Longrightarrow> lookup k t = map_of (entries t) k"
  by (auto simp: tree_ok_def lookup_entries)

lemma lookup_None: "tree_ok C (t, s) \<Longrightarrow> lookup k t = None \<longleftrightarrow> k \<notin> fst ` set (entries t)"
  by (simp add: tree_lookup map_of_eq_None_iff)

lemma erase_leaf_eq:
  assumes "sorted_wrt (<) (map fst kvs)" "k \<in> fst ` set kvs"
  shows "leaf_erase (lowerBound (map fst kvs) k) kvs = drop_key k kvs" "length kvs = Suc (length (drop_key k kvs))"
  using assms(1)
proof (atomize (full), cases rule: leaf_at [where k = k])
  case (found la v lb)
  have "k \<notin> fst ` set la" "k \<notin> fst ` set lb" using found(4,5) by auto
  then have "drop_key k kvs = la @ lb" using drop_key_none [of k la] drop_key_none [of k lb] by (simp add: found(1) drop_key_def)
  moreover have "take (length la) kvs = la" "drop (Suc (length la)) kvs = lb" by (simp_all add: found(1))
  ultimately show "leaf_erase (lowerBound (map fst kvs) k) kvs = drop_key k kvs \<and> length kvs = Suc (length (drop_key k kvs))"
    using found(2) by (simp add: leaf_erase_def) (simp add: found(1))
next
  case (missing la lb)
  then show "leaf_erase (lowerBound (map fst kvs) k) kvs = drop_key k kvs \<and> length kvs = Suc (length (drop_key k kvs))"
    using assms(2) by (auto simp: map_of_eq_None_iff)
qed

lemma chain0_leaf:
  assumes "chain0 C (xs @ (a, kvs) # ys) s" "next_leaf s' = next_leaf s" "fresh s' = fresh s" "leaf_nodes s' = leaf_nodes s"
    "num_items s' + of_nat (length kvs) = num_items s + of_nat (length kvs')"
  shows "chain0 C (xs @ (a, kvs') # ys) s'"
proof -
  have "num_items s' + of_nat (length kvs) = of_nat (length (flat (xs @ ys)) + length kvs') + of_nat (length kvs)"
    using assms(1,5) by (simp add: chain0_def algebra_simps)
  then have "num_items s' = of_nat (length (flat (xs @ ys)) + length kvs')" by (rule add_right_imp_eq)
  then show ?thesis using assms(1-4) by (auto simp: chain0_def)
qed

text \<open>The leaf without the key, and what this means for the contents.\<close>

lemma drop_leaf:
  assumes J: "tree_ok C (t, s)" and lv: "leaves t = xs @ (a, kvs) # ys"
    and ord: "\<forall>l\<in>set xs. \<forall>x\<in>set (snd l). fst x < k" "\<forall>l\<in>set ys. \<forall>x\<in>set (snd l). k < fst x" and wf: "bwf C 0 lo hi (Leaf a kvs)"
  shows "lookup k t = None \<longleftrightarrow> k \<notin> fst ` set kvs" "bwf C 0 lo hi (Leaf a (drop_key k kvs))"
    "flat xs @ drop_key k kvs @ flat ys = drop_key k (entries t)"
    "k \<in> fst ` set kvs \<Longrightarrow> next_leaf s' = next_leaf s \<Longrightarrow> fresh s' = fresh s \<Longrightarrow> leaf_nodes s' = leaf_nodes s \<Longrightarrow>
       num_items s' = num_items s - 1 \<Longrightarrow> chain0 C (xs @ (a, drop_key k kvs) # ys) s'"
proof -
  show "lookup k t = None \<longleftrightarrow> k \<notin> fst ` set kvs" using put_leaf(1) [OF lv ord] lookup_None [OF J] by simp
  have "sorted_wrt (<) (map fst (drop_key k kvs))"
    using wf by (simp add: drop_key_def sorted_wrt_map sorted_wrt_filter)
  moreover have "length (drop_key k kvs) \<le> leaf_max C" using wf le_trans [OF length_filter_le] by (auto simp: drop_key_def)
  ultimately show "bwf C 0 lo hi (Leaf a (drop_key k kvs))" using wf by (auto simp: drop_key_def)
  have "k \<notin> fst ` set (flat xs)" "k \<notin> fst ` set (flat ys)" using ord by force+
  then show "flat xs @ drop_key k kvs @ flat ys = drop_key k (entries t)"
    using drop_key_none [of k "flat xs"] drop_key_none [of k "flat ys"] by (simp add: entries_def lv drop_key_def)
  have ch: "chain0 C (xs @ (a, kvs) # ys) s" using J lv by (simp add: tree_ok_def chained_chain0)
  show "chain0 C (xs @ (a, drop_key k kvs) # ys) s'" if "k \<in> fst ` set kvs" "next_leaf s' = next_leaf s" "fresh s' = fresh s"
      "leaf_nodes s' = leaf_nodes s" "num_items s' = num_items s - 1"
    using ch that(2-4) by (rule chain0_leaf) (use erase_leaf_eq(2) [of kvs k] wf that(1,5) in simp)
qed

lemma bt_remove_ok:
  fixes t :: "('k :: linorder, 'v) bt" and s :: "'z tstate_scheme"
  assumes J: "tree_ok C (t, s)"
  shows "\<exists>t' s'. bt_remove C nd k (t, s) = dcheck nd (lookup k t \<noteq> None) (Inr (lookup k t \<noteq> None, t', s')) \<and> tree_ok C (t', s') \<and>
    entries t' = drop_key k (entries t) \<and> tstate.more s' = tstate.more s"
proof -
  from remove_tree [OF J, where k = k and act = "erase_leaf k"] obtain xs a kvs ys lo hi
    where lv: "leaves t = xs @ (a, kvs) # ys" and ord: "\<forall>l\<in>set xs. \<forall>x\<in>set (snd l). fst x < k" "\<forall>l\<in>set ys. \<forall>x\<in>set (snd l). k < fst x"
      and wf: "bwf C 0 lo hi (Leaf a kvs)" and er: "\<forall>e. erase_leaf k a kvs s = Inl e \<longrightarrow> remove_node C k (erase_leaf k) t s = Inl e"
      and ok: "\<forall>ok kvs' s1. erase_leaf k a kvs s = Inr (ok, kvs', s1) \<longrightarrow> bwf C 0 lo hi (Leaf a kvs') \<longrightarrow> chain0 C (xs @ (a, kvs') # ys) s1 \<longrightarrow>
        (\<exists>t' need s'. remove_node C k (erase_leaf k) t s = Inr (ok, t', need, s') \<and> tree_ok C (change_root t', s') \<and>
          entries (change_root t') = flat xs @ kvs' @ flat ys \<and> tstate.more s' = tstate.more s1)" by (elim exE conjE) (rule that)
  note d = drop_leaf [OF J lv ord wf]
  have srt: "sorted_wrt (<) (map fst kvs)" using wf by simp
  have "\<exists>s1. erase_leaf k a kvs s = Inr (lookup k t \<noteq> None, drop_key k kvs, s1) \<and> chain0 C (xs @ (a, drop_key k kvs) # ys) s1 \<and>
      tstate.more s1 = tstate.more s"
  proof (cases "k \<in> fst ` set kvs")
    case True
    then show ?thesis using present_iff [OF wf, of k] erase_leaf_eq(1) [OF srt True] d(1) d(4) [OF True, of "s\<lparr>num_items := num_items s - 1\<rparr>"]
      by (auto simp: erase_leaf_def Let_def)
  next
    case False
    then show ?thesis using present_iff [OF wf, of k] drop_key_none [OF False] d(1) J lv
      by (auto simp: erase_leaf_def Let_def tree_ok_def chained_chain0)
  qed
  then obtain s1 where s1: "erase_leaf k a kvs s = Inr (lookup k t \<noteq> None, drop_key k kvs, s1)"
    "chain0 C (xs @ (a, drop_key k kvs) # ys) s1" "tstate.more s1 = tstate.more s" by blast
  from ok [rule_format, OF s1(1) d(2) s1(2)] obtain t' need s' where "remove_node C k (erase_leaf k) t s = Inr (lookup k t \<noteq> None, t', need, s')"
    "tree_ok C (change_root t', s')" "entries (change_root t') = flat xs @ drop_key k kvs @ flat ys" "tstate.more s' = tstate.more s1" by blast
  then show ?thesis using d(3) s1(3) by (intro exI [of _ "change_root t'"] exI [of _ s']) (simp add: bt_remove_def)
qed

lemma bt_insert_ok:
  assumes "tree_ok C (t, s)"
  shows "\<exists>t' s'. bt_insert C k v (t, s) = Some (Inr (lookup k t = None, t', s')) \<and> tree_ok C (t', s') \<and>
    entries t' = (if lookup k t = None then put k v (entries t) else entries t)"
proof -
  have "ins.good C (t, s)" using assms by (simp add: ins.good_def tree_ok_def)
  from ins.loop_total [OF this, of k v] obtain t' s' ok where r: "bt_insert C k v (t, s) = Some (Inr (ok, t', s'))" "ins.good C (t', s')"
    "put_post k v (entries t) ok (entries t')" by (auto simp: bt_insert_def)
  then show ?thesis using lookup_None [OF assms] by (auto simp: put_post_def ins.good_def tree_ok_def)
qed

abbreviation bt_find :: "('k :: linorder) \<Rightarrow> ('k, 'v) bt \<times> 'z tstate_scheme \<Rightarrow> 'v option" where
  "bt_find k ts \<equiv> lookup k (fst ts)"

interpretation bt: map_index bt_find "bt_insert C" "\<lambda>k ts. Some (bt_remove C True k ts)" "tree_ok C" for C
proof (unfold_locales, goal_cases)
  case (1 ts k v)
  obtain t s where ts: "ts = (t, s)" by (cases ts)
  from bt_insert_ok [OF 1 [unfolded ts], of k v] obtain t' s' where r: "bt_insert C k v (t, s) = Some (Inr (lookup k t = None, t', s'))"
    "tree_ok C (t', s')" "entries t' = (if lookup k t = None then put k v (entries t) else entries t)" by blast
  have srt: "sorted_wrt (<) (map fst (entries t))" using 1 ts tree_sorted by blast
  have "lookup j t' = (if j = k \<and> lookup k t = None then Some v else lookup j t)" for j
    using map_of_put [OF srt, of k v] lookup_None [OF 1 [unfolded ts], of k] tree_lookup [OF r(2)] tree_lookup [OF 1 [unfolded ts]] r(3) by auto
  then show ?case using r(1,2) ts by auto
next
  case (2 ts k)
  obtain t s where ts: "ts = (t, s)" by (cases ts)
  from bt_remove_ok [OF 2 [unfolded ts], of True k] obtain t' s' where r: "bt_remove C True k (t, s) = Inr (lookup k t \<noteq> None, t', s')"
    "tree_ok C (t', s')" "entries t' = drop_key k (entries t)" by auto
  have "lookup j t' = (if j = k then None else lookup j t)" for j
    using tree_lookup [OF r(2)] tree_lookup [OF 2 [unfolded ts]] r(3) map_of_drop_key [of k "entries t"] by auto
  then show ?case using r(1,2) ts by auto
qed

lemma bplus_tree_ok: "caps_ok C \<Longrightarrow> tree_ok C bplus_tree"
  by (simp add: tree_ok_def bplus_tree_def chained_def exI [of _ 0])

section \<open>Scanning\<close>

text \<open>The entries one by one, until the callback says stop; the last entry is announced.\<close>

fun scan_ref :: "('k \<Rightarrow> 'v \<Rightarrow> bool \<Rightarrow> 'x \<Rightarrow> bool \<times> 'x) \<Rightarrow> ('k, 'v) kvs \<Rightarrow> 'x \<Rightarrow> bool \<times> 'x" where
  "scan_ref proc [] x = (False, x)"
| "scan_ref proc ((k, v) # e) x = (case proc k v (e = []) x of (end, x) \<Rightarrow> if end then (True, x) else scan_ref proc e x)"

lemma scan_leaf_ref:
  assumes "\<forall>e\<in>set kvs. lowKey \<le> fst e" "lastLeaf \<longleftrightarrow> rest = []"
  shows "\<exists>quit x'. scan_leaf proc lastLeaf lowKey kvs x = Inr (quit, x') \<and>
    scan_ref proc (kvs @ rest) x = (if quit then (True, x') else scan_ref proc rest x')"
  using assms(1)
proof (induction kvs arbitrary: x)
  case (Cons e kvs)
  obtain k v where e: "e = (k, v)" by (cases e)
  obtain stop y where p: "proc k v (kvs = [] \<and> rest = []) x = (stop, y)" by (cases "proc k v (kvs = [] \<and> rest = []) x")
  show ?case
  proof (cases stop)
    case True
    then show ?thesis using Cons.prems p assms(2) e by (auto simp: conj_commute)
  next
    case False
    then show ?thesis using Cons.prems Cons.IH [of y] p assms(2) e by (auto simp: conj_commute)
  qed
qed auto

lemma find_leaf_of:
  assumes J: "tree_ok C (t, s)" and lv: "(b, nk) \<in> set (leaves t)" and k: "k \<in> fst ` set nk"
  shows "find_leaf k t = Some (b, nk)"
proof -
  obtain h where "bwf C h None None t" using J by (auto simp: tree_ok_def)
  from path [OF this inside_simps(1), of k] obtain xs a kvs ys where p: "leaves t = xs @ (a, kvs) # ys" "find_leaf k t = Some (a, kvs)"
    "\<forall>l\<in>set xs. \<forall>x\<in>set (snd l). fst x < k" "\<forall>l\<in>set ys. \<forall>x\<in>set (snd l). k < fst x" by blast
  then show ?thesis using lv k by (auto dest!: bspec)
qed

lemma leaf_sorted:
  assumes "tree_ok C (t, s)" "leaves t = xs @ (a, kvs) # ys"
  shows "sorted_wrt (<) (map fst kvs)"
  using tree_sorted [OF assms(1)] by (simp add: entries_def assms(2) sorted_wrt_append)

lemma scan_from:
  fixes s :: "'z tstate_scheme"
  assumes J: "tree_ok C (t, s)"
  shows "leaves t = xs @ (a, kvs) # ys \<Longrightarrow> find_leaf lowKey t = Some (a, kvs) \<Longrightarrow>
    scanForUpdate proc lowKey t s x = Some (Inr (snd (scan_ref proc (drop (lowerBound (map fst kvs) lowKey) kvs @ flat ys) x)))"
proof (induction ys arbitrary: xs a kvs lowKey x)
  case Nil
  have ch: "chained C (leaves t) s" using J by (simp add: tree_ok_def)
  note at = chained_at [OF ch Nil.prems(1)]
  have "\<forall>e\<in>set (drop (lowerBound (map fst kvs) lowKey) kvs). lowKey \<le> fst e"
    using lowerBound_split(3) [OF leaf_sorted [OF J Nil.prems(1)]] by (auto simp: drop_map)
  from scan_leaf_ref [OF this, of True "[]" proc x] show ?case
    using Nil at(1) by (subst scanForUpdate.simps) (auto split: if_splits)
next
  case (Cons l ys)
  obtain b nk where l: "l = (b, nk)" by (cases l)
  have ch: "chained C (leaves t) s" using J by (simp add: tree_ok_def)
  note at = chained_at(1) [OF ch Cons.prems(1)] chained_at(3) [OF ch Cons.prems(1), of b nk ys]
  then obtain k v nk' where nk: "nk = (k, v) # nk'" using l by (cases nk) auto
  have low: "\<forall>e\<in>set (drop (lowerBound (map fst kvs) lowKey) kvs). lowKey \<le> fst e"
    using lowerBound_split(3) [OF leaf_sorted [OF J Cons.prems(1)]] by (auto simp: drop_map)
  have nlv: "leaves t = (xs @ [(a, kvs)]) @ (b, nk) # ys" using Cons.prems(1) l by simp
  have "find_leaf k t = Some (b, nk)" using nlv nk by (intro find_leaf_of [OF J]) auto
  note IH = Cons.IH [OF nlv this]
  have "lowerBound (map fst nk) k = 0" using lowerBound_takeWhile [OF leaf_sorted [OF J nlv], of k] nk by simp
  then have rest: "drop (lowerBound (map fst nk) k) nk = nk" by simp
  obtain quit x' where sl: "scan_leaf proc False lowKey (drop (lowerBound (map fst kvs) lowKey) kvs) x = Inr (quit, x')"
    "scan_ref proc (drop (lowerBound (map fst kvs) lowKey) kvs @ flat (l # ys)) x = (if quit then (True, x') else scan_ref proc (flat (l # ys)) x')"
    using scan_leaf_ref [OF low, of False "flat (l # ys)" proc x] l nk by auto
  have nx: "next_leaf s a = Some b" "peek t b = Inr nk" using at l by simp_all
  show ?case
  proof (cases quit)
    case True
    then show ?thesis using sl Cons.prems(2) nx by (subst scanForUpdate.simps) simp
  next
    case False
    then show ?thesis using sl Cons.prems(2) nx IH [of x'] rest l nk by (subst scanForUpdate.simps) simp
  qed
qed

lemma scan_ok:
  assumes J: "tree_ok C (t, s)"
  shows "scanForUpdate proc lowKey t s x = Some (Inr (snd (scan_ref proc (filter (\<lambda>e. lowKey \<le> fst e) (entries t)) x)))"
proof -
  obtain h where "bwf C h None None t" using J by (auto simp: tree_ok_def)
  from path [OF this inside_simps(1), of lowKey] obtain xs a kvs ys where p: "leaves t = xs @ (a, kvs) # ys" "find_leaf lowKey t = Some (a, kvs)"
    "\<forall>l\<in>set xs. \<forall>x\<in>set (snd l). fst x < lowKey" "\<forall>l\<in>set ys. \<forall>x\<in>set (snd l). lowKey < fst x" by blast
  let ?i = "lowerBound (map fst kvs) lowKey"
  note b = lowerBound_split [OF leaf_sorted [OF J p(1)], where k = lowKey]
  have "filter (\<lambda>e. lowKey \<le> fst e) (flat xs) = []" "filter (\<lambda>e. lowKey \<le> fst e) (flat ys) = flat ys"
    using p(3,4) by (auto simp: filter_empty_conv not_le) (fastforce simp: filter_id_conv intro: less_imp_le)
  moreover have "filter (\<lambda>e. lowKey \<le> fst e) (take ?i kvs) = []" "filter (\<lambda>e. lowKey \<le> fst e) (drop ?i kvs) = drop ?i kvs"
    using b(2,3) by (auto simp: filter_empty_conv filter_id_conv not_le take_map drop_map)
  moreover have "filter P kvs = filter P (take ?i kvs) @ filter P (drop ?i kvs)" for P
    by (metis append_take_drop_id filter_append)
  ultimately have "filter (\<lambda>e. lowKey \<le> fst e) (entries t) = drop ?i kvs @ flat ys" by (simp add: entries_def p(1))
  then show ?thesis using scan_from [OF J p(1,2)] by simp
qed

section \<open>The neighbours of a key\<close>

lemma next_present:
  fixes s :: "'z tstate_scheme"
  assumes J: "tree_ok C (t, s)" and lv: "leaves t = xs @ (a, kvs) # ys"
    and ord: "\<forall>l\<in>set xs. \<forall>x\<in>set (snd l). fst x < k" "\<forall>l\<in>set ys. \<forall>x\<in>set (snd l). k < fst x" and k: "k \<in> fst ` set kvs"
  shows "next_tuple t a kvs (lowerBound (map fst kvs) k) s = Inr (successor k (entries t))"
    "kvs ! lowerBound (map fst kvs) k = (k, the (lookup k t))"
proof -
  have ch: "chained C (leaves t) s" using J by (simp add: tree_ok_def)
  note suc = put_leaf(3) [OF lv ord] and at = chained_at [OF ch lv]
  from leaf_sorted [OF J lv] have "next_tuple t a kvs (lowerBound (map fst kvs) k) s = Inr (successor k (entries t)) \<and>
    kvs ! lowerBound (map fst kvs) k = (k, the (lookup k t))"
  proof (cases rule: leaf_at [where k = k])
    case (missing la lb)
    then show ?thesis using k by (auto simp: map_of_eq_None_iff)
  next
    case (found la v lb)
    have pos: "lowerBound (map fst kvs) k = length la" using found(2) by simp
    have "find (\<lambda>x. k < fst x) la = None" using found(4) by (auto simp: find_None_iff dest: order.asym)
    then have sk: "successor k kvs = hd_opt lb"
      unfolding found(1) successor_def using found(5) by (induction la) (cases lb; auto split: if_splits)+
    have "(k, v) \<in> set (entries t)" by (simp add: entries_def lv found(1))
    moreover have "distinct (map fst (entries t))" using tree_sorted [OF J] by (simp add: strict_sorted_iff)
    ultimately have "lookup k t = Some v" using tree_lookup [OF J] by simp
    moreover have "kvs ! length la = (k, v)" by (simp add: found(1))
    moreover have "next_tuple t a kvs (length la) s = Inr (successor k (entries t))"
    proof (cases lb)
      case (Cons x lc)
      then have "kvs ! Suc (length la) = x" "length la < length kvs - 1" by (simp_all add: found(1) nth_append)
      then show ?thesis using suc sk Cons by (simp add: next_tuple_def)
    next
      case Nil
      then have l: "\<not> length la < length kvs - 1" by (simp add: found(1))
      show ?thesis
      proof (cases ys)
        case Nil
        then show ?thesis using l at(1) suc sk \<open>lb = []\<close> by (simp add: next_tuple_def)
      next
        case (Cons y zs)
        obtain b nk where y: "y = (b, nk)" by (cases y)
        have "peek t b = Inr nk" "nk \<noteq> []" using at(3) Cons y by auto
        then show ?thesis using l at(1) suc sk \<open>lb = []\<close> Cons y by (cases nk) (simp_all add: next_tuple_def)
      qed
    qed
    ultimately show ?thesis using pos by simp
  qed
  then show "next_tuple t a kvs (lowerBound (map fst kvs) k) s = Inr (successor k (entries t))"
    "kvs ! lowerBound (map fst kvs) k = (k, the (lookup k t))" by simp_all
qed

lemma tree_path:
  assumes "tree_ok C (t, s)"
  obtains xs a kvs ys lo hi where "leaves t = xs @ (a, kvs) # ys" "find_leaf k t = Some (a, kvs)"
    "\<forall>l\<in>set xs. \<forall>x\<in>set (snd l). fst x < k" "\<forall>l\<in>set ys. \<forall>x\<in>set (snd l). k < fst x" "bwf C 0 lo hi (Leaf a kvs)"
proof -
  obtain h where "bwf C h None None t" using assms by (auto simp: tree_ok_def)
  from path [OF this inside_simps(1), of k] show thesis using that by blast
qed

lemma lookup_next_ok:
  assumes J: "tree_ok C (t, s)" "pre_ok (leaves t) s"
  shows "\<exists>pv. lookupForNextKeyUpdate k proc (t, s) =
    (case lookup k t of None \<Rightarrow> Inr (False, s)
     | Some v \<Rightarrow> bind_res (proc pv (k, v) (successor k (entries t)) (rows s)) (\<lambda>x. Inr (True, s\<lparr>rows := x\<rparr>)))"
proof -
  obtain xs a kvs ys lo hi where p: "leaves t = xs @ (a, kvs) # ys" "find_leaf k t = Some (a, kvs)"
    "\<forall>l\<in>set xs. \<forall>x\<in>set (snd l). fst x < k" "\<forall>l\<in>set ys. \<forall>x\<in>set (snd l). k < fst x" "bwf C 0 lo hi (Leaf a kvs)"
    by (rule tree_path [OF J(1)])
  obtain pv where pv: "prev_tuple t a kvs (lowerBound (map fst kvs) k) s = Inr pv" by (rule prev_at [OF J(2) p(1)])
  have iff: "lookup k t = None \<longleftrightarrow> k \<notin> fst ` set kvs" using put_leaf(1) [OF p(1,3,4)] lookup_None [OF J(1)] by simp
  show ?thesis
  proof (cases "lookup k t")
    case None
    then show ?thesis using p(2) iff present_iff [OF p(5), of k] by (auto simp: lookupForNextKeyUpdate_def Let_def)
  next
    case (Some v)
    then have "k \<in> fst ` set kvs" using iff by simp
    from next_present [OF J(1) p(1,3,4) this] show ?thesis
      using p(2) iff present_iff [OF p(5), of k] Some pv
      by (intro exI [of _ pv]) (simp add: lookupForNextKeyUpdate_def Let_def)
  qed
qed

text \<open>The callback of a removal decides; a removal it refuses, or of a key that is not there, fails an assertion.\<close>

lemma remove_process_ok:
  fixes t :: "('k :: linorder, 'v) bt"
  assumes J: "tree_ok C (t, s)" "pre_ok (leaves t) s" and v: "lookup k t = Some v"
  shows "\<exists>pv. case proc pv (k, v) (successor k (entries t)) (rows s) of
      Inl e \<Rightarrow> remove_and_process_adjacent_tuples C nd k proc (t, s) = Inl e
    | Inr (ok, x) \<Rightarrow> (\<exists>t' s'. remove_and_process_adjacent_tuples C nd k proc (t, s) = dcheck nd ok (Inr (ok, t', s')) \<and>
        tree_ok C (t', s') \<and> rows s' = x \<and> entries t' = (if ok then drop_key k (entries t) else entries t))"
proof -
  from remove_tree [OF J(1), where k = k and act = "process_erase k proc t"] obtain xs a kvs ys lo hi
    where lv: "leaves t = xs @ (a, kvs) # ys" and ord: "\<forall>l\<in>set xs. \<forall>x\<in>set (snd l). fst x < k" "\<forall>l\<in>set ys. \<forall>x\<in>set (snd l). k < fst x"
      and wf: "bwf C 0 lo hi (Leaf a kvs)"
      and er: "\<forall>e. process_erase k proc t a kvs s = Inl e \<longrightarrow> remove_node C k (process_erase k proc t) t s = Inl e"
      and ok: "\<forall>ok kvs' s1. process_erase k proc t a kvs s = Inr (ok, kvs', s1) \<longrightarrow> bwf C 0 lo hi (Leaf a kvs') \<longrightarrow> chain0 C (xs @ (a, kvs') # ys) s1 \<longrightarrow>
        (\<exists>t' need s'. remove_node C k (process_erase k proc t) t s = Inr (ok, t', need, s') \<and> tree_ok C (change_root t', s') \<and>
          entries (change_root t') = flat xs @ kvs' @ flat ys \<and> tstate.more s' = tstate.more s1)" by (elim exE conjE) (rule that)
  note d = drop_leaf [OF J(1) lv ord wf]
  obtain pv where pv: "prev_tuple t a kvs (lowerBound (map fst kvs) k) s = Inr pv" by (rule prev_at [OF J(2) lv])
  have k: "k \<in> fst ` set kvs" using d(1) v by simp
  have srt: "sorted_wrt (<) (map fst kvs)" using wf by simp
  let ?r = "proc pv (k, v) (successor k (entries t)) (rows s)"
  have act: "process_erase k proc t a kvs s = bind_res ?r (\<lambda>(ok, x). Inr (ok, if ok then drop_key k kvs else kvs,
      if ok then s\<lparr>rows := x, num_items := num_items s - 1\<rparr> else s\<lparr>rows := x\<rparr>))"
    using next_present [OF J(1) lv ord k] present_iff [OF wf, of k] k pv v erase_leaf_eq(1) [OF srt k]
    by (cases ?r) (auto simp: process_erase_def Let_def)
  have rows: "rows s' = rows s1" if "tstate.more s' = tstate.more s1" for s' s1 :: "'x xstate"
    using that by (cases s'; cases s1) (simp add: xstate.defs)
  show ?thesis
  proof (cases ?r)
    case (Inl e)
    then show ?thesis using act er by (intro exI [of _ pv]) (simp add: remove_and_process_adjacent_tuples_def)
  next
    case (Inr ox)
    obtain b x where ox: "ox = (b, x)" by (cases ox)
    let ?s1 = "if b then s\<lparr>rows := x, num_items := num_items s - 1\<rparr> else s\<lparr>rows := x\<rparr>"
    have "chain0 C (xs @ (a, kvs) # ys) (s\<lparr>rows := x\<rparr>)" using J(1) lv by (auto simp: tree_ok_def chained_chain0 chain0_def)
    then have "chain0 C (xs @ (a, if b then drop_key k kvs else kvs) # ys) ?s1" using d(4) [OF k, of ?s1] by (cases b) simp_all
    moreover have "bwf C 0 lo hi (Leaf a (if b then drop_key k kvs else kvs))" using d(2) wf by simp
    moreover have "process_erase k proc t a kvs s = Inr (b, if b then drop_key k kvs else kvs, ?s1)" using act Inr ox by simp
    ultimately obtain t' need s' where r: "remove_node C k (process_erase k proc t) t s = Inr (b, t', need, s')" "tree_ok C (change_root t', s')"
      "entries (change_root t') = flat xs @ (if b then drop_key k kvs else kvs) @ flat ys" "tstate.more s' = tstate.more ?s1"
      using ok by blast
    have "entries (change_root t') = (if b then drop_key k (entries t) else entries t)"
      using r(3) d(3) by (simp add: entries_def lv)
    moreover have "rows s' = x" using rows [OF r(4)] by simp
    ultimately show ?thesis
      using Inr ox r(1,2) by (intro exI [of _ pv]) (auto simp: remove_and_process_adjacent_tuples_def intro!: exI [of _ "change_root t'"] exI [of _ s'])
  qed
qed

end
