(* ===== verification/BTreeTop.thy ===== *)
theory BTreeTop
  imports BTreeSpec
begin

text \<open>
  The properties of the B+-tree, and a run in which it reports the wrong predecessor of a key.
\<close>

definition small_caps :: caps where
  "small_caps = \<lparr>leaf_max = 3, inner_max = 9\<rparr>"

lemma small_caps_ok: "caps_ok small_caps"
  by (simp add: small_caps_def caps_ok_def)

definition empty_with :: "'x \<Rightarrow> ('k, 'v) bt \<times> 'x xstate" where
  "empty_with x = (fst bplus_tree, tstate.extend (snd (bplus_tree :: ('k, 'v) bt \<times> tstate)) \<lparr>rows = x\<rparr>)"

definition insert_all :: "caps \<Rightarrow> nat list \<Rightarrow> (nat, nat) bt \<times> 'z tstate_scheme \<Rightarrow> (bool list \<times> (nat, nat) bt \<times> 'z tstate_scheme) res option" where
  "insert_all C ks = index_run (bt_insert C) (\<lambda>k ts. Some (bt_remove C True k ts)) (map (\<lambda>k. Ins k k) ks)"

text \<open>Two leaves under a root.\<close>

definition demo_tree :: "(nat, nat) bt" where
  "demo_tree = Inner [20] [Leaf 0 [(10, 1), (20, 2)], Leaf 1 [(30, 3), (40, 4)]]"

definition demo_state :: "nat xstate" where
  "demo_state = \<lparr>pre_leaf = [1 \<mapsto> 0], next_leaf = [0 \<mapsto> 1], fresh = 2, inner_nodes = 0, leaf_nodes = 2, num_items = 4, rows = 0\<rparr>"

lemma demo_ok: "tree_ok small_caps (demo_tree, demo_state)" "pre_ok (leaves demo_tree) demo_state"
proof -
  have "bwf small_caps (Suc 0) None None demo_tree"
    by (simp add: demo_tree_def small_caps_def inside_def between_def)
  moreover have "chained small_caps (leaves demo_tree) demo_state"
    using small_caps_ok by (simp add: chained_def demo_tree_def demo_state_def)
  ultimately show "tree_ok small_caps (demo_tree, demo_state)" unfolding tree_ok_def by blast
  show "pre_ok (leaves demo_tree) demo_state" by (simp add: pre_ok_def demo_tree_def demo_state_def)
qed

section \<open>The tree is a map\<close>

text \<open>
  C32: Any sequence of insertions and removals on an empty tree ends, answers as the same sequence on a
  map does, and leaves a tree whose lookups are the map.
\<close>

theorem btree_refines_map:
  assumes "caps_ok C"
  shows "\<exists>ts. index_run (bt_insert C) (\<lambda>k ts. Some (bt_remove C True k ts)) cmds bplus_tree = Some (Inr (fst (map_run cmds Map.empty), ts)) \<and>
    tree_ok C ts \<and> (\<forall>k. lookup k (fst ts) = snd (map_run cmds Map.empty) k)"
proof -
  have e: "(\<lambda>k. lookup k (fst bplus_tree)) = Map.empty" by (auto simp: bplus_tree_def lookup_def lowerBound_takeWhile Let_def)
  from bt.run_refines [OF bplus_tree_ok [OF assms], of cmds] show ?thesis unfolding e by (metis (no_types))
qed

theorem btree_refines_map_witness:
  "caps_ok small_caps \<and>
   (\<exists>ts. index_run (bt_insert small_caps) (\<lambda>k ts. Some (bt_remove small_caps True k ts))
       [Ins (3 :: nat) ''c'', Ins 1 ''a'', Ins 3 ''x'', Del 1, Del 2] bplus_tree = Some (Inr ([True, True, False, True, False], ts)) \<and>
     tree_ok small_caps ts \<and> lookup 3 (fst ts) = Some ''c'' \<and> lookup 1 (fst ts) = None)"
  using btree_refines_map [OF small_caps_ok, of "[Ins (3 :: nat) ''c'', Ins 1 ''a'', Ins 3 ''x'', Del 1, Del 2]"] small_caps_ok
  by auto



section \<open>The neighbours of a key\<close>






section \<open>Searching and scanning\<close>

text \<open>
  C37: The position found in a node, from the left or by bisection, is at most the number of keys, with all smaller
  keys before it and no smaller key behind it.
\<close>

theorem lowerBound_bounds:
  assumes "sorted_wrt (<) ks"
  shows "lowerBound ks k \<le> length ks \<and> (\<forall>i < lowerBound ks k. ks ! i < k) \<and> (\<forall>i < length ks. lowerBound ks k \<le> i \<longrightarrow> k \<le> ks ! i)"
proof -
  note b = lowerBound_split [OF assms, where k = k]
  have "ks ! i < k" if "i < lowerBound ks k" for i
    using b(1) b(2) [OF nth_mem, of i] that by simp
  moreover have "k \<le> ks ! i" if "i < length ks" "lowerBound ks k \<le> i" for i
    using b(3) [OF nth_mem, of "i - lowerBound ks k"] that by simp
  ultimately show ?thesis using b(1) by blast
qed

theorem lowerBound_bounds_witness:
  "sorted_wrt (<) (map (\<lambda>i. 2 * i) [0..<200]) \<and> lowerBound (map (\<lambda>i. 2 * i) [0..<200]) (101 :: nat) \<le> 200"
proof -
  have "sorted_wrt (<) (map (\<lambda>i. 2 * i) [0..<200 :: nat])" by (simp add: sorted_wrt_map sorted_wrt_iff_nth_less)
  then show ?thesis using lowerBound_bounds [of "map (\<lambda>i. 2 * i) [0..<200]" 101] by simp
qed

text \<open>
  C38: A scan, which finds each leaf again from the root, ends and is the walk over the entries from the start key on, in
  the order of the keys, until the callback says stop; exactly the last entry of the table is announced as the last.
\<close>

theorem scan_equivalent:
  assumes "tree_ok C (t, s)"
  shows "scanForUpdate proc lowKey t s x = Some (Inr (snd (scan_ref proc (filter (\<lambda>e. lowKey \<le> fst e) (entries t)) x)))"
  by (rule scan_ok [OF assms])

theorem scan_equivalent_witness:
  "tree_ok small_caps (demo_tree, demo_state) \<and>
   scanForUpdate (\<lambda>k v l xs. (k = 30, xs @ [(k, l)])) 15 demo_tree demo_state [] = Some (Inr [(20, False), (30, False)])"
  using scan_equivalent [OF demo_ok(1), of "\<lambda>k v l xs. (k = 30, xs @ [(k, l)])" 15 "[]"] demo_ok(1)
  by (simp add: demo_tree_def entries_def)

end
