(* ===== verification/Spec2Isabelle.thy ===== *)
theory Spec2Isabelle
  imports SCC CXLMem EBR RowProps PolicyInst BTreeTop
begin

text \<open>
  A model of Tigon, a distributed transactional database whose hosts share CXL memory: the
  concurrency control of its \<open>TwoPLPasha\<close> protocol and the components below it.

  \<^item> \<open>Prelude\<close>: results with an error, the \<open>CHECK\<close>/\<open>DCHECK\<close> macros, bit fields of 64-bit words.
  \<^item> \<open>LockWord\<close>: the lock words of a row, \<open>protocol/TwoPLPasha/TwoPLPashaHelper.h\<close>.
  \<^item> \<open>SCC\<close>: the software cache-coherence managers, \<open>protocol/Pasha/SCC*.h\<close>.
\<close>

end
